(* ===== verification/Prelude.thy ===== *)
theory Prelude
  imports Main "HOL-Library.Word"
begin

text \<open>
  Shared vocabulary of the development: the machine integer types of \<^verbatim>\<open>stdint.h\<close>, byte-addressed
  memory with the little-endian 32- and 64-bit accesses that the kernel's pointer dereferences
  perform on x86-64, and the facts on masks, alignment and word arithmetic that every component
  uses.  The collections are \<^verbatim>\<open>mem_simps\<close> (reads after writes) and \<^verbatim>\<open>mask_simps\<close>
  (masks read as arithmetic on natural numbers).
\<close>

unbundle bit_operations_syntax

named_theorems mem_simps "reads of byte memory after writes"
named_theorems mask_simps "bit masks as arithmetic on nat"

type_synonym u8 = "8 word"
type_synonym u16 = "16 word"
type_synonym u32 = "32 word"
type_synonym u64 = "64 word"
type_synonym bytes = "u64 \<Rightarrow> u8"

section \<open>Byte memory\<close>

definition rd32 :: "bytes \<Rightarrow> u64 \<Rightarrow> u32" where
  "rd32 m a = ucast (m a) OR push_bit 8 (ucast (m (a + 1))) OR push_bit 16 (ucast (m (a + 2)))
     OR push_bit 24 (ucast (m (a + 3)))"

definition rd64 :: "bytes \<Rightarrow> u64 \<Rightarrow> u64" where
  "rd64 m a = ucast (m a) OR push_bit 8 (ucast (m (a + 1))) OR push_bit 16 (ucast (m (a + 2)))
     OR push_bit 24 (ucast (m (a + 3))) OR push_bit 32 (ucast (m (a + 4)))
     OR push_bit 40 (ucast (m (a + 5))) OR push_bit 48 (ucast (m (a + 6)))
     OR push_bit 56 (ucast (m (a + 7)))"

definition wr32 :: "bytes \<Rightarrow> u64 \<Rightarrow> u32 \<Rightarrow> bytes" where
  "wr32 m a v = (\<lambda>x. if x - a < 4 then ucast (drop_bit (8 * unat (x - a)) v) else m x)"

definition wr64 :: "bytes \<Rightarrow> u64 \<Rightarrow> u64 \<Rightarrow> bytes" where
  "wr64 m a v = (\<lambda>x. if x - a < 8 then ucast (drop_bit (8 * unat (x - a)) v) else m x)"

text \<open>
  The bytes \<open>[a, a + n)\<close> and \<open>[b, b + k)\<close> do not meet; addresses are compared modulo
  \<open>2 ^ 64\<close>, as the hardware does.
\<close>

definition apart :: "u64 \<Rightarrow> u64 \<Rightarrow> u64 \<Rightarrow> u64 \<Rightarrow> bool" where
  "apart a n b k \<longleftrightarrow> n \<le> b - a \<and> k \<le> a - b"

lemma byte_split:
  "(n::nat) < 64 \<Longrightarrow> \<exists>q r. n = 8 * q + r \<and> r < 8 \<and> q \<in> {0, 1, 2, 3, 4, 5, 6, 7}"
  by (rule exI [of _ "n div 8"], rule exI [of _ "n mod 8"]) auto

lemmas byte_bits = bit_or_iff bit_push_bit_iff bit_ucast_iff bit_drop_bit_eq

lemma rd32_wr32_same [mem_simps, simp]: "rd32 (wr32 m a v) a = v"
proof (rule bit_word_eqI)
  fix n assume "n < LENGTH(32)"
  then obtain q r where n: "n = 8 * q + r" "r < 8" "q \<in> {0, 1, 2, 3}"
    using byte_split [of n] by auto
  from n(3) n(2) show "bit (rd32 (wr32 m a v) a) n \<longleftrightarrow> bit v n"
    unfolding insert_iff empty_iff
    by (elim disjE; simp add: n(1) rd32_def wr32_def byte_bits)
qed

lemma rd64_wr64_same [mem_simps, simp]: "rd64 (wr64 m a v) a = v"
proof (rule bit_word_eqI)
  fix n assume "n < LENGTH(64)"
  then obtain q r where n: "n = 8 * q + r" "r < 8" "q \<in> {0, 1, 2, 3, 4, 5, 6, 7}"
    using byte_split [of n] by auto
  from n(3) n(2) show "bit (rd64 (wr64 m a v) a) n \<longleftrightarrow> bit v n"
    unfolding insert_iff empty_iff
    by (elim disjE; simp add: n(1) rd64_def wr64_def byte_bits)
qed

lemma apart_byte:
  assumes "apart a n b k" and "i < k"
  shows "\<not> b + i - a < n"
  using assms unfolding apart_def by uint_arith

lemma rd_cong_apart:
  assumes "apart a n b k" and "\<And>x. \<not> x - a < n \<Longrightarrow> m' x = m x" and "i < k"
  shows "m' (b + i) = m (b + i)"
  using apart_byte [OF assms(1,3)] assms(2) by blast

lemma rd64_cong:
  assumes "\<And>i. i < 8 \<Longrightarrow> m' (a + i) = m (a + i)"
  shows "rd64 m' a = rd64 m a"
  using assms [of 0] assms [of 1] assms [of 2] assms [of 3] assms [of 4] assms [of 5]
    assms [of 6] assms [of 7]
  by (simp add: rd64_def)

lemma rd32_cong:
  assumes "\<And>i. i < 4 \<Longrightarrow> m' (a + i) = m (a + i)"
  shows "rd32 m' a = rd32 m a"
  using assms [of 0] assms [of 1] assms [of 2] assms [of 3]
  by (simp add: rd32_def)

lemma wr64_outside: "\<not> x - a < 8 \<Longrightarrow> wr64 m a v x = m x"
  by (simp add: wr64_def)

lemma wr32_outside: "\<not> x - a < 4 \<Longrightarrow> wr32 m a v x = m x"
  by (simp add: wr32_def)

lemma rd64_wr64_apart [mem_simps]: "apart a 8 b 8 \<Longrightarrow> rd64 (wr64 m a v) b = rd64 m b"
  by (rule rd64_cong) (rule rd_cong_apart [where n = 8], auto simp: wr64_outside)

lemma rd64_wr32_apart [mem_simps]: "apart a 4 b 8 \<Longrightarrow> rd64 (wr32 m a v) b = rd64 m b"
  by (rule rd64_cong) (rule rd_cong_apart [where n = 4], auto simp: wr32_outside)

lemma rd32_wr64_apart [mem_simps]: "apart a 8 b 4 \<Longrightarrow> rd32 (wr64 m a v) b = rd32 m b"
  by (rule rd32_cong) (rule rd_cong_apart [where n = 8], auto simp: wr64_outside)

lemma rd32_wr32_apart [mem_simps]: "apart a 4 b 4 \<Longrightarrow> rd32 (wr32 m a v) b = rd32 m b"
  by (rule rd32_cong) (rule rd_cong_apart [where n = 4], auto simp: wr32_outside)

section \<open>Masks and alignment\<close>

lemma and_mask_nat:
  "unat (x AND mask n :: 'a::len word) = unat x mod 2 ^ n"
  by (simp only: take_bit_eq_mask [symmetric] unsigned_take_bit_eq) (simp add: take_bit_eq_mod)

lemma and_not_mask_nat:
  "unat (x AND NOT (mask n) :: 'a::len word) = unat x - unat x mod 2 ^ n"
proof -
  have "x - (x AND mask n) = x AND NOT (x AND mask n)"
    by (rule disjunctive_diff_eq_and_not) (simp add: bit_eq_iff bit_simps)
  also have "x AND NOT (x AND mask n) = x AND NOT (mask n)"
    by (auto simp: bit_eq_iff bit_simps)
  finally have "x AND NOT (mask n) = x - (x AND mask n)" by simp
  moreover have "x AND mask n \<le> x"
    by (rule word_and_le2)
  ultimately show ?thesis
    by (simp add: unat_sub and_mask_nat)
qed

lemma mask_12_u64: "mask 12 = (4095 :: u64)"
  by (simp add: mask_numeral)

lemma and_4095_nat [mask_simps]: "unat (x AND 4095 :: u64) = unat x mod 4096"
  using and_mask_nat [of x 12] by (simp add: mask_numeral)

lemma and_not_4095_nat [mask_simps]: "unat (x AND - 4096 :: u64) = unat x - unat x mod 4096"
  using and_not_mask_nat [of x 12] by (simp add: mask_numeral)

lemma unat_add_lem': "unat a + unat b < 2 ^ LENGTH('a) \<Longrightarrow> unat (a + b) = unat a + unat b"
  for a b :: "'a::len word"
  by (simp add: unat_word_ariths)

lemma unat_u64_add: "unat a + unat b < 2 ^ 64 \<Longrightarrow> unat (a + b) = unat a + unat b"
  for a b :: u64
  by (simp add: unat_word_ariths)

lemma unat_u64_bound: "unat (a :: u64) < 2 ^ 64"
proof -
  have "unat a < 2 ^ LENGTH(64)" by (rule unsigned_less)
  then show ?thesis by simp
qed

lemma and_not_7_int: "(k::int) AND NOT 7 = k - k mod 8"
proof -
  have m: "mask 3 = (7::int)" by (simp add: mask_numeral)
  have "k - (k AND mask 3) = k AND NOT (k AND mask 3)"
    by (rule disjunctive_diff_eq_and_not) (simp add: bit_eq_iff bit_simps)
  also have "k AND NOT (k AND mask 3) = k AND NOT (mask 3)"
    by (auto simp: bit_eq_iff bit_simps)
  finally show ?thesis
    by (simp add: take_bit_eq_mask [symmetric] take_bit_eq_mod flip: m)
qed

lemma u16_bytes:
  "256 * uint (ucast (drop_bit 8 w) :: u8) + uint (ucast (w AND 0xFF) :: u8) = uint (w :: u16)"
proof -
  have b: "uint w < 65536" "0 \<le> uint w"
    using uint_lt2p [of w] by simp_all
  have "uint w div 256 mod 256 = uint w div 256"
    using b by (intro mod_pos_pos_trivial) (auto simp: pos_imp_zdiv_nonneg_iff)
  then have hi: "uint (ucast (drop_bit 8 w) :: u8) = uint w div 256"
    by (simp add: unsigned_ucast_eq take_bit_eq_mod drop_bit_eq_div uint_div_distrib)
  have lo: "uint (ucast (w AND 0xFF) :: u8) = uint w mod 256"
  proof -
    have "int (unat (w AND 0xFF)) = int (unat w mod 256)"
      using and_mask_nat [of w 8] by (simp add: mask_numeral)
    then show ?thesis by (simp add: unsigned_ucast_eq take_bit_eq_mod zmod_int)
  qed
  show ?thesis unfolding hi lo by simp
qed

lemma bit_7_u8: "bit (c :: u8) 7 \<longleftrightarrow> 0x80 \<le> c"
proof -
  have "bit c 7 = bit (unat c) 7" by (simp add: bit_unsigned_iff)
  also have "\<dots> = odd (unat c div 128)" by (simp add: bit_iff_odd)
  also have "\<dots> = (128 \<le> unat c)"
  proof -
    have "unat c < 2 ^ LENGTH(8)" by (rule unsigned_less)
    then have "unat c div 128 = (if 128 \<le> unat c then 1 else 0)" by auto
    then show ?thesis by simp
  qed
  finally show ?thesis by (simp add: word_le_nat_alt)
qed

lemma unat_of_nat_u64: "n < 2 ^ 64 \<Longrightarrow> unat (of_nat n :: u64) = n"
  by (simp add: unsigned_of_nat take_bit_nat_eq_self)

lemma unat_ucast_u32: "unat (ucast (x :: u32) :: u64) = unat x"
proof -
  have "unat x < 2 ^ LENGTH(32)" by (rule unsigned_less)
  then show ?thesis by (simp add: unsigned_ucast_eq take_bit_nat_eq_self)
qed

lemma unat_u32_bound: "unat (x :: u32) < 2 ^ 32"
proof -
  have "unat x < 2 ^ LENGTH(32)" by (rule unsigned_less)
  then show ?thesis by simp
qed

lemma unat_Suc_less:
  assumes "(i :: 'a::len word) < n"
  shows "unat (i + 1) = Suc (unat i)"
proof -
  have "unat n < 2 ^ LENGTH('a)" by (rule unsigned_less)
  then have "Suc (unat i) < 2 ^ LENGTH('a)"
    using assms unfolding word_less_nat_alt by linarith
  then show ?thesis by (simp add: unat_add_lem')
qed

lemma word_count_up [termination_simp]:
  "(i :: 'a::len word) < n \<Longrightarrow> unat n - unat (i + 1) < unat n - unat i"
  by (simp add: unat_Suc_less word_less_nat_alt)

section \<open>Loops over index ranges\<close>

lemma fold_fill:
  "j \<le> k \<Longrightarrow> k \<le> length b \<Longrightarrow>
     fold (\<lambda>i b. b[i := v]) [j..<k] b = take j b @ replicate (k - j) v @ drop k b"
proof (induction k)
  case 0
  then show ?case by simp
next
  case (Suc k)
  show ?case
  proof (cases "j = Suc k")
    case True
    then show ?thesis by simp
  next
    case False
    with Suc have jk: "j \<le> k" and kl: "k < length b" by simp_all
    have "fold (\<lambda>i b. b[i := v]) [j..<Suc k] b = (take j b @ replicate (k - j) v @ drop k b)[k := v]"
      using Suc jk by simp
    also have "\<dots> = take j b @ replicate (k - j) v @ (drop k b)[0 := v]"
      using jk kl by (simp add: list_update_append)
    also have "\<dots> = take j b @ replicate (Suc k - j) v @ drop (Suc k) b"
      using jk kl by (simp add: Cons_nth_drop_Suc [symmetric] Suc_diff_le replicate_append_same)
    finally show ?thesis .
  qed
qed

lemma fold_const_upt: "fold (\<lambda>i. f) [j..<k] s = (f ^^ (k - j)) s"
  by (induction k) (auto simp: Suc_diff_le)

lemma fold_replicate: "fold f (replicate n x) s = (f x ^^ n) s"
  by (induction n arbitrary: s) (auto simp: funpow_swap1)

section \<open>Loops that may not complete\<close>

text \<open>A \<^verbatim>\<open>for\<close> loop over a list of indices whose body can fail to complete.\<close>

fun each :: "('i \<Rightarrow> 's \<Rightarrow> 's option) \<Rightarrow> 'i list \<Rightarrow> 's \<Rightarrow> 's option" where
  "each f [] s = Some s"
| "each f (i # is) s = Option.bind (f i s) (each f is)"

end
