(* ===== verification/IO_Ports.thy ===== *)
theory IO_Ports
  imports Prelude
begin

text \<open>
  Port I/O (\<^verbatim>\<open>src/src/io.h\<close>).  The state of the port bus is the history of accesses, newest first.
  \<^verbatim>\<open>outb\<close> appends an event; \<^verbatim>\<open>inb\<close> asks the device, an arbitrary function of the history and the
  port, for the byte it delivers, and records the read.  The devices themselves (CRTC, 8259A, 8042)
  are not code of the repository: a device is a parameter of every definition that reads a port,
  and what a theorem needs of it is a hypothesis.  The functions \<^verbatim>\<open>last_out\<close>, \<^verbatim>\<open>outs\<close> and
  \<^verbatim>\<open>crtc_reg\<close> read a history back and are used in statements only.
\<close>

datatype io_event = Out u16 u8 | In u16 u8

type_synonym device = "io_event list \<Rightarrow> u16 \<Rightarrow> u8"

record bus =
  io_trace :: "io_event list"

definition outb :: "u16 \<Rightarrow> u8 \<Rightarrow> 'a bus_scheme \<Rightarrow> 'a bus_scheme" where
  "outb port val s = s\<lparr>io_trace := Out port val # io_trace s\<rparr>"

definition inb :: "device \<Rightarrow> u16 \<Rightarrow> 'a bus_scheme \<Rightarrow> u8 \<times> 'a bus_scheme" where
  "inb dev port s =
     (let ret = dev (io_trace s) port in (ret, s\<lparr>io_trace := In port ret # io_trace s\<rparr>))"

section \<open>Reading a history\<close>

fun last_out :: "u16 \<Rightarrow> io_event list \<Rightarrow> u8 option" where
  "last_out p [] = None"
| "last_out p (Out q v # tr) = (if p = q then Some v else last_out p tr)"
| "last_out p (In q v # tr) = last_out p tr"

fun outs :: "io_event list \<Rightarrow> (u16 \<times> u8) list" where
  "outs [] = []"
| "outs (Out q v # tr) = (q, v) # outs tr"
| "outs (In q v # tr) = outs tr"

text \<open>
  The CRTC is reached through an index port and a data port: a byte written to \<open>0x3D5\<close> lands in
  the register selected by the last byte written to \<open>0x3D4\<close> (comment of \<^verbatim>\<open>vga.c\<close>, lines 46 to 54).
\<close>

fun crtc_reg :: "io_event list \<Rightarrow> u8 \<Rightarrow> u8 option" where
  "crtc_reg [] r = None"
| "crtc_reg (Out q v # tr) r =
     (if q = 0x3D5 \<and> last_out 0x3D4 tr = Some r then Some v else crtc_reg tr r)"
| "crtc_reg (In q v # tr) r = crtc_reg tr r"

text \<open>A device that answers a read of a port with the byte last written to it.\<close>

definition reads_back :: "device \<Rightarrow> u16 \<Rightarrow> bool" where
  "reads_back dev p \<longleftrightarrow> (\<forall>tr v. last_out p tr = Some v \<longrightarrow> dev tr p = v)"

definition latch_dev :: device where
  "latch_dev tr p = (case last_out p tr of None \<Rightarrow> 0 | Some v \<Rightarrow> v)"

lemma latch_dev_reads_back [simp]: "reads_back latch_dev p"
  by (simp add: reads_back_def latch_dev_def)

lemma io_trace_outb [simp]: "io_trace (outb p v s) = Out p v # io_trace s"
  by (simp add: outb_def)

lemma inb_simps [simp]:
  "fst (inb dev p s) = dev (io_trace s) p"
  "io_trace (snd (inb dev p s)) = In p (dev (io_trace s) p) # io_trace s"
  by (simp_all add: inb_def Let_def)

end
