(* ===== verification/Vga.thy ===== *)
theory Vga
  imports IO_Ports
begin

text \<open>
  The VGA text terminal (\<^verbatim>\<open>src/src/vga.c\<close>, \<^verbatim>\<open>src/src/vga.h\<close>).  The record \<^verbatim>\<open>vga_st\<close> holds the
  file's static variables and the memory behind the pointer \<^verbatim>\<open>vga_buffer\<close>, cell by cell, on top of the
  port history: the screen is the cells 0 to 1999 from \<open>0xB8000\<close> on, and an index outside that range reaches whatever
  lies before or behind it.  A C \<^verbatim>\<open>char\<close> is a byte, sign-extended where the C code widens it.  C strings are
  byte lists; the terminating NUL is the end of the list or a zero byte in it.  The variadic
  arguments of \<^verbatim>\<open>vga_printf\<close> are a list of 64-bit slots and strings.  Where the C code has no
  defined behaviour (a missing or ill-typed argument, a division by a zero base, a write past the
  24-byte digit buffer, an overflow of the field width) the model returns \<^const>\<open>None\<close>.
\<close>

record vga_st = bus +
  vga_buffer :: "int \<Rightarrow> u16"
  vga_row :: int
  vga_col :: int
  vga_color :: u8

definition VGA_WIDTH :: int where "VGA_WIDTH = 80"
definition VGA_HEIGHT :: int where "VGA_HEIGHT = 25"

lemmas vga_consts = VGA_WIDTH_def VGA_HEIGHT_def

definition vga_entry :: "u8 \<Rightarrow> u8 \<Rightarrow> u16" where
  "vga_entry c color = (scast c OR push_bit 8 (ucast color))"

definition vga_scroll :: "'a vga_st_scheme \<Rightarrow> 'a vga_st_scheme" where
  "vga_scroll s =
     (let b1 = fold (\<lambda>i b. b(int i := b (int i + VGA_WIDTH)))
                 [0..<nat ((VGA_HEIGHT - 1) * VGA_WIDTH)] (vga_buffer s);
          b2 = fold (\<lambda>i b. b(int i := vga_entry 0x20 (vga_color s)))
                 [nat ((VGA_HEIGHT - 1) * VGA_WIDTH)..<nat (VGA_HEIGHT * VGA_WIDTH)] b1
      in s\<lparr>vga_buffer := b2\<rparr>)"

definition vga_newline :: "'a vga_st_scheme \<Rightarrow> 'a vga_st_scheme" where
  "vga_newline s =
     (let s1 = s\<lparr>vga_col := 0, vga_row := vga_row s + 1\<rparr>
      in if vga_row s1 \<ge> VGA_HEIGHT then (vga_scroll s1)\<lparr>vga_row := VGA_HEIGHT - 1\<rparr> else s1)"

definition vga_enable_cursor :: "device \<Rightarrow> 'a vga_st_scheme \<Rightarrow> 'a vga_st_scheme" where
  "vga_enable_cursor dev s =
     (let s1 = outb 0x3D4 0x0A s;
          (start, s2) = inb dev 0x3D5 s1;
          s3 = outb 0x3D5 ((start AND 0xC0) OR 0x0E) s2;
          s4 = outb 0x3D4 0x0B s3
      in outb 0x3D5 0x0F s4)"

definition vga_update_cursor :: "'a vga_st_scheme \<Rightarrow> 'a vga_st_scheme" where
  "vga_update_cursor s =
     (let pos = (word_of_int (vga_row s * VGA_WIDTH + vga_col s) :: u16);
          s1 = outb 0x3D4 0x0F s;
          s2 = outb 0x3D5 (ucast (pos AND 0xFF)) s1;
          s3 = outb 0x3D4 0x0E s2
      in outb 0x3D5 (ucast (drop_bit 8 pos)) s3)"

definition vga_clear :: "device \<Rightarrow> 'a vga_st_scheme \<Rightarrow> 'a vga_st_scheme" where
  "vga_clear dev s =
     (let b = fold (\<lambda>i b. b(int i := vga_entry 0x20 (vga_color s)))
                [0..<nat (VGA_WIDTH * VGA_HEIGHT)] (vga_buffer s);
          s1 = s\<lparr>vga_buffer := b, vga_row := 0, vga_col := 0\<rparr>
      in vga_update_cursor (vga_enable_cursor dev s1))"

definition vga_set_color :: "u8 \<Rightarrow> 'a vga_st_scheme \<Rightarrow> 'a vga_st_scheme" where
  "vga_set_color attr s = s\<lparr>vga_color := attr\<rparr>"

definition vga_putchar :: "u8 \<Rightarrow> 'a vga_st_scheme \<Rightarrow> 'a vga_st_scheme" where
  "vga_putchar c s =
     vga_update_cursor
      (if c = 0x0A then vga_newline s
       else if c = 0x0D then s\<lparr>vga_col := 0\<rparr>
       else if c = 0x09 then
         (let s1 = s\<lparr>vga_col := (vga_col s + 8) AND NOT 7\<rparr>
          in if vga_col s1 \<ge> VGA_WIDTH then vga_newline s1 else s1)
       else if c = 0x08 then (if vga_col s > 0 then s\<lparr>vga_col := vga_col s - 1\<rparr> else s)
       else
         (let s1 = s\<lparr>vga_buffer := (vga_buffer s)
                        (vga_row s * VGA_WIDTH + vga_col s := vga_entry c (vga_color s)),
                     vga_col := vga_col s + 1\<rparr>
          in if vga_col s1 \<ge> VGA_WIDTH then vga_newline s1 else s1))"

fun vga_puts :: "u8 list \<Rightarrow> 'a vga_st_scheme \<Rightarrow> 'a vga_st_scheme" where
  "vga_puts [] s = s"
| "vga_puts (c # cs) s = (if c = 0 then s else vga_puts cs (vga_putchar c s))"

section \<open>Formatted output\<close>

definition digit_char :: "u64 \<Rightarrow> bool \<Rightarrow> u8" where
  "digit_char d upper =
     (if d < 10 then 0x30 + ucast d else (if upper then 0x41 else 0x61) + (ucast d - 10))"

text \<open>
  The digit loop of \<^verbatim>\<open>vga_put_uint\<close>: \<^verbatim>\<open>ds\<close> is \<^verbatim>\<open>digits[0..n)\<close>.  The array has 24 elements.
\<close>

function put_uint_digits :: "u64 \<Rightarrow> u64 \<Rightarrow> bool \<Rightarrow> u8 list \<Rightarrow> u8 list option" where
  "put_uint_digits val base upper ds =
     (if 0 < val then
        (if base = 0 \<or> 24 \<le> length ds then None
         else put_uint_digits (val div base) base upper (ds @ [digit_char (val mod base) upper]))
      else Some ds)"
  by pat_completeness auto
termination
  by (relation "measure (\<lambda>(val, base, upper, ds). 24 - length ds)") auto

declare put_uint_digits.simps [simp del]

definition vga_put_uint ::
  "u64 \<Rightarrow> u64 \<Rightarrow> int \<Rightarrow> u8 \<Rightarrow> bool \<Rightarrow> 'a vga_st_scheme \<Rightarrow> 'a vga_st_scheme option" where
  "vga_put_uint val base width pad upper s =
     (case (if val = 0 then Some [0x30] else put_uint_digits val base upper []) of
        None \<Rightarrow> None
      | Some digits \<Rightarrow>
          Some (fold vga_putchar (rev digits)
                 (fold (\<lambda>i. vga_putchar pad) [length digits..<nat width] s)))"

datatype varg = VInt u64 | VStr "u8 list"

text \<open>The width is a C \<^verbatim>\<open>int\<close>: a format that makes it overflow has no defined behaviour.\<close>

definition INT_MAX :: int where "INT_MAX = 0x7FFFFFFF"

fun scan_width :: "int \<Rightarrow> u8 list \<Rightarrow> (int \<times> u8 list) option" where
  "scan_width w [] = Some (w, [])"
| "scan_width w (c # p) =
     (if 0x30 \<le> c \<and> c \<le> 0x39 then
        (if w * 10 + (uint c - 0x30) > INT_MAX then None else scan_width (w * 10 + (uint c - 0x30)) p)
      else Some (w, c # p))"

definition scan_length :: "u8 list \<Rightarrow> bool \<times> u8 list" where
  "scan_length p =
     (case p of [] \<Rightarrow> (False, [])
      | c # q \<Rightarrow>
          if c = 0x6C \<or> c = 0x7A then
            (True, (case q of [] \<Rightarrow> [] | d # q' \<Rightarrow> if d = 0x6C then q' else d # q'))
          else (False, c # q))"

text \<open>The \<^verbatim>\<open>switch\<close> on the conversion character: the printed state and the remaining arguments.\<close>

definition printf_conv ::
  "u8 \<Rightarrow> bool \<Rightarrow> int \<Rightarrow> u8 \<Rightarrow> varg list \<Rightarrow> 'a vga_st_scheme
     \<Rightarrow> ('a vga_st_scheme \<times> varg list) option" where
  "printf_conv c is64 width pad args s =
     (if c = 0x63 then
        (case args of VInt v # r \<Rightarrow> Some (vga_putchar (ucast v) s, r) | _ \<Rightarrow> None)
      else if c = 0x73 then
        (case args of VStr t # r \<Rightarrow> Some (vga_puts t s, r) | _ \<Rightarrow> None)
      else if c = 0x25 then Some (vga_putchar 0x25 s, args)
      else if c = 0x64 then
        (case args of VInt v # r \<Rightarrow>
           (let sv = (if is64 then v else scast (ucast v :: u32)) in
            map_option (\<lambda>s'. (s', r))
              (if sv <s 0 then vga_put_uint (NOT sv + 1) 10 width pad False (vga_putchar 0x2D s)
               else vga_put_uint sv 10 width pad False s))
         | _ \<Rightarrow> None)
      else if c = 0x75 then
        (case args of VInt v # r \<Rightarrow>
           map_option (\<lambda>s'. (s', r))
             (vga_put_uint (if is64 then v else ucast (ucast v :: u32)) 10 width pad False s)
         | _ \<Rightarrow> None)
      else if c = 0x78 \<or> c = 0x58 then
        (case args of VInt v # r \<Rightarrow>
           map_option (\<lambda>s'. (s', r))
             (vga_put_uint (if is64 then v else ucast (ucast v :: u32)) 16 width pad (c = 0x58) s)
         | _ \<Rightarrow> None)
      else if c = 0x70 then
        (case args of VInt v # r \<Rightarrow>
           map_option (\<lambda>s'. (s', r)) (vga_put_uint v 16 16 0x30 False (vga_puts [0x30, 0x78] s))
         | _ \<Rightarrow> None)
      else Some (s, args))"

lemma scan_width_length: "scan_width w p = Some (w', q) \<Longrightarrow> length q \<le> length p"
  by (induction w p rule: scan_width.induct) (auto split: if_splits)

lemma scan_length_length: "length (snd (scan_length p)) \<le> length p"
  by (auto simp: scan_length_def split: list.splits)

definition scan_zero :: "u8 list \<Rightarrow> bool \<times> u8 list" where
  "scan_zero p = (case p of c # q \<Rightarrow> if c = 0x30 then (True, q) else (False, p) | [] \<Rightarrow> (False, p))"

lemma scan_zero_length: "length (snd (scan_zero p)) \<le> length p"
  by (auto simp: scan_zero_def split: list.splits)

lemma scan_all_length:
  assumes "(z, p1) = scan_zero p" and "scan_width 0 p1 = Some (w, p2)" and "(i, p3) = scan_length p2"
    and "p3 = cv # p4"
  shows "length p4 < Suc (length p)"
  using scan_zero_length [of p] scan_width_length [OF assms(2)] scan_length_length [of p2]
  by (simp add: assms(4) flip: assms(1,3))

function vga_printf :: "u8 list \<Rightarrow> varg list \<Rightarrow> 'a vga_st_scheme \<Rightarrow> 'a vga_st_scheme option" where
  "vga_printf [] args s = Some s"
| "vga_printf (c # p) args s =
     (if c = 0 then Some s
      else if c \<noteq> 0x25 then vga_printf p args (vga_putchar c s)
      else
        (let (zero_pad, p1) = scan_zero p in
         case scan_width 0 p1 of
           None \<Rightarrow> None
         | Some (width, p2) \<Rightarrow>
             (let (is64, p3) = scan_length p2;
                  pad = (if zero_pad then 0x30 else 0x20)
              in case p3 of
                   [] \<Rightarrow> Some s
                 | cv # p4 \<Rightarrow>
                     if cv = 0 then Some s
                     else (case printf_conv cv is64 width pad args s of
                             None \<Rightarrow> None
                           | Some (s', args') \<Rightarrow> vga_printf p4 args' s'))))"
  by pat_completeness auto
termination
  by (relation "measure (\<lambda>(p, args, s). length p)") (auto dest: scan_all_length)

section \<open>Invariant\<close>

definition vga_ok :: "'a vga_st_scheme \<Rightarrow> bool" where
  "vga_ok s \<longleftrightarrow> 0 \<le> vga_row s \<and> vga_row s < 25 \<and> 0 \<le> vga_col s \<and> vga_col s < 80"

text \<open>The cells before and behind the screen.\<close>

definition same_beyond :: "(int \<Rightarrow> u16) \<Rightarrow> (int \<Rightarrow> u16) \<Rightarrow> bool" where
  "same_beyond b b' \<longleftrightarrow> (\<forall>x. x < 0 \<or> 2000 \<le> x \<longrightarrow> b' x = b x)"

lemma same_beyond_refl [simp, intro]: "same_beyond b b"
  by (simp add: same_beyond_def)

lemma same_beyond_trans: "same_beyond a b \<Longrightarrow> same_beyond b c \<Longrightarrow> same_beyond a c"
  by (simp add: same_beyond_def)

lemma fold_fill_cells: "fold (\<lambda>i b. b(int i := v)) [j..<k] b = (\<lambda>x. if int j \<le> x \<and> x < int k then v else b x)"
  by (induction k) (auto simp: fun_eq_iff)

lemma fold_shift_cells:
  "0 < w \<Longrightarrow> fold (\<lambda>i b. b(int i := b (int i + w))) [0..<k] b = (\<lambda>x. if 0 \<le> x \<and> x < int k then b (x + w) else b x)"
  by (induction k) (auto simp: fun_eq_iff)

lemma vga_scroll_buffer:
  "vga_buffer (vga_scroll s) = (\<lambda>x. if 0 \<le> x \<and> x < 1920 then vga_buffer s (x + 80)
     else if 1920 \<le> x \<and> x < 2000 then vga_entry 0x20 (vga_color s) else vga_buffer s x)"
  by (auto simp: fun_eq_iff vga_scroll_def Let_def vga_consts fold_shift_cells fold_fill_cells simp del: upt_rec_numeral)

lemma vga_scroll_frame [simp]:
  "vga_row (vga_scroll s) = vga_row s" "vga_col (vga_scroll s) = vga_col s"
  "vga_color (vga_scroll s) = vga_color s" "io_trace (vga_scroll s) = io_trace s"
  by (simp_all add: vga_scroll_def Let_def)

lemma vga_update_cursor_frame [simp]:
  "vga_buffer (vga_update_cursor s) = vga_buffer s" "vga_row (vga_update_cursor s) = vga_row s"
  "vga_col (vga_update_cursor s) = vga_col s" "vga_color (vga_update_cursor s) = vga_color s"
  by (simp_all add: vga_update_cursor_def Let_def outb_def)

lemma vga_enable_cursor_frame [simp]:
  "vga_buffer (vga_enable_cursor dev s) = vga_buffer s" "vga_row (vga_enable_cursor dev s) = vga_row s"
  "vga_col (vga_enable_cursor dev s) = vga_col s" "vga_color (vga_enable_cursor dev s) = vga_color s"
  by (simp_all add: vga_enable_cursor_def Let_def outb_def inb_def)

lemma vga_ok_update_cursor [simp]: "vga_ok (vga_update_cursor s) = vga_ok s"
  by (simp add: vga_ok_def)

lemma vga_newline_ok: "0 \<le> vga_row s \<Longrightarrow> vga_row s < 25 \<Longrightarrow> vga_ok (vga_newline s)"
  by (auto simp: vga_newline_def Let_def vga_ok_def vga_consts)

lemma vga_newline_beyond: "same_beyond (vga_buffer s) (vga_buffer (vga_newline s))"
  by (simp add: same_beyond_def vga_newline_def Let_def vga_scroll_buffer)

lemma vga_wrap_ok:
  assumes "0 \<le> vga_row g" "vga_row g < 25" "0 \<le> vga_col g"
  shows "vga_ok (if VGA_WIDTH \<le> vga_col g then vga_newline g else g)"
  using assms by (simp add: vga_newline_ok) (simp add: vga_ok_def vga_consts)

text \<open>An output step: the cursor stays on the screen, and no cell outside the screen changes.\<close>

definition on_screen :: "'a vga_st_scheme \<Rightarrow> 'a vga_st_scheme \<Rightarrow> bool" where
  "on_screen s t \<longleftrightarrow> vga_ok t \<and> same_beyond (vga_buffer s) (vga_buffer t)"

lemma on_screen_refl: "vga_ok s \<Longrightarrow> on_screen s s"
  by (simp add: on_screen_def)

lemma on_screen_trans: "on_screen s t \<Longrightarrow> on_screen t u \<Longrightarrow> on_screen s u"
  by (auto simp: on_screen_def intro: same_beyond_trans)

lemma on_screen_fold:
  assumes step: "\<And>x s. vga_ok s \<Longrightarrow> on_screen s (f x s)"
  shows "vga_ok s \<Longrightarrow> on_screen s (fold f xs s)"
proof (induction xs arbitrary: s)
  case (Cons x xs)
  have "on_screen s (f x s)" by (rule step [OF Cons.prems])
  moreover from this have "on_screen (f x s) (fold f xs (f x s))" by (intro Cons.IH) (simp add: on_screen_def)
  ultimately show ?case by (simp add: on_screen_trans)
qed (simp add: on_screen_refl)

lemma vga_putchar_ok:
  assumes "vga_ok s"
  shows "vga_ok (vga_putchar c s)"
proof -
  have ok: "0 \<le> vga_row s" "vga_row s < 25" "0 \<le> vga_col s"
    using assms by (simp_all add: vga_ok_def)
  have "0 \<le> (vga_col s + 8) AND NOT 7"
    using ok(3) unfolding and_not_7_int by simp
  then show ?thesis
    unfolding vga_putchar_def vga_ok_update_cursor Let_def
    using ok assms by (simp add: vga_wrap_ok vga_newline_ok) (simp add: vga_ok_def vga_consts)
qed

lemma vga_putchar_screen:
  assumes "vga_ok s"
  shows "on_screen s (vga_putchar c s)"
proof -
  have "0 \<le> vga_row s * 80 + vga_col s" "vga_row s * 80 + vga_col s < 2000" using assms by (auto simp: vga_ok_def)
  then have "same_beyond (vga_buffer s) ((vga_buffer s)(vga_row s * 80 + vga_col s := x))" for x
    by (auto simp: same_beyond_def)
  note cell = this
  have "same_beyond (vga_buffer s) (vga_buffer (vga_newline (s\<lparr>vga_buffer := (vga_buffer s)(vga_row s * 80 + vga_col s := x), vga_col := k\<rparr>)))" for x k
    by (rule same_beyond_trans [OF cell [of x]]) (use vga_newline_beyond [of "s\<lparr>vga_buffer := b, vga_col := k\<rparr>" for b] in simp)
  then have "same_beyond (vga_buffer s) (vga_buffer (vga_putchar c s))"
    using cell vga_newline_beyond [of s] vga_newline_beyond [of "s\<lparr>vga_col := k\<rparr>" for k]
    by (simp add: vga_putchar_def Let_def vga_consts)
  then show ?thesis using vga_putchar_ok [OF assms] by (simp add: on_screen_def)
qed

lemma vga_puts_screen: "vga_ok s \<Longrightarrow> on_screen s (vga_puts cs s)"
proof (induction cs s rule: vga_puts.induct)
  case (2 c cs s)
  then show ?case
    using vga_putchar_screen [OF 2(2), of c] by (auto simp: on_screen_refl on_screen_def intro: same_beyond_trans)
qed (simp add: on_screen_refl)

lemma vga_put_uint_screen:
  assumes "vga_ok s" "vga_put_uint v b w pad up s = Some t"
  shows "on_screen s t"
proof -
  obtain ds where t: "t = fold vga_putchar (rev ds) (fold (\<lambda>i. vga_putchar pad) [length ds..<nat w] s)"
    using assms(2) by (auto simp: vga_put_uint_def split: option.splits)
  have "on_screen s (fold (\<lambda>i. vga_putchar pad) [length ds..<nat w] s)" by (rule on_screen_fold [OF vga_putchar_screen assms(1)])
  moreover from this have "on_screen (fold (\<lambda>i. vga_putchar pad) [length ds..<nat w] s) t"
    unfolding t by (intro on_screen_fold vga_putchar_screen) (simp_all add: on_screen_def)
  ultimately show ?thesis by (rule on_screen_trans)
qed

lemma printf_conv_screen:
  assumes "vga_ok s" "printf_conv c i w pad args s = Some (t, r)"
  shows "on_screen s t"
proof -
  have out: "on_screen s (vga_putchar 0x2D s)" "on_screen s (vga_puts [0x30, 0x78] s)" "on_screen s s"
    using assms(1) by (rule vga_putchar_screen vga_puts_screen on_screen_refl)+
  have "on_screen s t" if "on_screen s u" "vga_put_uint v b w' p up u = Some t" for u v b w' p up
    using vga_put_uint_screen [OF _ that(2)] that(1) on_screen_trans by (auto simp: on_screen_def)
  note put = this [OF out(1)] this [OF out(2)] this [OF out(3)]
  show ?thesis
    using assms(2) put vga_putchar_screen [OF assms(1)] vga_puts_screen [OF assms(1)] out(3)
    by (auto simp: printf_conv_def Let_def simp del: vga_puts.simps split: list.splits varg.splits if_splits)
qed

lemma vga_printf_screen: "vga_ok s \<Longrightarrow> vga_printf f args s = Some t \<Longrightarrow> on_screen s t"
proof (induction f args s rule: vga_printf.induct)
  case (1 args s)
  then show ?case by (simp add: on_screen_refl)
next
  case (2 c p args s)
  show ?case
  proof (cases "c = 0x25")
    case False
    have p: "on_screen s (vga_putchar c s)" by (rule vga_putchar_screen [OF 2(3)])
    show ?thesis
    proof (cases "c = 0")
      case True
      then show ?thesis using 2(4) on_screen_refl [OF 2(3)] by simp
    next
      case c0: False
      then have "on_screen (vga_putchar c s) t" using 2(1) 2(4) False p by (simp add: on_screen_def)
      with p show ?thesis by (rule on_screen_trans)
    qed
  next
    case c: True
    obtain z p1 where z: "scan_zero p = (z, p1)" by force
    from 2(4) obtain w p2 where w: "scan_width 0 p1 = Some (w, p2)" by (auto simp: c z split: option.splits)
    obtain i p3 where i: "scan_length p2 = (i, p3)" by force
    show ?thesis
    proof (cases "p3 = [] \<or> hd p3 = 0")
      case True
      then show ?thesis using 2(4) on_screen_refl [OF 2(3)] by (cases p3) (auto simp: c z w i)
    next
      case False
      then obtain cv p4 where p3: "p3 = cv # p4" "cv \<noteq> 0" by (cases p3) auto
      from 2(4) obtain s' args' where k: "printf_conv cv i w (if z then 0x30 else 0x20) args s = Some (s', args')" "vga_printf p4 args' s' = Some t"
        by (auto simp: c z w i p3 split: option.splits)
      have s': "on_screen s s'" by (rule printf_conv_screen [OF 2(3) k(1)])
      then have "on_screen s' t" using 2(2) [OF _ _ z [symmetric] refl w refl i [symmetric] refl refl p3 k(1) refl] k(2) c by (simp add: on_screen_def)
      with s' show ?thesis by (rule on_screen_trans)
    qed
  qed
qed

section \<open>Cursor, cells and numbers\<close>

lemma crtc_after_update:
  assumes "0 \<le> vga_row s * 80 + vga_col s" "vga_row s * 80 + vga_col s < 65536"
  shows "\<exists>hi lo. crtc_reg (io_trace (vga_update_cursor s)) 0x0E = Some hi \<and>
     crtc_reg (io_trace (vga_update_cursor s)) 0x0F = Some lo \<and>
     256 * uint hi + uint lo = vga_row s * 80 + vga_col s"
proof -
  let ?w = "word_of_int (vga_row s * 80 + vga_col s) :: u16"
  have w: "uint ?w = vga_row s * 80 + vga_col s"
    by (subst uint_word_of_int_eq) (use assms in \<open>simp add: take_bit_int_eq_self\<close>)
  show ?thesis
    using u16_bytes [of ?w] unfolding w
    by (simp add: vga_update_cursor_def Let_def vga_consts)
qed

lemma vga_entry_char: "ucast (vga_entry c color) = c"
  by (auto simp: vga_entry_def bit_eq_iff bit_simps)

lemma vga_entry_ascii: "c < 0x80 \<Longrightarrow> ucast (drop_bit 8 (vga_entry c color)) = color"
  using bit_7_u8 [of c]
  by (auto simp: vga_entry_def bit_eq_iff bit_simps)

lemma vga_entry_high: "0x80 \<le> c \<Longrightarrow> ucast (drop_bit 8 (vga_entry c color)) = (mask 8 :: u8)"
  using bit_7_u8 [of c]
  by (auto simp: vga_entry_def bit_eq_iff bit_simps)

definition digit_value :: "u8 \<Rightarrow> nat" where
  "digit_value c = (if c \<le> 0x39 then unat c - 0x30 else if c \<le> 0x46 then unat c - 0x37 else unat c - 0x57)"

lemma digit_value_char:
  assumes "d < 16"
  shows "digit_value (digit_char d upper) = unat d"
proof -
  have d: "unat d < 16" using assms by (simp add: word_less_nat_alt)
  have c: "unat (ucast d :: u8) = unat d"
    using d by (simp add: unsigned_ucast_eq take_bit_eq_mod)
  have low: "unat (0x30 + ucast d :: u8) = 48 + unat d"
    using d c by (simp add: unat_word_ariths)
  have high: "unat (k + (ucast d - 10) :: u8) = unat k + unat d - 10" if "10 \<le> d" "k < 0x70" for k
  proof -
    have "unat (ucast d - 10 :: u8) = unat d - 10"
      using that c by (subst unat_sub) (simp_all add: word_le_nat_alt)
    then show ?thesis
      using that d by (subst unat_add_lem') (auto simp: word_less_nat_alt word_le_nat_alt)
  qed
  show ?thesis
    using d low high [of "0x41"] high [of "0x61"]
    by (auto simp: digit_char_def digit_value_def word_le_nat_alt word_less_nat_alt)
qed

fun le_value :: "nat \<Rightarrow> u8 list \<Rightarrow> nat" where
  "le_value b [] = 0"
| "le_value b (c # cs) = digit_value c + b * le_value b cs"

lemma put_uint_digits_spec:
  assumes "2 \<le> base" "base \<le> 16" 
  shows "unat val < unat base ^ k \<Longrightarrow> length ds + k \<le> 24 \<Longrightarrow>
    \<exists>es. put_uint_digits val base upper ds = Some (ds @ es) \<and> length es \<le> k \<and>
       le_value (unat base) es = unat val \<and> (if val = 0 then es = [] else es \<noteq> [] \<and> digit_value (last es) \<noteq> 0)"
proof (induction k arbitrary: val ds)
  case 0
  then have "val = 0" by (simp add: unat_eq_zero)
  then show ?case by (subst put_uint_digits.simps) simp
next
  case (Suc k)
  show ?case
  proof (cases "val = 0")
    case True
    then show ?thesis by (subst put_uint_digits.simps) simp
  next
    case False
    let ?d = "digit_char (val mod base) upper"
    have b: "2 \<le> unat base" "unat base \<le> 16" using assms by (simp_all add: word_le_nat_alt)
    have "unat (val div base) < unat base ^ k"
      using Suc.prems(1) b by (simp add: unat_div_distrib less_mult_imp_div_less mult.commute)
    moreover have "length (ds @ [?d]) + k \<le> 24" using Suc.prems by simp
    ultimately obtain es where es:
      "put_uint_digits (val div base) base upper (ds @ [?d]) = Some ((ds @ [?d]) @ es)"
      "length es \<le> k" "le_value (unat base) es = unat (val div base)"
      "if val div base = 0 then es = [] else es \<noteq> [] \<and> digit_value (last es) \<noteq> 0"
      using Suc.IH by metis
    have d: "digit_value ?d = unat val mod unat base"
    proof -
      have "unat val mod unat base < 16"
        using b mod_less_divisor [of "unat base" "unat val"] by linarith
      then have "unat (val mod base) < 16" by (simp add: unat_mod_distrib)
      then have "val mod base < 16" by (simp add: word_less_nat_alt)
      then show ?thesis by (simp only: digit_value_char unat_mod_distrib)
    qed
    have "base \<noteq> 0" using b by auto
    then have "put_uint_digits val base upper ds = Some (ds @ ?d # es)"
      using es(1) False Suc.prems(2) by (subst put_uint_digits.simps) (auto simp: word_neq_0_conv)
    moreover have "le_value (unat base) (?d # es) = unat val"
      by (simp add: d es(3) unat_div_distrib)
    moreover have "digit_value (last (?d # es)) \<noteq> 0"
    proof (cases "es = []")
      case True
      then have "unat val div unat base = 0" using es(3) by (simp add: unat_div_distrib)
      then have "unat val mod unat base = unat val" using b by (simp add: div_eq_0_iff)
      then show ?thesis using True False d by (simp add: unat_eq_zero)
    next
      case f: False
      then show ?thesis using es(4) by (auto split: if_splits)
    qed
    ultimately show ?thesis using es(2) False by (intro exI [of _ "?d # es"]) simp
  qed
qed
lemma vga_put_uint_some:
  assumes b: "base = 10 \<or> base = 16"
  shows "\<exists>ds. vga_put_uint val base width pad upper s =
      Some (fold vga_putchar (replicate (nat width - length ds) pad @ ds) s) \<and>
     le_value (unat base) (rev ds) = unat val \<and> 1 \<le> length ds \<and> length ds \<le> 20 \<and>
     (val \<noteq> 0 \<longrightarrow> digit_value (hd ds) \<noteq> 0)"
proof (cases "val = 0")
  case True
  then show ?thesis
    by (intro exI [of _ "[0x30]"]) (simp add: vga_put_uint_def fold_const_upt fold_replicate digit_value_def)
next
  case False
  have "unat val < unat base ^ 20"
    using b unat_u64_bound [of val] by auto
  from put_uint_digits_spec [OF _ _ this, of "[]" upper] b False obtain es where
    "put_uint_digits val base upper [] = Some es" "length es \<le> 20"
    "le_value (unat base) es = unat val" "es \<noteq> []" "digit_value (last es) \<noteq> 0"
    by auto
  then show ?thesis
    using False
    by (intro exI [of _ "rev es"])
      (auto simp: vga_put_uint_def fold_const_upt fold_replicate hd_rev Suc_le_eq)
qed

section \<open>The terminal as an abstract screen\<close>

definition vga_lines :: "(int \<Rightarrow> u16) \<Rightarrow> u16 list list" where
  "vga_lines b = map (\<lambda>r. map (\<lambda>c. b (int (80 * r + c))) [0..<80]) [0..<25]"

record screen =
  sc_lines :: "u16 list list"
  sc_row :: nat
  sc_col :: nat

definition screen_of :: "'a vga_st_scheme \<Rightarrow> screen" where
  "screen_of s = \<lparr>sc_lines = vga_lines (vga_buffer s), sc_row = nat (vga_row s), sc_col = nat (vga_col s)\<rparr>"

definition sc_newline :: "u8 \<Rightarrow> screen \<Rightarrow> screen" where
  "sc_newline attr t =
     (if sc_row t = 24
      then t\<lparr>sc_lines := tl (sc_lines t) @ [replicate 80 (vga_entry 0x20 attr)], sc_col := 0\<rparr>
      else t\<lparr>sc_row := sc_row t + 1, sc_col := 0\<rparr>)"

definition sc_wrap :: "u8 \<Rightarrow> screen \<Rightarrow> screen" where
  "sc_wrap attr t = (if 80 \<le> sc_col t then sc_newline attr t else t)"

definition sc_put :: "u8 \<Rightarrow> u8 \<Rightarrow> screen \<Rightarrow> screen" where
  "sc_put attr c t =
     (if c = 0x0A then sc_newline attr t
      else if c = 0x0D then t\<lparr>sc_col := 0\<rparr>
      else if c = 0x09 then sc_wrap attr (t\<lparr>sc_col := 8 * (sc_col t div 8) + 8\<rparr>)
      else if c = 0x08 then t\<lparr>sc_col := sc_col t - 1\<rparr>
      else sc_wrap attr
        (t\<lparr>sc_lines := (sc_lines t)[sc_row t := (sc_lines t ! sc_row t)[sc_col t := vga_entry c attr]],
           sc_col := sc_col t + 1\<rparr>))"

lemma length_vga_lines [simp]: "length (vga_lines b) = 25"
  by (simp add: vga_lines_def del: upt_rec_numeral)

lemma vga_lines_nth: "i < 25 \<Longrightarrow> vga_lines b ! i = map (\<lambda>c. b (int (80 * i + c))) [0..<80]"
  by (simp add: vga_lines_def del: upt_rec_numeral)

lemma vga_lines_scroll: "vga_lines (vga_buffer (vga_scroll s)) = tl (vga_lines (vga_buffer s)) @ [replicate 80 (vga_entry 0x20 (vga_color s))]"
proof (rule nth_equalityI)
  fix i assume "i < length (vga_lines (vga_buffer (vga_scroll s)))"
  then consider "i = 24" | "i < 24" by fastforce
  then show "vga_lines (vga_buffer (vga_scroll s)) ! i = (tl (vga_lines (vga_buffer s)) @ [replicate 80 (vga_entry 0x20 (vga_color s))]) ! i"
  proof cases
    case 1
    then show ?thesis
      by (auto simp: vga_lines_nth nth_append vga_scroll_buffer intro!: nth_equalityI simp del: upt_rec_numeral)
  next
    case 2
    then show ?thesis
      by (auto simp: vga_lines_nth nth_append nth_tl vga_scroll_buffer algebra_simps simp del: upt_rec_numeral)
  qed
qed simp

lemma vga_lines_update:
  assumes "r < 25" "c < 80"
  shows "vga_lines (b(int (r * 80 + c) := x)) = (vga_lines b)[r := (vga_lines b ! r)[c := x]]"
proof (rule nth_equalityI)
  fix i assume "i < length (vga_lines (b(int (r * 80 + c) := x)))"
  then have i: "i < 25" by simp
  have cell: "80 * i + j = r * 80 + c \<longleftrightarrow> i = r \<and> j = c" if "j < 80" for j
    by (cases i r rule: linorder_cases) (use that assms(2) in linarith)+
  show "vga_lines (b(int (r * 80 + c) := x)) ! i = (vga_lines b)[r := (vga_lines b ! r)[c := x]] ! i"
  proof (rule nth_equalityI)
    fix j assume "j < length (vga_lines (b(int (r * 80 + c) := x)) ! i)"
    then have j: "j < 80" using i by (simp add: vga_lines_nth del: upt_rec_numeral)
    then show "vga_lines (b(int (r * 80 + c) := x)) ! i ! j = (vga_lines b)[r := (vga_lines b ! r)[c := x]] ! i ! j"
      using i assms cell [OF j] by (auto simp: vga_lines_nth nth_list_update simp del: upt_rec_numeral of_nat_add of_nat_mult)
  qed (use i assms in \<open>simp add: vga_lines_nth nth_list_update del: upt_rec_numeral\<close>)
qed simp

lemma screen_of_newline:
  assumes "0 \<le> vga_row s" "vga_row s < 25" "0 \<le> vga_col s"
  shows "screen_of (vga_newline s) = sc_newline (vga_color s) (screen_of s)"
  using assms
  by (auto simp: screen_of_def vga_newline_def sc_newline_def Let_def vga_consts
      vga_lines_scroll nat_add_distrib)

lemma screen_of_update_cursor [simp]: "screen_of (vga_update_cursor s) = screen_of s"
  by (simp add: screen_of_def)

lemma screen_wrap:
  assumes "0 \<le> vga_row g" "vga_row g < 25" "0 \<le> vga_col g"
  shows "screen_of (if VGA_WIDTH \<le> vga_col g then vga_newline g else g) =
     sc_wrap (vga_color g) (screen_of g)"
proof -
  have "sc_col (screen_of g) = nat (vga_col g)" by (simp add: screen_of_def)
  then show ?thesis
    using assms by (simp add: screen_of_newline sc_wrap_def vga_consts)
qed

lemma screen_glyph:
  assumes "vga_ok s"
  shows "screen_of (s\<lparr>vga_buffer := (vga_buffer s)(vga_row s * 80 + vga_col s := x),
       vga_col := vga_col s + 1\<rparr>) =
    (screen_of s)\<lparr>sc_lines := (sc_lines (screen_of s))[sc_row (screen_of s) :=
       (sc_lines (screen_of s) ! sc_row (screen_of s))[sc_col (screen_of s) := x]],
       sc_col := sc_col (screen_of s) + 1\<rparr>"
proof -
  have r: "nat (vga_row s) < 25" "nat (vga_col s) < 80"
    using assms by (simp_all add: vga_ok_def nat_less_iff)
  have e: "vga_row s * 80 + vga_col s = int (nat (vga_row s) * 80 + nat (vga_col s))"
    using assms by (simp add: vga_ok_def)
  show ?thesis
    unfolding e using assms by (simp add: screen_of_def vga_ok_def vga_lines_update [OF r] nat_add_distrib del: of_nat_add of_nat_mult)
qed

lemma tab_column:
  "0 \<le> k \<Longrightarrow> nat ((k + 8) AND NOT 7) = 8 * (nat k div 8) + 8"
  unfolding and_not_7_int by (simp add: nat_eq_iff zdiv_int) presburger

lemma screen_putchar:
  assumes "vga_ok s"
  shows "screen_of (vga_putchar c s) = sc_put (vga_color s) c (screen_of s)"
proof -
  have ok: "0 \<le> vga_row s" "vga_row s < 25" "0 \<le> vga_col s" "vga_col s < 80"
    using assms by (simp_all add: vga_ok_def)
  let ?t = "s\<lparr>vga_col := (vga_col s + 8) AND NOT 7\<rparr>"
  let ?g = "s\<lparr>vga_buffer := (vga_buffer s)(vga_row s * 80 + vga_col s := vga_entry c (vga_color s)),
     vga_col := vga_col s + 1\<rparr>"
  have g: "screen_of (if VGA_WIDTH \<le> vga_col ?g then vga_newline ?g else ?g) = sc_wrap (vga_color s) (screen_of ?g)"
    using ok by (subst screen_wrap) simp_all
  have "0 \<le> (vga_col s + 8) AND NOT 7" using ok(3) unfolding and_not_7_int by presburger
  then have t: "screen_of (if VGA_WIDTH \<le> vga_col ?t then vga_newline ?t else ?t) = sc_wrap (vga_color s) (screen_of ?t)"
    using ok by (subst screen_wrap) simp_all
  have t': "screen_of ?t = (screen_of s)\<lparr>sc_col := 8 * (sc_col (screen_of s) div 8) + 8\<rparr>"
    using tab_column [OF ok(3)] by (simp add: screen_of_def)
  consider "c = 0x0A" | "c = 0x0D" | "c = 0x09" | "c = 0x08" | "c \<notin> {0x0A, 0x0D, 0x09, 0x08}" by blast
  then show ?thesis
  proof cases
    case 1
    then show ?thesis using ok by (simp add: vga_putchar_def sc_put_def screen_of_newline)
  next
    case 2
    then show ?thesis by (simp add: vga_putchar_def sc_put_def) (simp add: screen_of_def)
  next
    case 3
    then show ?thesis using t t' by (simp add: vga_putchar_def sc_put_def Let_def split: if_splits)
  next
    case 4
    then show ?thesis using ok by (simp add: vga_putchar_def sc_put_def) (simp add: screen_of_def nat_diff_distrib)
  next
    case 5
    then show ?thesis using g screen_glyph [OF assms] by (simp add: vga_putchar_def sc_put_def Let_def vga_consts)
  qed
qed

lemma vga_clear_screen: "on_screen s (vga_clear dev s)"
  by (auto simp: on_screen_def vga_clear_def Let_def vga_consts fold_fill_cells same_beyond_def vga_ok_def simp del: upt_rec_numeral)

lemma sint_u64: "sint (v :: u64) = uint v - (if bit v 63 then 2 ^ 64 else 0)"
proof -
  have "take_bit 64 (uint v) = uint v"
    using uint_lt2p [of v] by (simp add: take_bit_int_eq_self)
  then show ?thesis by (simp add: sint_uint signed_take_bit_eq_take_bit_minus bit_unsigned_iff)
qed

lemma int_unat_negate:
  assumes "(v :: u64) <s 0"
  shows "int (unat (NOT v + 1)) = - sint v"
proof -
  have n: "NOT v + 1 = - v" by (simp add: minus_eq_not_plus_1)
  have neg: "sint v < 0" using assms by (simp add: word_sless_alt)
  then have s: "sint v = uint v - 2 ^ 64"
    using sint_u64 [of v] by (simp split: if_splits)
  have nz: "uint v \<noteq> 0" using neg by (auto simp: uint_0_iff)
  have "uint (- v) = (- uint v) mod 2 ^ 64"
    by (simp add: uint_word_ariths)
  also have "\<dots> = 2 ^ 64 - uint v"
    using nz uint_lt2p [of v] by (subst zmod_zminus1_eq_if) auto
  finally show ?thesis using s n by simp
qed

lemma int_unat_nonneg:
  assumes "\<not> (v :: u64) <s 0"
  shows "int (unat v) = sint v"
  using assms uint_lt2p [of v] sint_u64 [of v] by (auto simp: word_sless_alt split: if_splits)

section \<open>Properties\<close>

definition vga_boot :: vga_st where
  "vga_boot = \<lparr>io_trace = [], vga_buffer = (\<lambda>_. 0), vga_row = 0, vga_col = 0, vga_color = 0x07\<rparr>"

lemma vga_boot_ok: "vga_ok vga_boot" by (simp add: vga_ok_def vga_boot_def)

text \<open>
  (C32) Every entry point of the terminal keeps the cursor on the 80 by 25 screen and writes no cell outside it: not in
  front of the text buffer, and not behind its 2000 cells, where a scroll or a clear that went too far would write.
\<close>

theorem vga_output_stays_in_bounds:
  assumes "vga_ok s"
  shows "\<forall>t \<in> {vga_clear dev s, vga_set_color c s, vga_putchar c s, vga_puts cs s} \<union> set_option (vga_printf fmt args s).
    vga_ok t \<and> (\<forall>x. x < 0 \<or> 2000 \<le> x \<longrightarrow> vga_buffer t x = vga_buffer s x)"
proof -
  have "on_screen s (vga_set_color c s)" using assms by (simp add: on_screen_def vga_set_color_def vga_ok_def)
  then have "\<forall>t \<in> {vga_clear dev s, vga_set_color c s, vga_putchar c s, vga_puts cs s} \<union> set_option (vga_printf fmt args s). on_screen s t"
    using vga_clear_screen [of s dev] vga_putchar_screen [OF assms] vga_puts_screen [OF assms] vga_printf_screen [OF assms] by auto
  then show ?thesis unfolding on_screen_def same_beyond_def by blast
qed

theorem vga_output_stays_in_bounds_witness:
  "vga_ok (vga_puts [0x48, 0x69, 0x0A] vga_boot) \<and> vga_buffer (vga_puts [0x48, 0x69, 0x0A] vga_boot) 2000 = 0"
  using vga_output_stays_in_bounds [OF vga_boot_ok, of _ _ "[0x48, 0x69, 0x0A]"] by (simp add: vga_boot_def del: vga_puts.simps)

text \<open>
  (C25) Refinement: on the abstract screen of 25 lines, \<^verbatim>\<open>vga_putchar\<close> does what a terminal does,
  namely newline, carriage return, tab to the next multiple of eight, backspace, and a glyph with
  wrap-around; a newline on the last line drops the first line and appends a blank one.
\<close>

theorem vga_putchar_refines_screen:
  assumes "vga_ok s"
  shows "screen_of (vga_putchar c s) = sc_put (vga_color s) c (screen_of s)"
  using assms by (rule screen_putchar)

theorem vga_putchar_refines_screen_witness:
  "screen_of (vga_putchar 0x41 vga_boot) = sc_put 0x07 0x41 (screen_of vga_boot)"
  using vga_putchar_refines_screen [OF vga_boot_ok, of "0x41"] by (simp add: vga_boot_def)

text \<open>
  After every character the CRTC cursor registers \<open>0x0E\<close> and \<open>0x0F\<close>, reached through the
  index and data ports, hold the position of \<^verbatim>\<open>vga_row\<close> and \<^verbatim>\<open>vga_col\<close>.
\<close>

lemma vga_cursor_follows_output:
  assumes "vga_ok s"
  shows "\<exists>hi lo. crtc_reg (io_trace (vga_putchar c s)) 0x0E = Some hi \<and>
     crtc_reg (io_trace (vga_putchar c s)) 0x0F = Some lo \<and>
     256 * uint hi + uint lo = vga_row (vga_putchar c s) * 80 + vga_col (vga_putchar c s)"
proof -
  obtain t where t: "vga_putchar c s = vga_update_cursor t"
    using vga_putchar_def by blast
  have "vga_ok t" using vga_putchar_ok [OF assms, of c] t by simp
  then show ?thesis
    unfolding t vga_update_cursor_frame by (intro crtc_after_update) (simp_all add: vga_ok_def)
qed

text \<open>
  \<^verbatim>\<open>vga_printf("%ld", v)\<close> prints a minus sign exactly for negative values and then the decimal
  digits of the absolute value, for every 64-bit value, the smallest one included.
\<close>

lemma vga_printf_decimal:
  "\<exists>ds. vga_printf [0x25, 0x6C, 0x64] [VInt v] s =
      Some (fold vga_putchar ((if v <s 0 then [0x2D] else []) @ ds) s) \<and>
     int (le_value 10 (rev ds)) = \<bar>sint v\<bar> \<and> 1 \<le> length ds \<and> length ds \<le> 20"
proof -
  have sc: "scan_zero [0x6C, 0x64] = (False, [0x6C, 0x64])" "scan_width 0 [0x6C, 0x64] = Some (0, [0x6C, 0x64])"
    "scan_length [0x6C, 0x64] = (True, [0x64])"
    by (simp_all add: scan_zero_def scan_length_def)
  obtain ds where "vga_put_uint (if v <s 0 then NOT v + 1 else v) 10 0 0x20 False
        (if v <s 0 then vga_putchar 0x2D s else s) =
      Some (fold vga_putchar (replicate (nat 0 - length ds) 0x20 @ ds) (if v <s 0 then vga_putchar 0x2D s else s))"
    "le_value 10 (rev ds) = unat (if v <s 0 then NOT v + 1 else v)" "1 \<le> length ds" "length ds \<le> 20"
    using vga_put_uint_some [of 10 "if v <s 0 then NOT v + 1 else v" 0 "0x20" False] by auto
  then show ?thesis
    using int_unat_negate [of v] int_unat_nonneg [of v]
    by (intro exI [of _ ds]) (auto simp: sc printf_conv_def word_sless_alt)
qed

text \<open>
  Number output: for the two bases in use \<^verbatim>\<open>vga_put_uint\<close> always returns, its 24-byte digit
  buffer never overflows, the printed digits denote the value without a leading zero, and the
  output is padded to the requested width.
\<close>

lemma vga_put_uint_prints_value:
  assumes "base = 10 \<or> base = 16"
  shows "\<exists>ds. vga_put_uint val base width pad upper s =
      Some (fold vga_putchar (replicate (nat width - length ds) pad @ ds) s) \<and>
     le_value (unat base) (rev ds) = unat val \<and> 1 \<le> length ds \<and> length ds \<le> 20 \<and>
     (val \<noteq> 0 \<longrightarrow> digit_value (hd ds) \<noteq> 0)"
  using assms by (rule vga_put_uint_some)

text \<open>
  A cell holds the character in its low byte.  Its high byte is the colour attribute only for
  characters below \<open>0x80\<close>: \<^verbatim>\<open>vga_entry\<close> widens a signed \<^verbatim>\<open>char\<close>, so a character from \<open>0x80\<close> on
  overwrites the attribute with \<open>0xFF\<close>.
\<close>

lemma vga_entry_attribute:
  "ucast (vga_entry c color) = c \<and>
   ucast (drop_bit 8 (vga_entry c color)) = (if c < 0x80 then color else 0xFF)"
  using vga_entry_char [of c color] vga_entry_ascii [of c color] vga_entry_high [of c color]
  by (simp add: mask_numeral not_less)
end
