(* ===== verification/Mb2.thy ===== *)
theory Mb2
  imports Prelude
begin

text \<open>
  The multiboot2 information parser (\<^verbatim>\<open>src/src/mb2.c\<close>, \<^verbatim>\<open>src/src/mb2.h\<close>).  The structure is read
  from byte memory.  \<^verbatim>\<open>mb2_init\<close> yields the return value (\<^const>\<open>None\<close> is \<open>-1\<close>, \<open>Some rs\<close> is
  \<open>length rs\<close> with \<^verbatim>\<open>ranges[0..count) = rs\<close>) together with what it stored through \<^verbatim>\<open>info_end\<close>.
  Nothing in the tag loop itself bounds its length once address arithmetic wraps around, so the
  loop is a partial function; its outer \<^const>\<open>None\<close> means that it never returns.
\<close>

record mb2_range_t =
  range_base :: u64
  range_length :: u64

definition MB2_MAX_RANGES :: int where "MB2_MAX_RANGES = 32"

definition mb2_align_up8 :: "u64 \<Rightarrow> u64" where
  "mb2_align_up8 x = (x + 7) AND NOT 7"

function mb2_entries ::
  "bytes \<Rightarrow> u64 \<Rightarrow> u32 \<Rightarrow> u32 \<Rightarrow> int \<Rightarrow> u64 \<Rightarrow> u64 \<Rightarrow> mb2_range_t list \<Rightarrow> mb2_range_t list option" where
  "mb2_entries m p sz entry_size max_ranges entries i rs =
     (if i < entries then
        (let e = p + 16 + i * ucast entry_size in
         if e + 24 > p + ucast sz then None
         else
           (let rbase = rd64 m e; rlen = rd64 m (e + 8); rtype = rd32 m (e + 16) in
            if rtype \<noteq> 1 then mb2_entries m p sz entry_size max_ranges entries (i + 1) rs
            else if int (length rs) \<ge> max_ranges then None
            else mb2_entries m p sz entry_size max_ranges entries (i + 1)
                   (rs @ [\<lparr>range_base = rbase, range_length = rlen\<rparr>])))
      else Some rs)"
  by pat_completeness auto
termination
  by (relation "measure (\<lambda>(m, p, sz, es, mr, n, i, rs). unat n - unat i)")
    (simp_all add: word_count_up)

declare mb2_entries.simps [simp del]

partial_function (option) mb2_tags ::
  "bytes \<Rightarrow> u64 \<Rightarrow> int \<Rightarrow> u64 \<Rightarrow> mb2_range_t list \<Rightarrow> mb2_range_t list option option" where
  "mb2_tags m iend max_ranges p rs =
     (if p + 8 \<le> iend then
        (let type = rd32 m p; sz = rd32 m (p + 4) in
         if type = 0 then Some (Some rs)
         else if sz < 8 \<or> p + ucast sz > iend then Some None
         else if type = 6 then
           (if sz < 16 then Some None
            else
              (let entry_size = rd32 m (p + 8) in
               if entry_size < 24 then Some None
               else
                 (case mb2_entries m p sz entry_size max_ranges
                         ((ucast sz - 16) div ucast entry_size) 0 rs of
                    None \<Rightarrow> Some None
                  | Some rs' \<Rightarrow> mb2_tags m iend max_ranges (mb2_align_up8 (p + ucast sz)) rs')))
         else mb2_tags m iend max_ranges (mb2_align_up8 (p + ucast sz)) rs)
      else Some (Some rs))"

definition mb2_init ::
  "bytes \<Rightarrow> u64 \<Rightarrow> bool \<Rightarrow> int \<Rightarrow> bool \<Rightarrow> (mb2_range_t list option \<times> u64 option) option" where
  "mb2_init m info_addr ranges_nonnull max_ranges info_end_nonnull =
     (if \<not> ranges_nonnull \<or> \<not> info_end_nonnull \<or> max_ranges \<le> 0 then Some (None, None)
      else
        (let total_size = rd32 m info_addr in
         if total_size = 0 \<or> total_size > 0x100000 then Some (None, None)
         else
           (let iend = info_addr + ucast total_size in
            map_option (\<lambda>r. (r, Some iend)) (mb2_tags m iend max_ranges (info_addr + 8) []))))"

section \<open>The tag loop makes progress\<close>

lemma align_up8_nat:
  assumes "unat x + 7 < 2 ^ 64"
  shows "unat (mb2_align_up8 x) = (unat x + 7) div 8 * 8"
proof -
  have "unat (x + 7) = unat x + 7" using assms by (simp add: unat_u64_add)
  then show ?thesis
    using and_not_mask_nat [of "x + 7" 3]
    by (simp add: mb2_align_up8_def mask_numeral minus_mod_eq_div_mult)
qed

lemma align_up8_bounds:
  assumes "unat x + 7 < 2 ^ 64"
  shows "unat x \<le> unat (mb2_align_up8 x)" "unat (mb2_align_up8 x) \<le> unat x + 7"
  using align_up8_nat [OF assms] by linarith+

text \<open>One tag further along the structure, with no wrap-around.\<close>

lemma next_tag:
  assumes "unat iend < 2 ^ 63" "p + 8 \<le> iend" "unat p \<le> unat iend + 7" "\<not> sz < 8" "\<not> p + ucast (sz :: u32) > iend"
  shows "unat p + 8 \<le> unat iend" "unat p + unat sz \<le> unat iend"
    "unat p + 8 \<le> unat (mb2_align_up8 (p + ucast sz))"
    "unat (mb2_align_up8 (p + ucast sz)) \<le> unat iend + 7"
proof -
  have sz: "unat (ucast sz :: u64) = unat sz" "unat sz < 2 ^ 32" "8 \<le> unat sz"
    using unat_u32_bound [of sz] assms(4) by (simp_all add: unat_ucast_u32 word_less_nat_alt)
  show "unat p + 8 \<le> unat iend"
    using assms(1-3) by (simp add: word_le_nat_alt unat_u64_add)
  have e: "unat (p + ucast sz) = unat p + unat sz"
    using assms(1,3) sz by (simp add: unat_u64_add)
  then show "unat p + unat sz \<le> unat iend"
    using assms(5) by (simp add: word_less_nat_alt)
  then have "unat (p + ucast sz) + 7 < 2 ^ 64" using e assms(1) by simp
  from align_up8_bounds [OF this] e sz
  show "unat p + 8 \<le> unat (mb2_align_up8 (p + ucast sz))"
    "unat (mb2_align_up8 (p + ucast sz)) \<le> unat iend + 7"
    using \<open>unat p + unat sz \<le> unat iend\<close> by simp_all
qed

lemma mb2_tags_returns:
  assumes "unat iend < 2 ^ 63"
  shows "unat p \<le> unat iend + 7 \<Longrightarrow> \<exists>r. mb2_tags m iend mx p rs = Some r"
proof (induction "unat iend + 8 - unat p" arbitrary: p rs rule: less_induct)
  case less
  let ?sz = "rd32 m (p + 4)"
  have step: "\<exists>r. mb2_tags m iend mx (mb2_align_up8 (p + ucast ?sz)) rs' = Some r"
    if "p + 8 \<le> iend" "\<not> ?sz < 8" "\<not> p + ucast ?sz > iend" for rs'
    using next_tag [OF assms that(1) less.prems that(2,3)] less.prems by (intro less.hyps) auto
  show ?case
    by (subst mb2_tags.simps) (auto simp: Let_def intro: step split: option.splits)
qed

section \<open>Reads stay inside\<close>

definition agree :: "bytes \<Rightarrow> bytes \<Rightarrow> nat \<Rightarrow> nat \<Rightarrow> bool" where
  "agree m m' a b \<longleftrightarrow> (\<forall>x. a \<le> unat x \<and> unat x < b \<longrightarrow> m x = m' x)"

lemma agree_mono: "agree m m' a b \<Longrightarrow> b' \<le> b \<Longrightarrow> agree m m' a b'"
  by (auto simp: agree_def)

lemma agree_byte:
  assumes "agree m m' a b" "a \<le> unat p" "unat p + unat k \<le> b" "b < 2 ^ 64" "i < k"
  shows "m (p + i) = m' (p + i)"
proof -
  have "unat i < unat k" using assms(5) by (simp add: word_less_nat_alt)
  then have "unat (p + i) = unat p + unat i" using assms(3,4) by (simp add: unat_u64_add)
  then show ?thesis using assms \<open>unat i < unat k\<close> unfolding agree_def by simp
qed

lemma agree_rd32:
  "agree m m' a b \<Longrightarrow> a \<le> unat p \<Longrightarrow> unat p + 4 \<le> b \<Longrightarrow> b < 2 ^ 64 \<Longrightarrow> rd32 m p = rd32 m' p"
  by (rule rd32_cong) (rule agree_byte [where k = 4], auto)

lemma agree_rd64:
  "agree m m' a b \<Longrightarrow> a \<le> unat p \<Longrightarrow> unat p + 8 \<le> b \<Longrightarrow> b < 2 ^ 64 \<Longrightarrow> rd64 m p = rd64 m' p"
  by (rule rd64_cong) (rule agree_byte [where k = 8], auto)

text \<open>The entry \<open>i\<close> of a memory-map tag, as a natural number, with no wrap-around.\<close>

lemma entry_addr:
  assumes "unat p + unat (sz :: u32) < 2 ^ 63" "16 \<le> sz" "i < (ucast sz - 16) div (ucast (es :: u32) :: u64)"
    "24 \<le> es"
  shows "unat (p + 16 + i * ucast es) = unat p + 16 + unat i * unat es"
    "unat p + 16 + (unat i + 1) * unat es \<le> unat p + unat sz"
    "\<not> p + 16 + i * ucast es + 24 > p + ucast sz"
proof -
  have u: "unat (ucast sz :: u64) = unat sz" "unat (ucast es :: u64) = unat es" "24 \<le> unat es" "16 \<le> unat sz"
    using assms by (simp_all add: unat_ucast_u32 word_le_nat_alt)
  have "unat i < (unat sz - 16) div unat es"
    using assms u by (simp add: word_less_nat_alt unat_div_distrib unat_sub word_le_nat_alt)
  then have "(unat i + 1) * unat es \<le> unat sz - 16"
    using u(3) by (metis Suc_eq_plus1 Suc_leI div_times_less_eq_dividend le_trans mult_le_mono1)
  then have b: "unat i * unat es + unat es + 16 \<le> unat sz" using u by simp
  show 2: "unat p + 16 + (unat i + 1) * unat es \<le> unat p + unat sz" using b by simp
  have "unat (i * ucast es) = unat i * unat es"
    using b assms(1) u by (subst unat_mult_lem [THEN iffD1]) auto
  then show 1: "unat (p + 16 + i * ucast es) = unat p + 16 + unat i * unat es"
    using b assms(1) by (simp add: unat_u64_add)
  have "unat ((p + 16 + i * ucast es) + 24) = unat p + 40 + unat i * unat es"
    using 1 b assms(1) by (subst unat_u64_add) simp_all
  moreover have "unat (p + ucast sz) = unat p + unat sz"
    using u assms(1) by (simp add: unat_u64_add)
  ultimately show "\<not> p + 16 + i * ucast es + 24 > p + ucast sz"
    using b u(3) by (simp only: word_less_nat_alt)
qed

lemma mb2_entries_agree:
  assumes ag: "agree m m' a b" and p: "a \<le> unat p" "unat p + unat sz \<le> b" "b < 2 ^ 63"
    and s: "16 \<le> sz" "24 \<le> es" and n: "n = (ucast sz - 16) div ucast es"
  shows "mb2_entries m p sz es mx n i rs = mb2_entries m' p sz es mx n i rs"
proof (induction "unat n - unat i" arbitrary: i rs rule: less_induct)
  case less
  show ?case
  proof (cases "i < n")
    case True
    let ?e = "p + 16 + i * ucast es"
    have e: "unat ?e = unat p + 16 + unat i * unat es"
      "unat p + 16 + (unat i + 1) * unat es \<le> unat p + unat sz"
      using entry_addr [of p sz i es] p s True n by simp_all
    have le: "24 \<le> unat es" using s by (simp add: word_le_nat_alt)
    have b: "unat ?e + 24 \<le> b" "a \<le> unat ?e"
      using e p le by (auto simp: algebra_simps)
    have o: "unat (?e + 8) = unat ?e + 8" "unat (?e + 16) = unat ?e + 16"
      using b p by (subst unat_u64_add; simp)+
    have "rd64 m ?e = rd64 m' ?e" "rd64 m (?e + 8) = rd64 m' (?e + 8)"
      "rd32 m (?e + 16) = rd32 m' (?e + 16)"
      using b p o by (auto intro!: agree_rd64 [OF ag] agree_rd32 [OF ag])
    moreover have "mb2_entries m p sz es mx n (i + 1) rs' = mb2_entries m' p sz es mx n (i + 1) rs'"
      for rs'
      by (rule less) (rule word_count_up [OF True])
    ultimately show ?thesis
      by (simp only: mb2_entries.simps [of m p sz es mx n i] mb2_entries.simps [of m' p sz es mx n i] Let_def)
  next
    case False
    then show ?thesis by (simp add: mb2_entries.simps)
  qed
qed

lemma mb2_tags_agree:
  assumes ag: "agree m m' a (unat iend)" and iend: "unat iend < 2 ^ 63"
  shows "a \<le> unat p \<Longrightarrow> unat p \<le> unat iend + 7 \<Longrightarrow> mb2_tags m iend mx p rs = mb2_tags m' iend mx p rs"
proof (induction "unat iend + 8 - unat p" arbitrary: p rs rule: less_induct)
  case less
  show ?case
  proof (cases "p + 8 \<le> iend")
    case True
    let ?sz = "rd32 m (p + 4)"
    have p8: "unat p + 8 \<le> unat iend"
      using True less.prems iend by (simp add: word_le_nat_alt unat_u64_add)
    have p4: "unat (p + 4) = unat p + 4" using p8 iend by (subst unat_u64_add) simp_all
    have r: "rd32 m p = rd32 m' p" "?sz = rd32 m' (p + 4)"
      using p8 p4 less.prems iend by (auto intro!: agree_rd32 [OF ag])
    show ?thesis
    proof (cases "?sz < 8 \<or> p + ucast ?sz > iend")
      case f: False
      note nt = next_tag [OF iend True less.prems(2), of ?sz]
      have rec: "mb2_tags m iend mx (mb2_align_up8 (p + ucast ?sz)) rs' =
          mb2_tags m' iend mx (mb2_align_up8 (p + ucast ?sz)) rs'" for rs'
        using nt f less.prems by (intro less.hyps) auto
      have mm: "rd32 m (p + 8) = rd32 m' (p + 8)" if "\<not> ?sz < 16"
      proof -
        have "16 \<le> unat ?sz" using that by (simp add: word_less_nat_alt)
        then have "unat p + 16 \<le> unat iend" using nt(2) f by simp
        moreover from this have "unat (p + 8) = unat p + 8" using iend by (subst unat_u64_add) simp_all
        ultimately show ?thesis using less.prems iend by (auto intro!: agree_rd32 [OF ag])
      qed
      have en: "mb2_entries m p ?sz es mx ((ucast ?sz - 16) div ucast es) 0 rs =
          mb2_entries m' p ?sz es mx ((ucast ?sz - 16) div ucast es) 0 rs"
        if "\<not> ?sz < 16" "\<not> es < 24" for es
        using that less.prems nt(2) f iend by (intro mb2_entries_agree [OF ag]) auto
      show ?thesis
        by (subst (1 2) mb2_tags.simps) (auto simp: Let_def rec mm en r(1) simp flip: r(2) split: option.splits)
    qed (subst (1 2) mb2_tags.simps, simp add: Let_def r(1) flip: r(2))
  qed (subst (1 2) mb2_tags.simps, simp)
qed

section \<open>The format\<close>

datatype mb2_tag = MmapTag u32 "(mb2_range_t \<times> u32) list" | OtherTag u32 u32

fun tag_size :: "mb2_tag \<Rightarrow> nat" where
  "tag_size (MmapTag es xs) = 16 + length xs * unat es"
| "tag_size (OtherTag ty sz) = unat sz"

fun entry_at :: "bytes \<Rightarrow> u64 \<Rightarrow> mb2_range_t \<times> u32 \<Rightarrow> bool" where
  "entry_at m e (r, t) \<longleftrightarrow>
     rd64 m e = range_base r \<and> rd64 m (e + 8) = range_length r \<and> rd32 m (e + 16) = t"

fun tag_at :: "bytes \<Rightarrow> u64 \<Rightarrow> mb2_tag \<Rightarrow> bool" where
  "tag_at m p (OtherTag ty sz) \<longleftrightarrow>
     rd32 m p = ty \<and> rd32 m (p + 4) = sz \<and> ty \<noteq> 0 \<and> ty \<noteq> 6 \<and> 8 \<le> sz"
| "tag_at m p (MmapTag es xs) \<longleftrightarrow>
     rd32 m p = 6 \<and> unat (rd32 m (p + 4)) = 16 + length xs * unat es \<and> rd32 m (p + 8) = es \<and> 24 \<le> es \<and>
     (\<forall>i < length xs. entry_at m (p + 16 + of_nat i * ucast es) (xs ! i))"

fun tags_at :: "bytes \<Rightarrow> u64 \<Rightarrow> u64 \<Rightarrow> mb2_tag list \<Rightarrow> bool" where
  "tags_at m iend p [] \<longleftrightarrow> unat iend < unat p + 8 \<or> rd32 m p = 0"
| "tags_at m iend p (t # ts) \<longleftrightarrow>
     unat p + tag_size t \<le> unat iend \<and> tag_at m p t \<and>
     tags_at m iend (mb2_align_up8 (p + of_nat (tag_size t))) ts"

definition usable :: "(mb2_range_t \<times> u32) list \<Rightarrow> mb2_range_t list" where
  "usable xs = map fst (filter (\<lambda>(r, t). t = 1) xs)"

fun tag_usable :: "mb2_tag \<Rightarrow> mb2_range_t list" where
  "tag_usable (MmapTag es xs) = usable xs"
| "tag_usable (OtherTag ty sz) = []"

definition usable_ranges :: "mb2_tag list \<Rightarrow> mb2_range_t list" where
  "usable_ranges ts = concat (map tag_usable ts)"

text \<open>The structure is described by its own bytes.\<close>

lemma tag_at_agree:
  assumes ag: "agree m m' lo hi" and p: "lo \<le> unat p" "unat p + tag_size t \<le> hi" "hi < 2 ^ 62" and t: "tag_at m p t"
  shows "tag_at m' p t"
proof -
  have s: "8 \<le> tag_size t" using t by (cases t) (auto simp: word_le_nat_alt)
  have u: "unat (p + k) = unat p + unat k" if "unat k \<le> tag_size t" for k using that p by (subst unat_u64_add) simp_all
  have r4: "rd32 m' (p + k) = rd32 m (p + k)" if "unat k + 4 \<le> tag_size t" for k
    by (rule agree_rd32 [OF ag, symmetric]) (use that u [of k] p in simp_all)
  have r8: "rd64 m' (p + k) = rd64 m (p + k)" if "unat k + 8 \<le> tag_size t" for k
    by (rule agree_rd64 [OF ag, symmetric]) (use that u [of k] p in simp_all)
  note r = r4 [of 0, simplified] r4 [of 4, simplified] r4 [of 8, simplified]
  show ?thesis
  proof (cases t)
    case (OtherTag ty sz)
    then show ?thesis using t r s by simp
  next
    case (MmapTag es xs)
    have en: "entry_at m' (p + 16 + of_nat i * ucast es) (xs ! i)" if i: "i < length xs" for i
    proof -
      obtain rg ty where x: "xs ! i = (rg, ty)" by force
      have "i * unat es + 24 \<le> length xs * unat es"
      proof -
        have "24 \<le> unat es" using t MmapTag by (simp add: word_le_nat_alt)
        then have "i * unat es + 24 \<le> Suc i * unat es" by simp
        also have "\<dots> \<le> length xs * unat es" using i by (intro mult_le_mono1) simp
        finally show ?thesis .
      qed
      then have fit: "16 + i * unat es + 24 \<le> tag_size t" by (simp add: MmapTag)
      have "unat es < 2 ^ 64" using unat_u32_bound [of es] by simp
      then have "(ucast es :: u64) = of_nat (unat es)" by (simp add: word_unat_eq_iff unat_ucast_u32 unat_of_nat_u64)
      then have e: "of_nat i * ucast es = (of_nat (i * unat es) :: u64)" by simp
      have "i * unat es < 2 ^ 64" using fit p by simp
      then have "unat (of_nat i * ucast es :: u64) = i * unat es" unfolding e by (rule unat_of_nat_u64)
      then have "unat (16 + of_nat i * ucast es :: u64) = 16 + i * unat es"
        using fit p by (subst unat_u64_add) simp_all
      then have k: "unat (16 + of_nat i * ucast es + j :: u64) = 16 + i * unat es + unat j" if "unat j \<le> 24" for j
        using fit p that by (subst unat_u64_add) simp_all
      have "entry_at m (p + 16 + of_nat i * ucast es) (xs ! i)" using t MmapTag i by simp
      then show ?thesis
        using r8 [of "16 + of_nat i * ucast es"] r8 [of "16 + of_nat i * ucast es + 8"] r4 [of "16 + of_nat i * ucast es + 16"]
          k [of 0] k [of 8] k [of 16] fit by (simp add: x add.assoc)
    qed
    have "16 \<le> tag_size t" by (simp add: MmapTag)
    then show ?thesis using t r en by (simp add: MmapTag)
  qed
qed

lemma tags_at_agree:
  "tags_at m iend p ts \<Longrightarrow> agree m m' lo (unat iend) \<Longrightarrow> lo \<le> unat p \<Longrightarrow> unat iend < 2 ^ 62 \<Longrightarrow> tags_at m' iend p ts"
proof (induction ts arbitrary: p)
  case Nil
  show ?case
  proof (cases "unat iend < unat p + 8")
    case False
    then have "rd32 m' p = rd32 m p" using Nil by (intro agree_rd32 [OF Nil(2), symmetric]) simp_all
    then show ?thesis using Nil(1) False by simp
  qed simp
next
  case (Cons t ts)
  have f: "unat p + tag_size t \<le> unat iend" "tag_at m p t" using Cons.prems(1) by simp_all
  have "unat (of_nat (tag_size t) :: u64) = tag_size t" using f(1) Cons.prems(4) by (intro unat_of_nat_u64) simp
  then have u: "unat (p + of_nat (tag_size t)) = unat p + tag_size t" using f(1) Cons.prems(4) by (subst unat_u64_add) simp_all
  have "unat p \<le> unat (mb2_align_up8 (p + of_nat (tag_size t)))"
    using align_up8_bounds(1) [of "p + of_nat (tag_size t)"] u f(1) Cons.prems(4) by simp
  then have "tags_at m' iend (mb2_align_up8 (p + of_nat (tag_size t))) ts"
    using Cons.prems by (intro Cons.IH) simp_all
  then show ?case using f tag_at_agree [OF Cons.prems(2) Cons.prems(3) f(1) Cons.prems(4) f(2)] by simp
qed

lemma tag_at_entry:
  assumes "tag_at m p (MmapTag es xs)" "i < length xs" "xs ! i = (r, t)"
  shows "rd64 m (p + 16 + of_nat i * ucast es) = range_base r"
    "rd64 m (p + 16 + of_nat i * ucast es + 8) = range_length r"
    "rd32 m (p + 16 + of_nat i * ucast es + 16) = t"
proof -
  have "entry_at m (p + 16 + of_nat i * ucast es) (xs ! i)" using assms(1,2) by simp
  then show "rd64 m (p + 16 + of_nat i * ucast es) = range_base r"
    "rd64 m (p + 16 + of_nat i * ucast es + 8) = range_length r"
    "rd32 m (p + 16 + of_nat i * ucast es + 16) = t"
    unfolding assms(3) by simp_all
qed

lemma mb2_range_eta: "\<lparr>range_base = range_base r, range_length = range_length r\<rparr> = r"
  for r :: mb2_range_t
  by simp

lemma mmap_entry_count:
  assumes tag: "tag_at m p (MmapTag es xs)"
  shows "unat ((ucast (rd32 m (p + 4)) - 16) div ucast es :: u64) = length xs"
proof -
  let ?sz = "rd32 m (p + 4)"
  note u = unat_ucast_u32 [of ?sz] unat_ucast_u32 [of es]
  have e: "24 \<le> unat es" "unat ?sz = 16 + length xs * unat es"
    using tag by (simp_all add: word_le_nat_alt)
  then have "unat (ucast ?sz - 16 :: u64) = length xs * unat es"
    using u by (subst unat_sub) (simp_all add: word_le_nat_alt)
  then show ?thesis using u e by (simp add: unat_div_distrib)
qed

lemma mb2_entries_usable:
  assumes tag: "tag_at m p (MmapTag es xs)" and sz: "sz = rd32 m (p + 4)"
    and b: "unat p + unat sz < 2 ^ 63" and n: "n = (ucast sz - 16) div ucast es"
  shows "i \<le> length xs \<Longrightarrow> int (length rs) \<le> mx \<Longrightarrow>
    mb2_entries m p sz es mx n (of_nat i) rs =
      (if int (length rs + length (usable (drop i xs))) \<le> mx then Some (rs @ usable (drop i xs)) else None)"
proof (induction "length xs - i" arbitrary: i rs)
  case 0
  have nx: "unat n = length xs" using mmap_entry_count [OF tag] n sz by simp
  then have "\<not> of_nat i < n"
    using 0 unat_u64_bound [of n] by (simp add: word_less_nat_alt unat_of_nat_u64)
  then show ?case using 0 by (simp add: mb2_entries.simps usable_def)
next
  case (Suc k)
  have nx: "unat n = length xs" using mmap_entry_count [OF tag] n sz by simp
  from Suc.hyps(2) have il: "i < length xs" by simp
  have ui: "unat (of_nat i :: u64) = i"
    using il nx unat_u64_bound [of n] by (simp add: unat_of_nat_u64)
  then have lt: "of_nat i < n" using il nx by (simp add: word_less_nat_alt)
  have s16: "16 \<le> sz" and e24: "24 \<le> es" using tag sz by (simp_all add: word_le_nat_alt)
  obtain r t where rt: "xs ! i = (r, t)" by fastforce
  have dr: "drop i xs = (r, t) # drop (Suc i) xs" using il rt by (metis Cons_nth_drop_Suc)
  have inb: "\<not> p + 16 + of_nat i * ucast es + 24 > p + ucast sz"
    using entry_addr(3) [OF b s16 lt [unfolded n] e24] .
  have suc: "(of_nat i :: u64) + 1 = of_nat (Suc i)" by simp
  note IH = Suc.hyps(1) [of "Suc i"]
  note rd = tag_at_entry [OF tag il rt]
  show ?case
  proof (cases "t = 1")
    case False
    then show ?thesis
      using IH Suc.prems Suc.hyps(2) lt inb rd
      by (subst mb2_entries.simps) (simp add: Let_def suc dr usable_def del: of_nat_Suc)
  next
    case True
    then show ?thesis
      using IH [of "rs @ [r]"] Suc.prems Suc.hyps(2) lt inb rd
      by (subst mb2_entries.simps) (auto simp add: Let_def suc dr usable_def mb2_range_eta simp del: of_nat_Suc)
  qed
qed

lemma tag_size_sz:
  assumes "tag_at m p t"
  shows "of_nat (tag_size t) = (ucast (rd32 m (p + 4)) :: u64)" "unat (rd32 m (p + 4)) = tag_size t"
    "8 \<le> rd32 m (p + 4)"
proof -
  show 1: "unat (rd32 m (p + 4)) = tag_size t" using assms by (cases t) auto
  then show "of_nat (tag_size t) = (ucast (rd32 m (p + 4)) :: u64)"
    using unat_u32_bound [of "rd32 m (p + 4)"]
    by (simp add: word_unat_eq_iff unat_of_nat_u64 unat_ucast_u32)
  show "8 \<le> rd32 m (p + 4)" using assms 1 by (cases t) (auto simp: word_le_nat_alt)
qed

lemma mb2_tags_usable:
  assumes iend: "unat iend < 2 ^ 62"
  shows "tags_at m iend p ts \<Longrightarrow> unat p \<le> unat iend + 8 \<Longrightarrow> int (length rs) \<le> mx \<Longrightarrow>
    mb2_tags m iend mx p rs =
      Some (if int (length rs + length (usable_ranges ts)) \<le> mx then Some (rs @ usable_ranges ts) else None)"
proof (induction ts arbitrary: p rs)
  case Nil
  then have "p + 8 \<le> iend \<Longrightarrow> rd32 m p = 0"
    using iend by (auto simp: word_le_nat_alt unat_u64_add)
  then show ?case using Nil by (subst mb2_tags.simps) (simp add: Let_def usable_ranges_def)
next
  case (Cons t ts)
  let ?sz = "rd32 m (p + 4)"
  from Cons.prems have tag: "tag_at m p t" and fit: "unat p + tag_size t \<le> unat iend"
    by simp_all
  note sz = tag_size_sz [OF tag]
  have rest: "tags_at m iend (mb2_align_up8 (p + ucast ?sz)) ts"
    using Cons.prems(1) by (simp add: sz(1))
  have usz: "unat (p + ucast ?sz) = unat p + unat ?sz"
    using fit sz(2) iend by (simp add: unat_u64_add unat_ucast_u32)
  have p8: "p + 8 \<le> iend" "8 \<le> unat ?sz"
    using fit sz(2,3) iend by (simp_all add: word_le_nat_alt unat_u64_add)
  have g: "\<not> ?sz < 8" "\<not> p + ucast ?sz > iend"
    using sz(3) fit sz(2) usz by (simp_all add: word_less_nat_alt word_le_nat_alt not_less)
  have pn: "unat (mb2_align_up8 (p + ucast ?sz)) \<le> unat iend + 8"
    using next_tag(4) [OF _ p8(1) _ g] fit iend by simp
  note IH = Cons.IH [OF rest pn]
  show ?case
  proof (cases t)
    case (OtherTag ty z)
    then show ?thesis
      using IH [OF Cons.prems(3)] tag p8 g
      by (subst mb2_tags.simps) (simp add: Let_def usable_ranges_def)
  next
    case (MmapTag es xs)
    have s16: "\<not> ?sz < 16" "rd32 m p = 6" "rd32 m (p + 8) = es" "\<not> es < 24"
      using tag MmapTag by (simp_all add: word_less_nat_alt word_le_nat_alt not_less)
    have en: "mb2_entries m p ?sz es mx ((ucast ?sz - 16) div ucast es) 0 rs =
        (if int (length rs + length (usable xs)) \<le> mx then Some (rs @ usable xs) else None)"
      using mb2_entries_usable [of m p es xs ?sz, where i = 0] tag MmapTag fit sz(2) iend Cons.prems(3) by simp
    show ?thesis
      using IH [of "rs @ usable xs"] en p8 g s16 MmapTag
      by (subst mb2_tags.simps) (auto simp: Let_def usable_ranges_def)
  qed
qed

section \<open>Properties\<close>

text \<open>A structure of 64 bytes at \<open>0x9000\<close>: a foreign tag, then a memory map with one usable range.\<close>

definition demo_info :: bytes where
  "demo_info x =
     (let k = unat (x - 0x9000);
          bs = [64,0,0,0, 0,0,0,0,  1,0,0,0, 8,0,0,0,  6,0,0,0, 40,0,0,0, 24,0,0,0, 0,0,0,0,
                0,0,16,0, 0,0,0,0,  0,0,16,0, 0,0,0,0,  1,0,0,0, 0,0,0,0,  0,0,0,0, 8,0,0,0]
      in if k < 64 then bs ! k else 0)"

definition demo_range :: mb2_range_t where
  "demo_range = \<lparr>range_base = 0x100000, range_length = 0x100000\<rparr>"

text \<open>
  (C34) Termination: for a structure that ends below the 1GB limit that \<^verbatim>\<open>pmm_init\<close> enforces before
  it calls the parser, \<^verbatim>\<open>mb2_init\<close> returns, whatever the structure holds.
\<close>

theorem mb2_init_returns:
  assumes "unat info_addr + unat (rd32 m info_addr) \<le> 2 ^ 30"
  shows "\<exists>r. mb2_init m info_addr rp max_ranges ep = Some r"
proof -
  have "unat (info_addr + ucast (rd32 m info_addr)) = unat info_addr + unat (rd32 m info_addr)"
    using assms by (simp add: unat_u64_add unat_ucast_u32)
  moreover have "unat (info_addr + 8) = unat info_addr + 8"
    using assms by (subst unat_u64_add) simp_all
  ultimately have "\<exists>r. mb2_tags m (info_addr + ucast (rd32 m info_addr)) max_ranges (info_addr + 8) [] = Some r"
    if "rd32 m info_addr \<noteq> 0"
    using assms that by (intro mb2_tags_returns) (simp_all add: unat_eq_zero [symmetric] Suc_leI)
  then show ?thesis by (auto simp: mb2_init_def Let_def)
qed

theorem mb2_init_returns_witness:
  "\<exists>r. mb2_init demo_info 0x9000 True 32 True = Some r"
proof -
  have "rd32 demo_info 0x9000 = 64" by (simp add: rd32_def demo_info_def)
  then show ?thesis using mb2_init_returns [of "0x9000" demo_info] by simp
qed

lemma mb2_init_agree:
  assumes "unat info_addr + unat (rd32 m info_addr) \<le> 2 ^ 30"
    and "agree m m' (unat info_addr) (unat info_addr + max 4 (unat (rd32 m info_addr)))"
  shows "mb2_init m info_addr rp max_ranges ep = mb2_init m' info_addr rp max_ranges ep"
proof -
  let ?t = "rd32 m info_addr"
  have t: "?t = rd32 m' info_addr"
    using assms by (intro agree_rd32 [OF assms(2)]) simp_all
  have e: "unat (info_addr + ucast ?t) = unat info_addr + unat ?t"
    using assms by (simp add: unat_u64_add unat_ucast_u32)
  have p: "unat (info_addr + 8) = unat info_addr + 8"
    using assms by (subst unat_u64_add) simp_all
  have "agree m m' (unat info_addr) (unat (info_addr + ucast ?t))"
    using agree_mono [OF assms(2)] e by simp
  then have "mb2_tags m (info_addr + ucast ?t) max_ranges (info_addr + 8) [] =
      mb2_tags m' (info_addr + ucast ?t) max_ranges (info_addr + 8) []" if "?t \<noteq> 0"
    by (rule mb2_tags_agree)
      (use assms that p e in \<open>simp_all add: unat_eq_zero [symmetric] Suc_leI\<close>)
  then show ?thesis by (auto simp: mb2_init_def Let_def simp flip: t)
qed

text \<open>
  (C26) Memory safety of the parser: the result of \<^verbatim>\<open>mb2_init\<close> is determined by the bytes
  \<open>[info_addr, info_addr + total_size)\<close> (and the four bytes of \<^verbatim>\<open>total_size\<close> itself).  Changing
  any other byte of memory changes nothing, so no read leaves the structure, however its sizes
  and counts are chosen.
\<close>

theorem mb2_init_reads_in_bounds:
  assumes "unat info_addr + unat (rd32 m info_addr) \<le> 2 ^ 30"
    and "agree m m' (unat info_addr) (unat info_addr + max 4 (unat (rd32 m info_addr)))"
  shows "mb2_init m info_addr rp max_ranges ep = mb2_init m' info_addr rp max_ranges ep"
  using assms by (rule mb2_init_agree)

theorem mb2_init_reads_in_bounds_witness:
  "mb2_init demo_info 0x9000 True 32 True = mb2_init (demo_info(0x9040 := 7)) 0x9000 True 32 True"
proof -
  have t: "rd32 demo_info 0x9000 = 64" by (simp add: rd32_def demo_info_def)
  then show ?thesis
    by (intro mb2_init_reads_in_bounds) (auto simp: agree_def)
qed

lemma mb2_init_usable:
  assumes "unat info_addr + unat (rd32 m info_addr) \<le> 2 ^ 30"
    and "0 < rd32 m info_addr" and "rd32 m info_addr \<le> 0x100000"
    and "tags_at m (info_addr + ucast (rd32 m info_addr)) (info_addr + 8) ts" and "0 < max_ranges"
  shows "mb2_init m info_addr True max_ranges True =
    Some (if int (length (usable_ranges ts)) \<le> max_ranges then Some (usable_ranges ts) else None,
          Some (info_addr + ucast (rd32 m info_addr)))"
proof -
  let ?e = "info_addr + ucast (rd32 m info_addr)"
  have e: "unat ?e = unat info_addr + unat (rd32 m info_addr)"
    using assms by (simp add: unat_u64_add unat_ucast_u32)
  have p: "unat (info_addr + 8) = unat info_addr + 8"
    using assms by (subst unat_u64_add) simp_all
  have "mb2_tags m ?e max_ranges (info_addr + 8) [] =
    Some (if int (length (usable_ranges ts)) \<le> max_ranges then Some (usable_ranges ts) else None)"
    using mb2_tags_usable [OF _ assms(4), of "[]" max_ranges] e p assms by simp
  then show ?thesis using assms(2,3,5) by (simp add: mb2_init_def Let_def word_neq_0_conv not_less)
qed

text \<open>
  (C17) Functional correctness: on a structure that holds the tags \<^verbatim>\<open>ts\<close> in the multiboot2 layout,
  \<^verbatim>\<open>mb2_init\<close> returns exactly the ranges of type 1 of all memory-map tags, in order, if they fit the
  caller's array, and fails (rather than dropping a range) if they do not; \<^verbatim>\<open>info_end\<close> receives the
  end of the structure.
\<close>

theorem mb2_init_finds_usable_ranges:
  assumes "unat info_addr + unat (rd32 m info_addr) \<le> 2 ^ 30"
    and "0 < rd32 m info_addr" and "rd32 m info_addr \<le> 0x100000"
    and "tags_at m (info_addr + ucast (rd32 m info_addr)) (info_addr + 8) ts" and "0 < max_ranges"
  shows "mb2_init m info_addr True max_ranges True =
    Some (if int (length (usable_ranges ts)) \<le> max_ranges then Some (usable_ranges ts) else None,
          Some (info_addr + ucast (rd32 m info_addr)))"
  using assms by (rule mb2_init_usable)

theorem mb2_init_finds_usable_ranges_witness:
  "mb2_init demo_info 0x9000 True MB2_MAX_RANGES True = Some (Some [demo_range], Some 0x9040)"
proof -
  have t: "rd32 demo_info 0x9000 = 64" by (simp add: rd32_def demo_info_def)
  have r: "rd32 demo_info 0x9008 = 1" "rd32 demo_info 0x900C = 8" "rd32 demo_info 0x9010 = 6"
    "rd32 demo_info 0x9014 = 40" "rd32 demo_info 0x9018 = 24" "rd32 demo_info 0x9038 = 0"
    "rd64 demo_info 0x9020 = 0x100000" "rd64 demo_info 0x9028 = 0x100000" "rd32 demo_info 0x9030 = 1"
    by (simp_all add: rd32_def rd64_def demo_info_def)
  have "tags_at demo_info 0x9040 0x9008 [OtherTag 1 8, MmapTag 24 [(demo_range, 1)]]"
    using r by (simp add: mb2_align_up8_def demo_range_def)
  moreover have "usable_ranges [OtherTag 1 8, MmapTag 24 [(demo_range, 1)]] = [demo_range]"
    by (simp add: usable_ranges_def usable_def)
  ultimately show ?thesis
    using mb2_init_finds_usable_ranges [of "0x9000" demo_info "[OtherTag 1 8, MmapTag 24 [(demo_range, 1)]]" 32] t
    by (simp add: MB2_MAX_RANGES_def)
qed

end
