(* ===== verification/Pmm.thy ===== *)
theory Pmm
  imports Mb2
begin

text \<open>
  The physical frame allocator (\<^verbatim>\<open>src/src/pmm.c\<close>, \<^verbatim>\<open>src/src/pmm.h\<close>): the bitmap, its initialisation
  from the memory map, allocation and release.  The record \<^verbatim>\<open>pmm_st\<close> holds the static variables of
  the file.  A set bit is a frame that is not available.  The identity map and \<^verbatim>\<open>pmm_init\<close> are in
  theory \<^verbatim>\<open>Pmm_Boot\<close>.  The address loops of \<^verbatim>\<open>pmm_mark_free\<close> and \<^verbatim>\<open>pmm_mark_used\<close> run below the 1GB
  limit that both functions clip to, so their counter is a natural number.
\<close>

definition PMM_FRAME_SIZE :: u64 where "PMM_FRAME_SIZE = 4096"
definition PMM_MAX_PHYS :: u64 where "PMM_MAX_PHYS = 0x40000000"
definition PMM_FRAME_COUNT :: u64 where "PMM_FRAME_COUNT = PMM_MAX_PHYS div PMM_FRAME_SIZE"
definition PMM_BITMAP_BYTES :: u64 where "PMM_BITMAP_BYTES = PMM_FRAME_COUNT div 8"
definition PMM_LOW_RESERVED :: u64 where "PMM_LOW_RESERVED = 0x100000"

record pmm_st =
  pmm_bitmap :: "u8 list"
  pmm_free_frames :: u64
  pmm_hint :: u64
  pmm_mb_info :: u64
  pmm_info_end :: u64
  pmm_max_end :: u64

definition pmm_align_up_4k :: "u64 \<Rightarrow> u64" where
  "pmm_align_up_4k x = (x + PMM_FRAME_SIZE - 1) AND NOT (PMM_FRAME_SIZE - 1)"

definition pmm_bit_test :: "u64 \<Rightarrow> pmm_st \<Rightarrow> bool" where
  "pmm_bit_test frame s =
     ((drop_bit (unat (frame AND 7)) (pmm_bitmap s ! unat (drop_bit 3 frame)) AND 1) \<noteq> 0)"

definition pmm_bit_set :: "u64 \<Rightarrow> pmm_st \<Rightarrow> pmm_st" where
  "pmm_bit_set frame s =
     (let i = unat (drop_bit 3 frame) in
      s\<lparr>pmm_bitmap := (pmm_bitmap s)[i := pmm_bitmap s ! i OR push_bit (unat (frame AND 7)) 1]\<rparr>)"

definition pmm_bit_clear :: "u64 \<Rightarrow> pmm_st \<Rightarrow> pmm_st" where
  "pmm_bit_clear frame s =
     (let i = unat (drop_bit 3 frame) in
      s\<lparr>pmm_bitmap := (pmm_bitmap s)[i := pmm_bitmap s ! i AND NOT (push_bit (unat (frame AND 7)) 1)]\<rparr>)"

function pmm_mark_loop :: "(u64 \<Rightarrow> pmm_st \<Rightarrow> pmm_st) \<Rightarrow> nat \<Rightarrow> nat \<Rightarrow> pmm_st \<Rightarrow> pmm_st" where
  "pmm_mark_loop mark pa last1 s =
     (if pa < last1
      then pmm_mark_loop mark (pa + unat PMM_FRAME_SIZE) last1
             (mark (of_nat (pa div unat PMM_FRAME_SIZE)) s)
      else s)"
  by pat_completeness auto
termination
  by (relation "measure (\<lambda>(mark, pa, last1, s). last1 - pa)") (auto simp: PMM_FRAME_SIZE_def)

declare pmm_mark_loop.simps [simp del]

definition pmm_clip_end :: "u64 \<Rightarrow> u64 \<Rightarrow> u64" where
  "pmm_clip_end base len =
     (let end1 = base + len in if end1 < base \<or> end1 > PMM_MAX_PHYS then PMM_MAX_PHYS else end1)"

definition pmm_mark_free :: "u64 \<Rightarrow> u64 \<Rightarrow> pmm_st \<Rightarrow> pmm_st" where
  "pmm_mark_free base len s =
     (if len = 0 \<or> base \<ge> PMM_MAX_PHYS then s
      else
        (let end1 = pmm_clip_end base len;
             first = pmm_align_up_4k base;
             last1 = end1 AND NOT (PMM_FRAME_SIZE - 1)
         in pmm_mark_loop pmm_bit_clear (unat first) (unat last1) s))"

definition pmm_mark_used :: "u64 \<Rightarrow> u64 \<Rightarrow> pmm_st \<Rightarrow> pmm_st" where
  "pmm_mark_used base len s =
     (if len = 0 \<or> base \<ge> PMM_MAX_PHYS then s
      else
        (let end1 = pmm_clip_end base len;
             first = base AND NOT (PMM_FRAME_SIZE - 1);
             last0 = pmm_align_up_4k end1;
             last1 = (if last0 > PMM_MAX_PHYS then PMM_MAX_PHYS else last0)
         in pmm_mark_loop pmm_bit_set (unat first) (unat last1) s))"

function pmm_count_loop :: "u64 \<Rightarrow> pmm_st \<Rightarrow> pmm_st" where
  "pmm_count_loop frame s =
     (if frame < PMM_FRAME_COUNT
      then pmm_count_loop (frame + 1)
             (if \<not> pmm_bit_test frame s then s\<lparr>pmm_free_frames := pmm_free_frames s + 1\<rparr> else s)
      else s)"
  by pat_completeness auto
termination
  by (relation "measure (\<lambda>(frame, s). unat PMM_FRAME_COUNT - unat frame)") (auto simp: word_count_up)

declare pmm_count_loop.simps [simp del]

definition pmm_bitmap_init :: "u64 \<Rightarrow> mb2_range_t list \<Rightarrow> pmm_st \<Rightarrow> pmm_st" where
  "pmm_bitmap_init bss_end ranges s =
     (let s1 = s\<lparr>pmm_bitmap := fold (\<lambda>i b. b[i := 0xFF]) [0..<unat PMM_BITMAP_BYTES] (pmm_bitmap s)\<rparr>;
          s2 = fold (\<lambda>r. pmm_mark_free (range_base r) (range_length r)) ranges s1;
          kernel_end = pmm_align_up_4k bss_end;
          s3 = pmm_mark_used 0 PMM_LOW_RESERVED s2;
          s4 = (if kernel_end > PMM_LOW_RESERVED
                then pmm_mark_used PMM_LOW_RESERVED (kernel_end - PMM_LOW_RESERVED) s3 else s3);
          s5 = (if pmm_info_end s4 > pmm_mb_info s4
                then pmm_mark_used (pmm_mb_info s4) (pmm_info_end s4 - pmm_mb_info s4) s4 else s4);
          s6 = pmm_count_loop 0 (s5\<lparr>pmm_free_frames := 0\<rparr>)
      in s6\<lparr>pmm_hint := 0\<rparr>)"

function pmm_scan :: "u64 \<Rightarrow> pmm_st \<Rightarrow> u64 option" where
  "pmm_scan frame s =
     (if frame < PMM_FRAME_COUNT
      then (if \<not> pmm_bit_test frame s then Some frame else pmm_scan (frame + 1) s)
      else None)"
  by pat_completeness auto
termination
  by (relation "measure (\<lambda>(frame, s). unat PMM_FRAME_COUNT - unat frame)") (auto simp: word_count_up)

declare pmm_scan.simps [simp del]

definition pmm_take :: "u64 \<Rightarrow> pmm_st \<Rightarrow> u64 \<times> pmm_st" where
  "pmm_take frame s =
     (let s1 = pmm_bit_set frame s
      in (frame * PMM_FRAME_SIZE,
          s1\<lparr>pmm_free_frames := pmm_free_frames s1 - 1, pmm_hint := frame + 1\<rparr>))"

definition pmm_alloc_frame :: "pmm_st \<Rightarrow> u64 \<times> pmm_st" where
  "pmm_alloc_frame s =
     (if pmm_free_frames s = 0 then (0, s)
      else
        (let start = (if pmm_hint s \<ge> PMM_FRAME_COUNT then 0 else pmm_hint s) in
         case pmm_scan start s of
           Some frame \<Rightarrow> pmm_take frame s
         | None \<Rightarrow> (case pmm_scan 0 s of Some frame \<Rightarrow> pmm_take frame s | None \<Rightarrow> (0, s))))"

definition pmm_free_frame :: "u64 \<Rightarrow> pmm_st \<Rightarrow> pmm_st" where
  "pmm_free_frame pa s =
     (if pa = 0 \<or> (pa AND (PMM_FRAME_SIZE - 1)) \<noteq> 0 \<or> pa \<ge> PMM_MAX_PHYS then s
      else
        (let frame = pa div PMM_FRAME_SIZE in
         if \<not> pmm_bit_test frame s then s
         else
           (let s1 = pmm_bit_clear frame s;
                s2 = s1\<lparr>pmm_free_frames := pmm_free_frames s1 + 1\<rparr>
            in if frame < pmm_hint s2 then s2\<lparr>pmm_hint := frame\<rparr> else s2)))"

definition pmm_free_count :: "pmm_st \<Rightarrow> u64" where
  "pmm_free_count s = pmm_free_frames s"

definition pmm_total_count :: u64 where
  "pmm_total_count = PMM_FRAME_COUNT"

section \<open>The bitmap as a set of frames\<close>

lemmas pmm_consts = PMM_FRAME_SIZE_def PMM_MAX_PHYS_def PMM_FRAME_COUNT_def PMM_BITMAP_BYTES_def
  PMM_LOW_RESERVED_def

lemma pmm_frame_count: "PMM_FRAME_COUNT = 0x40000"
  by (simp add: pmm_consts)

definition pmm_free_set :: "pmm_st \<Rightarrow> u64 set" where
  "pmm_free_set s = {f. f < PMM_FRAME_COUNT \<and> \<not> pmm_bit_test f s}"

definition pmm_len :: "pmm_st \<Rightarrow> bool" where
  "pmm_len s \<longleftrightarrow> length (pmm_bitmap s) = 32768"

definition pmm_inv :: "pmm_st \<Rightarrow> bool" where
  "pmm_inv s \<longleftrightarrow> pmm_len s \<and> 0 \<notin> pmm_free_set s \<and> unat (pmm_free_frames s) = card (pmm_free_set s)"

lemma frame_index:
  assumes "f < PMM_FRAME_COUNT"
  shows "unat (drop_bit 3 f) = unat f div 8" "unat (f AND 7) = unat f mod 8" "unat f div 8 < 32768"
proof -
  show "unat (drop_bit 3 f) = unat f div 8"
    by (simp add: drop_bit_eq_div unat_div_distrib)
  show "unat (f AND 7) = unat f mod 8"
    using and_mask_nat [of f 3] by (simp add: mask_numeral)
  show "unat f div 8 < 32768"
    using assms by (simp add: pmm_frame_count word_less_nat_alt)
qed

lemma pmm_bit_test_bit:
  "f < PMM_FRAME_COUNT \<Longrightarrow> pmm_bit_test f s = bit (pmm_bitmap s ! (unat f div 8)) (unat f mod 8)"
  by (simp add: pmm_bit_test_def frame_index and_one_eq bit_iff_odd_drop_bit mod_2_eq_odd)

lemma frame_eq_iff:
  "f = (g :: u64) \<longleftrightarrow> unat f div 8 = unat g div 8 \<and> unat f mod 8 = unat g mod 8"
  by (metis div_mult_mod_eq word_unat_eq_iff)

lemma bit_index_iff: "bit (2 ^ (unat f mod 8) :: u8) (unat g mod 8) \<longleftrightarrow> unat f mod 8 = unat g mod 8"
  by (auto simp: bit_exp_iff)

lemma pmm_bit_set_test:
  assumes "pmm_len s" "f < PMM_FRAME_COUNT" "g < PMM_FRAME_COUNT"
  shows "pmm_bit_test g (pmm_bit_set f s) \<longleftrightarrow> g = f \<or> pmm_bit_test g s"
  using assms(1) frame_index(3) [OF assms(2)] frame_eq_iff [of f g]
  by (cases "unat f div 8 = unat g div 8")
    (auto simp: pmm_bit_test_bit [OF assms(3)] frame_index(1,2) [OF assms(2)] pmm_bit_set_def Let_def
      pmm_len_def bit_or_iff bit_index_iff)

lemma pmm_bit_clear_test:
  assumes "pmm_len s" "f < PMM_FRAME_COUNT" "g < PMM_FRAME_COUNT"
  shows "pmm_bit_test g (pmm_bit_clear f s) \<longleftrightarrow> g \<noteq> f \<and> pmm_bit_test g s"
  using assms(1) frame_index(3) [OF assms(2)] frame_eq_iff [of f g]
  by (cases "unat f div 8 = unat g div 8")
    (auto simp: pmm_bit_test_bit [OF assms(3)] frame_index(1,2) [OF assms(2)] pmm_bit_clear_def Let_def
      pmm_len_def bit_and_iff bit_not_iff bit_index_iff)

lemma pmm_len_bit [simp]:
  "pmm_len (pmm_bit_set f s) = pmm_len s" "pmm_len (pmm_bit_clear f s) = pmm_len s"
  by (simp_all add: pmm_len_def pmm_bit_set_def pmm_bit_clear_def Let_def)

lemma pmm_bit_frame [simp]:
  "pmm_free_frames (pmm_bit_set f s) = pmm_free_frames s"
  "pmm_free_frames (pmm_bit_clear f s) = pmm_free_frames s"
  "pmm_hint (pmm_bit_set f s) = pmm_hint s" "pmm_hint (pmm_bit_clear f s) = pmm_hint s"
  "pmm_mb_info (pmm_bit_set f s) = pmm_mb_info s" "pmm_mb_info (pmm_bit_clear f s) = pmm_mb_info s"
  "pmm_info_end (pmm_bit_set f s) = pmm_info_end s" "pmm_info_end (pmm_bit_clear f s) = pmm_info_end s"
  "pmm_max_end (pmm_bit_set f s) = pmm_max_end s" "pmm_max_end (pmm_bit_clear f s) = pmm_max_end s"
  by (simp_all add: pmm_bit_set_def pmm_bit_clear_def Let_def)

text \<open>Only the bitmap decides which frames are free.\<close>

lemma pmm_test_update [simp]:
  "pmm_bit_test f (s\<lparr>pmm_free_frames := n\<rparr>) = pmm_bit_test f s"
  "pmm_bit_test f (s\<lparr>pmm_hint := n\<rparr>) = pmm_bit_test f s"
  "pmm_free_set (s\<lparr>pmm_free_frames := n\<rparr>) = pmm_free_set s"
  "pmm_free_set (s\<lparr>pmm_hint := n\<rparr>) = pmm_free_set s"
  "pmm_len (s\<lparr>pmm_free_frames := n\<rparr>) = pmm_len s"
  "pmm_len (s\<lparr>pmm_hint := n\<rparr>) = pmm_len s"
  by (simp_all add: pmm_bit_test_def pmm_free_set_def pmm_len_def)

lemma pmm_free_set_set:
  "pmm_len s \<Longrightarrow> f < PMM_FRAME_COUNT \<Longrightarrow> pmm_free_set (pmm_bit_set f s) = pmm_free_set s - {f}"
  by (auto simp: pmm_free_set_def pmm_bit_set_test)

lemma pmm_free_set_clear:
  "pmm_len s \<Longrightarrow> f < PMM_FRAME_COUNT \<Longrightarrow> pmm_free_set (pmm_bit_clear f s) = insert f (pmm_free_set s)"
  by (auto simp: pmm_free_set_def pmm_bit_clear_test)

lemma finite_u64 [simp]: "finite (A :: u64 set)"
  by (rule finite_subset [OF subset_UNIV]) simp

lemma card_free_bound: "card (pmm_free_set s) \<le> 0x40000"
proof -
  have "pmm_free_set s \<subseteq> of_nat ` {..<0x40000}"
  proof
    fix f assume "f \<in> pmm_free_set s"
    then have "unat f < 0x40000" by (simp add: pmm_free_set_def pmm_frame_count word_less_nat_alt)
    moreover have "f = of_nat (unat f)" by simp
    ultimately show "f \<in> of_nat ` {..<0x40000}" by blast
  qed
  then have "card (pmm_free_set s) \<le> card (of_nat ` {..<0x40000} :: u64 set)"
    by (intro card_mono) simp_all
  also have "\<dots> \<le> 0x40000"
    using card_image_le [of "{..<0x40000::nat}" "of_nat :: nat \<Rightarrow> u64"] by simp
  finally show ?thesis .
qed

section \<open>Allocation and release\<close>

lemma pmm_scan_Some:
  "pmm_scan a s = Some f \<Longrightarrow> f \<in> pmm_free_set s \<and> a \<le> f \<and> (\<forall>g. a \<le> g \<and> g < f \<longrightarrow> pmm_bit_test g s)"
proof (induction a s rule: pmm_scan.induct)
  case (1 a s)
  show ?case
  proof (cases "a < PMM_FRAME_COUNT \<and> pmm_bit_test a s")
    case True
    then have "pmm_scan (a + 1) s = Some f" using "1.prems" by (simp add: pmm_scan.simps [of a])
    moreover have suc: "unat (a + 1) = Suc (unat a)" using True unat_Suc_less by blast
    then have "a < a + 1" by (simp add: word_less_nat_alt)
    moreover have "a \<le> g \<Longrightarrow> g = a \<or> a + 1 \<le> g" for g
      using suc by (auto simp: word_le_nat_alt word_unat_eq_iff)
    ultimately show ?thesis using 1 True by fastforce
  next
    case False
    then show ?thesis using "1.prems"
      by (auto simp: pmm_scan.simps [of a] pmm_free_set_def split: if_splits)
  qed
qed

lemma pmm_scan_None: "pmm_scan a s = None \<Longrightarrow> f \<in> pmm_free_set s \<Longrightarrow> f < a"
proof (induction a s rule: pmm_scan.induct)
  case (1 a s)
  show ?case
  proof (cases "a < PMM_FRAME_COUNT")
    case True
    then have t: "pmm_bit_test a s" "pmm_scan (a + 1) s = None"
      using "1.prems"(1) by (auto simp: pmm_scan.simps [of a] split: if_splits)
    then have "f < a + 1" using 1 True by simp
    moreover have "f \<noteq> a" using t(1) "1.prems"(2) by (auto simp: pmm_free_set_def)
    ultimately show ?thesis
      using unat_Suc_less [OF True] by (auto simp: word_less_nat_alt word_unat_eq_iff)
  next
    case False
    then show ?thesis using "1.prems"(2) by (auto simp: pmm_free_set_def not_less)
  qed
qed

text \<open>Physical frame addresses: aligned, not frame 0, below the 1GB limit.\<close>

definition is_frame :: "u64 \<Rightarrow> bool" where
  "is_frame pa \<longleftrightarrow> pa \<noteq> 0 \<and> pa AND 4095 = 0 \<and> pa < PMM_MAX_PHYS"

definition pmm_avail :: "pmm_st \<Rightarrow> u64 set" where
  "pmm_avail s = (\<lambda>f. f * PMM_FRAME_SIZE) ` pmm_free_set s"

lemma frame_addr:
  assumes "f < PMM_FRAME_COUNT"
  shows "unat (f * PMM_FRAME_SIZE) = unat f * 4096" "f * PMM_FRAME_SIZE div PMM_FRAME_SIZE = f"
    "f * PMM_FRAME_SIZE AND 4095 = 0" "f * PMM_FRAME_SIZE < PMM_MAX_PHYS"
    "f * PMM_FRAME_SIZE = 0 \<longleftrightarrow> f = 0"
proof -
  have f: "unat f < 0x40000" using assms by (simp add: pmm_frame_count word_less_nat_alt)
  then show u: "unat (f * PMM_FRAME_SIZE) = unat f * 4096"
    by (simp add: unat_word_ariths PMM_FRAME_SIZE_def)
  show "f * PMM_FRAME_SIZE div PMM_FRAME_SIZE = f"
    using u by (simp add: word_unat_eq_iff unat_div_distrib) (simp add: PMM_FRAME_SIZE_def)
  show "f * PMM_FRAME_SIZE AND 4095 = 0"
    using u and_4095_nat [of "f * PMM_FRAME_SIZE"] by (simp add: unat_eq_zero)
  show "f * PMM_FRAME_SIZE < PMM_MAX_PHYS"
    using u f by (simp add: word_less_nat_alt PMM_MAX_PHYS_def)
  show "f * PMM_FRAME_SIZE = 0 \<longleftrightarrow> f = 0"
    using u by (simp flip: unat_eq_zero)
qed

lemma frame_of_addr:
  assumes "pa AND 4095 = 0" "pa < PMM_MAX_PHYS"
  shows "pa div PMM_FRAME_SIZE < PMM_FRAME_COUNT" "pa div PMM_FRAME_SIZE * PMM_FRAME_SIZE = pa"
    "pa div PMM_FRAME_SIZE = 0 \<longleftrightarrow> pa = 0"
proof -
  have m: "unat pa mod 4096 = 0" using assms(1) and_4095_nat [of pa] by simp
  have b: "unat pa < 0x40000000" using assms(2) by (simp add: word_less_nat_alt PMM_MAX_PHYS_def)
  have d: "unat (pa div PMM_FRAME_SIZE) = unat pa div 4096"
    by (simp add: unat_div_distrib PMM_FRAME_SIZE_def)
  then show l: "pa div PMM_FRAME_SIZE < PMM_FRAME_COUNT"
    using b by (simp add: word_less_nat_alt pmm_frame_count)
  show "pa div PMM_FRAME_SIZE * PMM_FRAME_SIZE = pa"
    using frame_addr(1) [OF l] m unfolding word_unat_eq_iff d by (simp add: mod_eq_0_iff_dvd)
  then show "pa div PMM_FRAME_SIZE = 0 \<longleftrightarrow> pa = 0"
    using frame_addr(5) [OF l] by simp
qed

lemma pmm_avail_iff:
  "pa \<in> pmm_avail s \<longleftrightarrow> pa AND 4095 = 0 \<and> pa < PMM_MAX_PHYS \<and> \<not> pmm_bit_test (pa div PMM_FRAME_SIZE) s"
proof
  assume "pa \<in> pmm_avail s"
  then obtain f where f: "f < PMM_FRAME_COUNT" "\<not> pmm_bit_test f s" "pa = f * PMM_FRAME_SIZE"
    by (auto simp: pmm_avail_def pmm_free_set_def)
  then show "pa AND 4095 = 0 \<and> pa < PMM_MAX_PHYS \<and> \<not> pmm_bit_test (pa div PMM_FRAME_SIZE) s"
    using frame_addr [OF f(1)] by simp
next
  assume "pa AND 4095 = 0 \<and> pa < PMM_MAX_PHYS \<and> \<not> pmm_bit_test (pa div PMM_FRAME_SIZE) s"
  then show "pa \<in> pmm_avail s"
    using frame_of_addr [of pa] unfolding pmm_avail_def pmm_free_set_def
    by (intro image_eqI [of _ _ "pa div PMM_FRAME_SIZE"]) auto
qed

lemma inj_frame: "inj_on (\<lambda>f. f * PMM_FRAME_SIZE) (pmm_free_set s)"
proof (rule inj_onI)
  fix f g assume a: "f \<in> pmm_free_set s" "g \<in> pmm_free_set s" "f * PMM_FRAME_SIZE = g * PMM_FRAME_SIZE"
  have "f < PMM_FRAME_COUNT" "g < PMM_FRAME_COUNT"
    using a(1,2) unfolding pmm_free_set_def by blast+
  then show "f = g" using a(3) frame_addr(2) by metis
qed

lemma card_avail: "card (pmm_avail s) = card (pmm_free_set s)"
  unfolding pmm_avail_def by (rule card_image) (rule inj_frame)

lemma pmm_inv_frames:
  assumes inv: "pmm_inv s" and pa: "pa \<in> pmm_avail s"
  shows "is_frame pa"
proof -
  from pa obtain f where f: "f \<in> pmm_free_set s" "pa = f * PMM_FRAME_SIZE"
    unfolding pmm_avail_def by (rule imageE)
  have "f < PMM_FRAME_COUNT" using f(1) by (simp add: pmm_free_set_def)
  moreover have "f \<noteq> 0" using f(1) inv unfolding pmm_inv_def by metis
  ultimately show ?thesis using frame_addr [of f] f(2) by (simp add: is_frame_def)
qed

lemma pmm_take_spec:
  assumes inv: "pmm_inv s" and f: "f \<in> pmm_free_set s"
  shows "pmm_inv (snd (pmm_take f s))" "fst (pmm_take f s) = f * PMM_FRAME_SIZE"
    "pmm_free_set (snd (pmm_take f s)) = pmm_free_set s - {f}"
    "unat (pmm_free_frames (snd (pmm_take f s))) + 1 = unat (pmm_free_frames s)"
proof -
  have c: "f < PMM_FRAME_COUNT" "pmm_len s" "unat (pmm_free_frames s) = card (pmm_free_set s)"
    using inv f by (simp_all add: pmm_inv_def pmm_free_set_def)
  have pos: "0 < card (pmm_free_set s)" using f by (auto simp: card_gt_0_iff)
  show "fst (pmm_take f s) = f * PMM_FRAME_SIZE" by (simp add: pmm_take_def Let_def)
  show fs: "pmm_free_set (snd (pmm_take f s)) = pmm_free_set s - {f}"
    using c by (simp add: pmm_take_def Let_def pmm_free_set_set)
  have "unat (pmm_free_frames s - 1) = unat (pmm_free_frames s) - 1"
    using c(3) pos by (subst unat_sub) (simp_all add: word_le_nat_alt)
  then have n: "unat (pmm_free_frames (snd (pmm_take f s))) = unat (pmm_free_frames s) - 1"
    by (simp add: pmm_take_def Let_def)
  then show "unat (pmm_free_frames (snd (pmm_take f s))) + 1 = unat (pmm_free_frames s)"
    using c(3) pos by simp
  show "pmm_inv (snd (pmm_take f s))"
    using inv fs n c f by (simp add: pmm_inv_def card_Diff_singleton) (simp add: pmm_take_def Let_def)
qed

lemma pmm_alloc_cases:
  assumes inv: "pmm_inv s"
  obtains (empty) "pmm_free_set s = {}" "pmm_alloc_frame s = (0, s)"
  | (frame) f where "f \<in> pmm_free_set s" "pmm_alloc_frame s = pmm_take f s"
proof (cases "pmm_free_set s = {}")
  case True
  then have "pmm_free_frames s = 0" using inv by (simp add: pmm_inv_def unat_eq_zero)
  then show ?thesis using True empty by (simp add: pmm_alloc_frame_def)
next
  case False
  then have nz: "pmm_free_frames s \<noteq> 0" using inv by (auto simp: pmm_inv_def card_gt_0_iff)
  have "pmm_scan 0 s \<noteq> None" using pmm_scan_None [of 0 s] False by fastforce
  then obtain g where g: "pmm_scan 0 s = Some g" by auto
  let ?start = "if pmm_hint s \<ge> PMM_FRAME_COUNT then 0 else pmm_hint s"
  show ?thesis
  proof (cases "pmm_scan ?start s")
    case None
    then have "pmm_alloc_frame s = pmm_take g s" using nz g by (simp add: pmm_alloc_frame_def Let_def)
    then show ?thesis using frame pmm_scan_Some [OF g] by blast
  next
    case (Some f)
    then have "pmm_alloc_frame s = pmm_take f s" using nz by (simp add: pmm_alloc_frame_def Let_def)
    then show ?thesis using frame pmm_scan_Some [OF Some] by blast
  qed
qed

lemma pmm_free_spec:
  assumes inv: "pmm_inv s" and pa: "is_frame pa"
  shows "pmm_inv (pmm_free_frame pa s)"
    "pmm_free_set (pmm_free_frame pa s) = insert (pa div PMM_FRAME_SIZE) (pmm_free_set s)"
proof -
  let ?f = "pa div PMM_FRAME_SIZE"
  have f: "?f < PMM_FRAME_COUNT" "?f \<noteq> 0"
    using pa frame_of_addr [of pa] by (simp_all add: is_frame_def)
  have l: "pmm_len s" "unat (pmm_free_frames s) = card (pmm_free_set s)" "0 \<notin> pmm_free_set s"
    using inv by (simp_all add: pmm_inv_def)
  have g: "\<not> (pa = 0 \<or> (pa AND (PMM_FRAME_SIZE - 1)) \<noteq> 0 \<or> pa \<ge> PMM_MAX_PHYS)"
    using pa by (simp add: is_frame_def PMM_FRAME_SIZE_def not_le)
  have u: "unat (pmm_free_frames s + 1) = unat (pmm_free_frames s) + 1"
    using card_free_bound [of s] l(2) by (subst unat_u64_add) simp_all
  show fs: "pmm_free_set (pmm_free_frame pa s) = insert ?f (pmm_free_set s)"
  proof (cases "pmm_bit_test ?f s")
    case True
    then show ?thesis using g f l by (simp add: pmm_free_frame_def Let_def pmm_free_set_clear)
  next
    case False
    then have "?f \<in> pmm_free_set s" using f by (simp add: pmm_free_set_def)
    then show ?thesis using False by (auto simp: pmm_free_frame_def)
  qed
  show "pmm_inv (pmm_free_frame pa s)"
  proof (cases "pmm_bit_test ?f s")
    case True
    then have n: "?f \<notin> pmm_free_set s" by (simp add: pmm_free_set_def)
    have "pmm_free_frames (pmm_free_frame pa s) = pmm_free_frames s + 1" "pmm_len (pmm_free_frame pa s)"
      using g True l by (simp_all add: pmm_free_frame_def Let_def)
    then show ?thesis using fs n u l f by (simp add: pmm_inv_def)
  next
    case False
    then show ?thesis using inv by (simp add: pmm_free_frame_def)
  qed
qed

lemma pmm_free_ignores: "pa = 0 \<or> pa AND 4095 \<noteq> 0 \<or> PMM_MAX_PHYS \<le> pa \<Longrightarrow> pmm_free_frame pa s = s"
  by (auto simp: pmm_free_frame_def PMM_FRAME_SIZE_def)

section \<open>The allocator interface\<close>

text \<open>
  What the page-table code relies on: an allocator hands out an available frame or reports \<open>0\<close>
  when there is none, and takes frames back.
\<close>

primrec alloc_n :: "('s \<Rightarrow> u64 \<times> 's) \<Rightarrow> nat \<Rightarrow> 's \<Rightarrow> u64 list \<times> 's" where
  "alloc_n alloc 0 s = ([], s)"
| "alloc_n alloc (Suc n) s = (let (pa, s1) = alloc s; (pas, s2) = alloc_n alloc n s1 in (pa # pas, s2))"

locale frame_allocator =
  fixes alloc :: "'s \<Rightarrow> u64 \<times> 's"
    and release :: "u64 \<Rightarrow> 's \<Rightarrow> 's"
    and avail :: "'s \<Rightarrow> u64 set"
    and ok :: "'s \<Rightarrow> bool"
  assumes avail_frames: "ok s \<Longrightarrow> pa \<in> avail s \<Longrightarrow> is_frame pa"
    and alloc_ok: "ok s \<Longrightarrow> ok (snd (alloc s))"
    and alloc_none: "ok s \<Longrightarrow> avail s = {} \<Longrightarrow> alloc s = (0, s)"
    and alloc_some: "ok s \<Longrightarrow> avail s \<noteq> {} \<Longrightarrow>
      fst (alloc s) \<in> avail s \<and> avail (snd (alloc s)) = avail s - {fst (alloc s)}"
    and release_ok: "ok s \<Longrightarrow> ok (release pa s)"
    and release_avail: "ok s \<Longrightarrow> is_frame pa \<Longrightarrow> avail (release pa s) = insert pa (avail s)"
begin

lemma alloc_zero_iff: "ok s \<Longrightarrow> fst (alloc s) = 0 \<longleftrightarrow> avail s = {}"
  using alloc_none alloc_some avail_frames by (fastforce simp: is_frame_def)

lemma alloc_fresh:
  "ok s \<Longrightarrow> fst (alloc s) \<noteq> 0 \<Longrightarrow>
     is_frame (fst (alloc s)) \<and> fst (alloc s) \<in> avail s \<and> fst (alloc s) \<notin> avail (snd (alloc s))"
  using alloc_zero_iff alloc_some avail_frames by blast

lemma alloc_release: "ok s \<Longrightarrow> fst (alloc s) \<noteq> 0 \<Longrightarrow> avail (release (fst (alloc s)) (snd (alloc s))) = avail s"
  using alloc_zero_iff alloc_some release_avail alloc_ok alloc_fresh by (metis insert_Diff)

text \<open>While frames last, successive allocations never hand out the same frame twice.\<close>

lemma alloc_n_distinct:
  "ok s \<Longrightarrow> n \<le> card (avail s) \<Longrightarrow>
     distinct (fst (alloc_n alloc n s)) \<and> set (fst (alloc_n alloc n s)) \<subseteq> avail s \<and>
     avail (snd (alloc_n alloc n s)) = avail s - set (fst (alloc_n alloc n s)) \<and> ok (snd (alloc_n alloc n s)) \<and>
     length (fst (alloc_n alloc n s)) = n"
proof (induction n arbitrary: s)
  case 0
  then show ?case by simp
next
  case (Suc n)
  then have ne: "avail s \<noteq> {}" by auto
  note a = alloc_some [OF Suc.prems(1) ne]
  have "n \<le> card (avail (snd (alloc s)))" using Suc.prems(2) a by simp
  note IH = Suc.IH [OF alloc_ok [OF Suc.prems(1)] this]
  then show ?case using a by (auto simp: case_prod_unfold Let_def)
qed

end

interpretation pmm: frame_allocator pmm_alloc_frame pmm_free_frame pmm_avail pmm_inv
proof
  fix s pa
  assume inv: "pmm_inv s"
  show "pa \<in> pmm_avail s \<Longrightarrow> is_frame pa"
    using inv by (rule pmm_inv_frames)
  show "pmm_inv (snd (pmm_alloc_frame s))"
    by (cases rule: pmm_alloc_cases [OF inv]) (simp_all add: inv pmm_take_spec(1))
  show "pmm_avail s = {} \<Longrightarrow> pmm_alloc_frame s = (0, s)"
    using inv by (cases rule: pmm_alloc_cases) (auto simp: pmm_avail_def)
  show "pmm_avail s \<noteq> {} \<Longrightarrow> fst (pmm_alloc_frame s) \<in> pmm_avail s \<and>
      pmm_avail (snd (pmm_alloc_frame s)) = pmm_avail s - {fst (pmm_alloc_frame s)}"
  proof -
    assume ne: "pmm_avail s \<noteq> {}"
    from inv show ?thesis
    proof (cases rule: pmm_alloc_cases)
      case empty
      then show ?thesis using ne by (simp add: pmm_avail_def)
    next
      case (frame f)
      then show ?thesis
        using pmm_take_spec [OF inv frame(1)] inj_on_image_set_diff [OF inj_frame [of s], of "pmm_free_set s" "{f}"]
        by (auto simp: pmm_avail_def)
    qed
  qed
  show "pmm_inv (pmm_free_frame pa s)"
  proof (cases "is_frame pa")
    case True
    then show ?thesis by (rule pmm_free_spec(1) [OF inv])
  next
    case False
    then show ?thesis using inv pmm_free_ignores [of pa s] by (auto simp: is_frame_def not_less)
  qed
  show "is_frame pa \<Longrightarrow> pmm_avail (pmm_free_frame pa s) = insert pa (pmm_avail s)"
    using pmm_free_spec(2) [OF inv] frame_of_addr(2) [of pa] by (simp add: pmm_avail_def is_frame_def)
qed

section \<open>Initialisation of the bitmap\<close>

lemma bit_u8_255: "bit (0xFF :: u8) (n mod 8)"
proof -
  have m: "(0xFF :: u8) = mask 8" by (simp add: mask_numeral)
  show ?thesis unfolding m bit_mask_iff by simp
qed

text \<open>The bytes of a frame, and of a region given by base and length.\<close>

definition frame_bytes :: "u64 \<Rightarrow> nat set" where
  "frame_bytes f = {unat f * 4096 ..< unat f * 4096 + 4096}"

definition region_bytes :: "u64 \<Rightarrow> u64 \<Rightarrow> nat set" where
  "region_bytes base len = {unat base ..< unat base + unat len}"

lemma round_up_le: "(b + 4095) div 4096 * 4096 \<le> g * 4096 \<longleftrightarrow> b \<le> g * (4096 :: nat)"
proof -
  have "(b + 4095) div 4096 * 4096 \<le> g * 4096 \<longleftrightarrow> (b + 4095) div 4096 < Suc g"
    by (simp add: less_Suc_eq_le)
  also have "\<dots> \<longleftrightarrow> b + 4095 < Suc g * 4096" by (rule div_less_iff_less_mult) simp
  finally show ?thesis by auto
qed

lemma less_round_down: "g * 4096 < e div 4096 * 4096 \<longleftrightarrow> g * 4096 + 4096 \<le> (e :: nat)"
proof -
  have "g * 4096 < e div 4096 * 4096 \<longleftrightarrow> Suc g \<le> e div 4096" by auto
  also have "\<dots> \<longleftrightarrow> Suc g * 4096 \<le> e" by (rule less_eq_div_iff_mult_less_eq) simp
  finally show ?thesis by (simp add: add.commute)
qed

lemma next_frame: "pa mod 4096 = 0 \<Longrightarrow> pa \<le> g * 4096 \<longleftrightarrow> g = pa div 4096 \<or> pa + 4096 \<le> g * (4096 :: nat)"
  by (auto elim!: dvdE simp: mod_eq_0_iff_dvd)

lemma pmm_mark_loop_test:
  assumes mark: "\<And>f s. pmm_len s \<Longrightarrow> pmm_len (mark f s)"
    and test: "\<And>f g s. pmm_len s \<Longrightarrow> f < PMM_FRAME_COUNT \<Longrightarrow> g < PMM_FRAME_COUNT \<Longrightarrow>
      pmm_bit_test g (mark f s) = (if g = f then v else pmm_bit_test g s)"
  shows "pmm_len s \<Longrightarrow> last1 \<le> 0x40000000 \<Longrightarrow> pa mod 4096 = 0 \<Longrightarrow>
    pmm_len (pmm_mark_loop mark pa last1 s) \<and>
    (\<forall>g < PMM_FRAME_COUNT. pmm_bit_test g (pmm_mark_loop mark pa last1 s) =
       (if pa \<le> unat g * 4096 \<and> unat g * 4096 < last1 then v else pmm_bit_test g s))"
proof (induction "last1 - pa" arbitrary: pa s rule: less_induct)
  case less
  show ?case
  proof (cases "pa < last1")
    case False
    then show ?thesis using less.prems(1) by (auto simp: pmm_mark_loop.simps [of mark pa])
  next
    case True
    let ?f = "of_nat (pa div 4096) :: u64"
    have uf: "unat ?f = pa div 4096" using True less.prems(2) by (simp add: unat_of_nat_u64)
    then have f: "?f < PMM_FRAME_COUNT"
      using True less.prems(2) by (simp add: pmm_frame_count word_less_nat_alt)
    have step: "pmm_mark_loop mark pa last1 s = pmm_mark_loop mark (pa + 4096) last1 (mark ?f s)"
      using True by (simp add: pmm_mark_loop.simps [of mark pa] PMM_FRAME_SIZE_def)
    have IH: "pmm_len (pmm_mark_loop mark pa last1 s)"
      "g < PMM_FRAME_COUNT \<Longrightarrow> pmm_bit_test g (pmm_mark_loop mark pa last1 s) =
         (if pa + 4096 \<le> unat g * 4096 \<and> unat g * 4096 < last1 then v else pmm_bit_test g (mark ?f s))" for g
      using less.hyps [of "pa + 4096" "mark ?f s"] True less.prems mark unfolding step by auto
    have "pa \<le> unat g * 4096 \<longleftrightarrow> g = ?f \<or> pa + 4096 \<le> unat g * 4096" for g :: u64
      using next_frame [OF less.prems(3), of "unat g"] unfolding word_unat_eq_iff uf .
    moreover have "unat ?f * 4096 = pa"
      unfolding uf using less.prems(3) by (auto simp: mod_eq_0_iff_dvd)
    ultimately show ?thesis using IH test [OF less.prems(1) f] True by auto
  qed
qed

lemma align_up_nat:
  "unat x + 4095 < 2 ^ 64 \<Longrightarrow> unat (pmm_align_up_4k x) = (unat x + 4095) div 4096 * 4096"
proof -
  assume b: "unat x + 4095 < 2 ^ 64"
  have "pmm_align_up_4k x = (x + 4095) AND - 4096"
    by (simp add: pmm_align_up_4k_def PMM_FRAME_SIZE_def add.commute)
  moreover have "unat (x + 4095) = unat x + 4095" using b by (subst unat_u64_add) simp_all
  ultimately show ?thesis by (simp add: and_not_4095_nat minus_mod_eq_div_mult)
qed

lemma clip_end_nat:
  "unat (pmm_clip_end base len) = min (unat base + unat len) 0x40000000"
proof (cases "unat base + unat len < 2 ^ 64")
  case True
  then have "unat (base + len) = unat base + unat len" by (rule unat_u64_add)
  then show ?thesis
    by (auto simp: pmm_clip_end_def Let_def word_less_nat_alt PMM_MAX_PHYS_def min_def)
next
  case False
  have "unat (base + len) = unat base + unat len - 2 ^ 64"
    using False unat_u64_bound [of base] unat_u64_bound [of len]
    by (simp add: unat_word_ariths mod_if)
  then have "base + len < base"
    using unat_u64_bound [of len] False unfolding word_less_nat_alt by linarith
  then show ?thesis using False by (simp add: pmm_clip_end_def PMM_MAX_PHYS_def)
qed

lemma pmm_mark_free_test:
  assumes "pmm_len s"
  shows "pmm_len (pmm_mark_free base len s)"
    "g < PMM_FRAME_COUNT \<Longrightarrow> pmm_bit_test g (pmm_mark_free base len s) \<longleftrightarrow>
       pmm_bit_test g s \<and> \<not> frame_bytes g \<subseteq> region_bytes base len"
proof -
  have "pmm_len (pmm_mark_free base len s) \<and> (g < PMM_FRAME_COUNT \<longrightarrow>
    (pmm_bit_test g (pmm_mark_free base len s) \<longleftrightarrow>
       pmm_bit_test g s \<and> \<not> frame_bytes g \<subseteq> region_bytes base len))"
  proof (cases "len = 0 \<or> base \<ge> PMM_MAX_PHYS")
    case True
    then show ?thesis using assms
      by (auto simp: pmm_mark_free_def frame_bytes_def region_bytes_def pmm_frame_count word_less_nat_alt
        word_le_nat_alt PMM_MAX_PHYS_def)
  next
    case False
    then have b: "base < PMM_MAX_PHYS" by (simp add: not_le)
    let ?first = "unat (pmm_align_up_4k base)"
    let ?last = "unat (pmm_clip_end base len AND - 4096)"
    have ub: "unat base < 0x40000000" using b by (simp add: word_less_nat_alt PMM_MAX_PHYS_def)
    have first: "?first = (unat base + 4095) div 4096 * 4096" using ub by (simp add: align_up_nat)
    have last1: "?last = min (unat base + unat len) 0x40000000 div 4096 * 4096"
      by (simp add: and_not_4095_nat clip_end_nat minus_mod_eq_div_mult)
    have eq: "pmm_mark_free base len s = pmm_mark_loop pmm_bit_clear ?first ?last s"
      using False by (simp add: pmm_mark_free_def Let_def PMM_FRAME_SIZE_def)
    have "?last \<le> 0x40000000" unfolding last1 by simp
    moreover have "?first mod 4096 = 0" unfolding first by simp
    ultimately have loop: "pmm_len (pmm_mark_free base len s)"
      "g < PMM_FRAME_COUNT \<Longrightarrow> pmm_bit_test g (pmm_mark_free base len s) =
         (if ?first \<le> unat g * 4096 \<and> unat g * 4096 < ?last then False else pmm_bit_test g s)"
      unfolding eq using pmm_mark_loop_test [of pmm_bit_clear False s] assms
      by (simp_all add: pmm_bit_clear_test)
    have "g < PMM_FRAME_COUNT \<Longrightarrow> frame_bytes g \<subseteq> region_bytes base len \<longleftrightarrow>
        ?first \<le> unat g * 4096 \<and> unat g * 4096 < ?last"
      unfolding first last1 round_up_le less_round_down
      by (auto simp: pmm_frame_count word_less_nat_alt frame_bytes_def region_bytes_def)
    then show ?thesis using loop by auto
  qed
  then show "pmm_len (pmm_mark_free base len s)"
    "g < PMM_FRAME_COUNT \<Longrightarrow> pmm_bit_test g (pmm_mark_free base len s) \<longleftrightarrow>
       pmm_bit_test g s \<and> \<not> frame_bytes g \<subseteq> region_bytes base len" by blast+
qed

text \<open>The bounds of the loop in \<^verbatim>\<open>pmm_mark_used\<close>: the frames that it visits are those that the region meets.\<close>

lemma mark_used_bounds:
  fixes base len :: u64
  defines "first0 \<equiv> unat (base AND - 4096)" and "last0 \<equiv> unat (min (pmm_align_up_4k (pmm_clip_end base len)) PMM_MAX_PHYS)"
  assumes b: "base < PMM_MAX_PHYS" and len: "len \<noteq> 0"
  shows "first0 mod 4096 = 0" "last0 \<le> 0x40000000"
    "g < PMM_FRAME_COUNT \<Longrightarrow> frame_bytes g \<inter> region_bytes base len \<noteq> {} \<longleftrightarrow> first0 \<le> unat g * 4096 \<and> unat g * 4096 < last0"
proof -
  let ?e = "min (unat base + unat len) 0x40000000"
  have first: "first0 = unat base div 4096 * 4096" by (simp add: first0_def and_not_4095_nat minus_mod_eq_div_mult)
  then show "first0 mod 4096 = 0" by simp
  have up: "unat (pmm_align_up_4k (pmm_clip_end base len)) = (?e + 4095) div 4096 * 4096"
    unfolding clip_end_nat [symmetric] by (rule align_up_nat) (simp add: clip_end_nat)
  have le: "(?e + 4095) div 4096 * 4096 \<le> 0x40000 * 4096" unfolding round_up_le by simp
  then have last1: "last0 = (?e + 4095) div 4096 * 4096"
    using up by (simp add: last0_def min_def word_le_nat_alt PMM_MAX_PHYS_def)
  then show "last0 \<le> 0x40000000" using le by simp
  have "first0 \<le> unat g * 4096 \<longleftrightarrow> unat base < unat g * 4096 + 4096" "unat g * 4096 < last0 \<longleftrightarrow> unat g * 4096 < ?e"
    unfolding first last1 using less_round_down [of "unat g" "unat base"] round_up_le [of ?e "unat g"] by linarith+
  then show "g < PMM_FRAME_COUNT \<Longrightarrow> frame_bytes g \<inter> region_bytes base len \<noteq> {} \<longleftrightarrow> first0 \<le> unat g * 4096 \<and> unat g * 4096 < last0"
    using len by (auto simp: frame_bytes_def region_bytes_def pmm_frame_count word_less_nat_alt unat_eq_zero)
qed

lemma pmm_mark_used_test:
  assumes "pmm_len s"
  shows "pmm_len (pmm_mark_used base len s)"
    "g < PMM_FRAME_COUNT \<Longrightarrow> pmm_bit_test g (pmm_mark_used base len s) \<longleftrightarrow>
       pmm_bit_test g s \<or> frame_bytes g \<inter> region_bytes base len \<noteq> {}"
proof -
  have "pmm_len (pmm_mark_used base len s) \<and> (g < PMM_FRAME_COUNT \<longrightarrow>
    (pmm_bit_test g (pmm_mark_used base len s) \<longleftrightarrow>
       pmm_bit_test g s \<or> frame_bytes g \<inter> region_bytes base len \<noteq> {}))"
  proof (cases "len = 0 \<or> base \<ge> PMM_MAX_PHYS")
    case True
    then show ?thesis using assms
      by (auto simp: pmm_mark_used_def frame_bytes_def region_bytes_def pmm_frame_count word_less_nat_alt
        word_le_nat_alt PMM_MAX_PHYS_def)
  next
    case False
    then have b: "base < PMM_MAX_PHYS" by (simp add: not_le)
    let ?first = "unat (base AND - 4096)" and ?last = "unat (min (pmm_align_up_4k (pmm_clip_end base len)) PMM_MAX_PHYS)"
    note B = mark_used_bounds [OF b, of len]
    have eq: "pmm_mark_used base len s = pmm_mark_loop pmm_bit_set ?first ?last s"
      using False b by (simp add: pmm_mark_used_def Let_def PMM_FRAME_SIZE_def min_def not_le)
    have "pmm_len (pmm_mark_used base len s)"
      "g < PMM_FRAME_COUNT \<Longrightarrow> pmm_bit_test g (pmm_mark_used base len s) =
         (if ?first \<le> unat g * 4096 \<and> unat g * 4096 < ?last then True else pmm_bit_test g s)"
      unfolding eq using pmm_mark_loop_test [of pmm_bit_set True s] assms B(1,2) False
      by (simp_all add: pmm_bit_set_test)
    then show ?thesis using B(3) False by auto
  qed
  then show "pmm_len (pmm_mark_used base len s)"
    "g < PMM_FRAME_COUNT \<Longrightarrow> pmm_bit_test g (pmm_mark_used base len s) \<longleftrightarrow>
       pmm_bit_test g s \<or> frame_bytes g \<inter> region_bytes base len \<noteq> {}" by blast+
qed

lemma pmm_count_loop_test:
  "pmm_bit_test g (pmm_count_loop f s) = pmm_bit_test g s \<and> pmm_len (pmm_count_loop f s) = pmm_len s \<and>
   pmm_free_frames (pmm_count_loop f s) = pmm_free_frames s + of_nat (card {h \<in> pmm_free_set s. f \<le> h})"
proof (induction f s rule: pmm_count_loop.induct)
  case (1 f s)
  show ?case
  proof (cases "f < PMM_FRAME_COUNT")
    case True
    have suc: "f + 1 \<le> h \<longleftrightarrow> f \<le> h \<and> h \<noteq> f" for h
      using unat_Suc_less [OF True] by (auto simp: word_le_nat_alt word_unat_eq_iff)
    have split: "{h \<in> pmm_free_set s. f \<le> h} =
      (if pmm_bit_test f s then {} else {f}) \<union> {h \<in> pmm_free_set s. f + 1 \<le> h}"
      using True by (auto simp: suc pmm_free_set_def)
    show ?thesis
    proof (cases "pmm_bit_test f s")
      case bit: True
      then show ?thesis using 1 True split by (simp add: pmm_count_loop.simps [of f])
    next
      case False
      then have "card {h \<in> pmm_free_set s. f \<le> h} = Suc (card {h \<in> pmm_free_set s. f + 1 \<le> h})"
        using split by (simp add: suc)
      then show ?thesis using 1 True False by (simp add: pmm_count_loop.simps [of f])
    qed
  next
    case False
    then have "{h \<in> pmm_free_set s. f \<le> h} = {}" by (auto simp: pmm_free_set_def)
    then show ?thesis using False by (simp only: pmm_count_loop.simps [of f]) simp
  qed
qed

lemma pmm_mark_fold:
  assumes "pmm_len s"
  shows "pmm_len (fold (\<lambda>r. pmm_mark_free (range_base r) (range_length r)) ranges s) \<and>
    (\<forall>g < PMM_FRAME_COUNT. pmm_bit_test g (fold (\<lambda>r. pmm_mark_free (range_base r) (range_length r)) ranges s) \<longleftrightarrow>
      pmm_bit_test g s \<and> \<not> (\<exists>r \<in> set ranges. frame_bytes g \<subseteq> region_bytes (range_base r) (range_length r)))"
  using assms by (induction ranges arbitrary: s) (auto simp: pmm_mark_free_test)

lemma pmm_mark_static [simp]:
  "pmm_mb_info (pmm_mark_loop mark pa n s) = pmm_mb_info s \<and> pmm_info_end (pmm_mark_loop mark pa n s) = pmm_info_end s"
  if "\<And>f s. pmm_mb_info (mark f s) = pmm_mb_info s \<and> pmm_info_end (mark f s) = pmm_info_end s"
  using that
  by (induction mark pa n s rule: pmm_mark_loop.induct) (simp add: pmm_mark_loop.simps)

lemma pmm_mark_info [simp]:
  "pmm_mb_info (pmm_mark_free base len s) = pmm_mb_info s"
  "pmm_mb_info (pmm_mark_used base len s) = pmm_mb_info s"
  "pmm_info_end (pmm_mark_free base len s) = pmm_info_end s"
  "pmm_info_end (pmm_mark_used base len s) = pmm_info_end s"
  by (simp_all add: pmm_mark_free_def pmm_mark_used_def Let_def)

lemma pmm_mark_fold_info [simp]:
  "pmm_mb_info (fold (\<lambda>r. pmm_mark_free (range_base r) (range_length r)) ranges s) = pmm_mb_info s"
  "pmm_info_end (fold (\<lambda>r. pmm_mark_free (range_base r) (range_length r)) ranges s) = pmm_info_end s"
  by (induction ranges arbitrary: s) simp_all

text \<open>The bytes that are never handed out: low memory, the kernel image, the boot information.\<close>

definition pmm_reserved :: "u64 \<Rightarrow> pmm_st \<Rightarrow> nat set" where
  "pmm_reserved bss_end s =
     {..< 0x100000} \<union> {..< unat bss_end} \<union> {unat (pmm_mb_info s) ..< unat (pmm_info_end s)}"

definition pmm_usable :: "mb2_range_t list \<Rightarrow> u64 \<Rightarrow> bool" where
  "pmm_usable ranges f \<longleftrightarrow> (\<exists>r \<in> set ranges. frame_bytes f \<subseteq> region_bytes (range_base r) (range_length r))"

lemma mark_used_if:
  assumes "pmm_len s" "g < PMM_FRAME_COUNT"
  shows "pmm_bit_test g (if b < e then pmm_mark_used b (e - b) s else s) \<longleftrightarrow>
     pmm_bit_test g s \<or> frame_bytes g \<inter> {unat b ..< unat e} \<noteq> {}"
    "pmm_len (if b < e then pmm_mark_used b (e - b) s else s)"
proof -
  have "b < e \<Longrightarrow> region_bytes b (e - b) = {unat b ..< unat e}"
    by (simp add: region_bytes_def unat_sub word_less_nat_alt word_le_nat_alt)
  then show "pmm_bit_test g (if b < e then pmm_mark_used b (e - b) s else s) \<longleftrightarrow>
     pmm_bit_test g s \<or> frame_bytes g \<inter> {unat b ..< unat e} \<noteq> {}"
    using pmm_mark_used_test(2) [OF assms, of b "e - b"] by (auto simp: word_less_nat_alt)
  show "pmm_len (if b < e then pmm_mark_used b (e - b) s else s)"
    using pmm_mark_used_test(1) [OF assms(1)] assms(1) by simp
qed

lemma frame_meets_round_up:
  "frame_bytes g \<inter> {0x100000 ..< (e + 4095) div 4096 * 4096} \<noteq> {} \<or> frame_bytes g \<inter> {..< 0x100000} \<noteq> {} \<longleftrightarrow>
   frame_bytes g \<inter> {..< e} \<noteq> {} \<or> frame_bytes g \<inter> {..< 0x100000} \<noteq> {}"
proof -
  have meets: "frame_bytes g \<inter> {..< k} \<noteq> {} \<longleftrightarrow> unat g * 4096 < k" for k
    by (auto simp: frame_bytes_def lessThan_atLeast0)
  have "\<not> unat g * 4096 < 0x100000 \<Longrightarrow> frame_bytes g \<inter> {0x100000 ..< k} \<noteq> {} \<longleftrightarrow> unat g * 4096 < k" for k
    by (auto simp: frame_bytes_def)
  note far = this [of "(e + 4095) div 4096 * 4096"]
  show ?thesis
  proof (cases "unat g * 4096 < 0x100000")
    case True
    then show ?thesis unfolding meets by blast
  next
    case False
    then show ?thesis unfolding meets far [OF False] using round_up_le [of e "unat g"] by linarith
  qed
qed

lemma pmm_bitmap_init_bits:
  assumes len: "pmm_len s" and bss: "unat bss_end + 4095 < 2 ^ 64"
  shows "pmm_len (pmm_bitmap_init bss_end ranges s)"
    "g < PMM_FRAME_COUNT \<Longrightarrow> pmm_bit_test g (pmm_bitmap_init bss_end ranges s) \<longleftrightarrow>
       \<not> pmm_usable ranges g \<or> frame_bytes g \<inter> pmm_reserved bss_end s \<noteq> {}"
    "pmm_free_frames (pmm_bitmap_init bss_end ranges s) =
       of_nat (card (pmm_free_set (pmm_bitmap_init bss_end ranges s)))"
proof -
  define s1 where "s1 = s\<lparr>pmm_bitmap := fold (\<lambda>i b. b[i := 0xFF]) [0..<unat PMM_BITMAP_BYTES] (pmm_bitmap s)\<rparr>"
  define s2 where "s2 = fold (\<lambda>r. pmm_mark_free (range_base r) (range_length r)) ranges s1"
  define s3 where "s3 = pmm_mark_used 0 PMM_LOW_RESERVED s2"
  define s4 where "s4 = (if PMM_LOW_RESERVED < pmm_align_up_4k bss_end
    then pmm_mark_used PMM_LOW_RESERVED (pmm_align_up_4k bss_end - PMM_LOW_RESERVED) s3 else s3)"
  define s5 where "s5 = (if pmm_mb_info s4 < pmm_info_end s4
    then pmm_mark_used (pmm_mb_info s4) (pmm_info_end s4 - pmm_mb_info s4) s4 else s4)"
  have init: "pmm_bitmap_init bss_end ranges s = (pmm_count_loop 0 (s5\<lparr>pmm_free_frames := 0\<rparr>))\<lparr>pmm_hint := 0\<rparr>"
    by (simp only: pmm_bitmap_init_def Let_def s1_def s2_def s3_def s4_def s5_def)
  have "pmm_bitmap s1 = replicate 32768 0xFF"
    using len unfolding s1_def by (simp add: pmm_len_def pmm_consts fold_fill del: upt_rec_numeral)
  note r1 = this
  have l1: "pmm_len s1" by (simp add: pmm_len_def r1)
  have b1: "pmm_bit_test g s1" if g: "g < PMM_FRAME_COUNT" for g
    unfolding pmm_bit_test_bit [OF g] r1 nth_replicate [OF frame_index(3) [OF g]] by (rule bit_u8_255)
  note f2 = pmm_mark_fold [OF l1, of ranges, folded s2_def pmm_usable_def]
  then have l3: "pmm_len s3" unfolding s3_def by (simp add: pmm_mark_used_test)
  have l4: "pmm_len s4" unfolding s4_def by (rule mark_used_if(2) [OF l3, of 0]) (simp add: pmm_frame_count)
  have l5: "pmm_len s5" unfolding s5_def by (rule mark_used_if(2) [OF l4, of 0]) (simp add: pmm_frame_count)
  have st: "pmm_mb_info s4 = pmm_mb_info s" "pmm_info_end s4 = pmm_info_end s"
    by (simp_all add: s4_def s3_def s2_def s1_def)
  have low: "region_bytes 0 PMM_LOW_RESERVED = {..< 0x100000}" "unat PMM_LOW_RESERVED = 0x100000"
    by (simp_all add: region_bytes_def PMM_LOW_RESERVED_def lessThan_atLeast0)
  have b5: "pmm_bit_test g s5 \<longleftrightarrow> \<not> pmm_usable ranges g \<or> frame_bytes g \<inter> pmm_reserved bss_end s \<noteq> {}"
    if g: "g < PMM_FRAME_COUNT" for g
  proof -
    have "pmm_len s2" "pmm_bit_test g s2 = (pmm_bit_test g s1 \<and> \<not> pmm_usable ranges g)"
      using f2 g by blast+
    then show ?thesis
      using mark_used_if(1) [OF l4 g, of "pmm_mb_info s4" "pmm_info_end s4", folded s5_def]
        mark_used_if(1) [OF l3 g, of PMM_LOW_RESERVED "pmm_align_up_4k bss_end", folded s4_def]
        pmm_mark_used_test(2) [OF \<open>pmm_len s2\<close> g, of 0 PMM_LOW_RESERVED, folded s3_def] b1 [OF g]
        frame_meets_round_up [of g "unat bss_end"]
      unfolding low align_up_nat [OF bss] st pmm_reserved_def Int_Un_distrib Un_empty by argo
  qed
  note c = pmm_count_loop_test [of _ 0 "s5\<lparr>pmm_free_frames := 0\<rparr>"]
  show "pmm_len (pmm_bitmap_init bss_end ranges s)"
    unfolding init using c l5 by simp
  show "g < PMM_FRAME_COUNT \<Longrightarrow> pmm_bit_test g (pmm_bitmap_init bss_end ranges s) \<longleftrightarrow>
       \<not> pmm_usable ranges g \<or> frame_bytes g \<inter> pmm_reserved bss_end s \<noteq> {}"
    unfolding init using c b5 by simp
  have "pmm_free_set (pmm_bitmap_init bss_end ranges s) = pmm_free_set s5"
    unfolding init pmm_free_set_def using c by simp
  then show "pmm_free_frames (pmm_bitmap_init bss_end ranges s) =
       of_nat (card (pmm_free_set (pmm_bitmap_init bss_end ranges s)))"
    using c unfolding init by simp
qed

lemma pmm_bitmap_init_ok:
  assumes len: "pmm_len s" and bss: "unat bss_end + 4095 < 2 ^ 64"
  shows "pmm_inv (pmm_bitmap_init bss_end ranges s)"
proof -
  let ?s = "pmm_bitmap_init bss_end ranges s"
  have "0 \<in> frame_bytes 0 \<inter> pmm_reserved bss_end s"
    by (simp add: frame_bytes_def pmm_reserved_def)
  then have "0 \<notin> pmm_free_set ?s"
    using pmm_bitmap_init_bits(2) [OF assms, of 0 ranges]
    unfolding pmm_free_set_def pmm_frame_count by auto
  moreover have "unat (pmm_free_frames ?s) = card (pmm_free_set ?s)"
    using card_free_bound [of ?s] unfolding pmm_bitmap_init_bits(3) [OF assms]
    by (intro unat_of_nat_u64) simp
  ultimately show ?thesis using pmm_bitmap_init_bits(1) [OF assms] by (simp add: pmm_inv_def)
qed

text \<open>What is fixed once the allocator is set up: the place of the boot information.\<close>

definition pmm_static :: "pmm_st \<Rightarrow> u64 \<times> u64" where
  "pmm_static p = (pmm_mb_info p, pmm_info_end p)"

lemma pmm_static_take [simp]: "pmm_static (snd (pmm_take f p)) = pmm_static p"
  by (simp add: pmm_take_def pmm_static_def Let_def)

lemma pmm_static_alloc: "pmm_alloc_frame p = (pa, p') \<Longrightarrow> pmm_static p' = pmm_static p"
proof -
  have "pmm_static (snd (pmm_alloc_frame p)) = pmm_static p" by (simp add: pmm_alloc_frame_def Let_def split: option.split)
  then show "pmm_alloc_frame p = (pa, p') \<Longrightarrow> pmm_static p' = pmm_static p" by simp
qed

lemma pmm_count_info [simp]:
  "pmm_mb_info (pmm_count_loop f p) = pmm_mb_info p" "pmm_info_end (pmm_count_loop f p) = pmm_info_end p"
  by (induction f p rule: pmm_count_loop.induct) (simp_all add: pmm_count_loop.simps)

lemma pmm_bitmap_init_info [simp]:
  "pmm_mb_info (pmm_bitmap_init bss_end ranges p) = pmm_mb_info p"
  "pmm_info_end (pmm_bitmap_init bss_end ranges p) = pmm_info_end p"
  by (simp_all add: pmm_bitmap_init_def Let_def del: upt_rec_numeral)

section \<open>Properties\<close>

text \<open>A booted allocator for the witnesses: 128 usable megabytes from 1MB, a kernel of 64KB.\<close>

definition raw_pmm :: pmm_st where
  "raw_pmm = \<lparr>pmm_bitmap = replicate 32768 0, pmm_free_frames = 0, pmm_hint = 0, pmm_mb_info = 0x9000,
      pmm_info_end = 0x9040, pmm_max_end = 0x8100000\<rparr>"

lemma raw_pmm [simp]:
  "pmm_len raw_pmm" "pmm_mb_info raw_pmm = 0x9000" "pmm_info_end raw_pmm = 0x9040"
  unfolding pmm_len_def raw_pmm_def pmm_st.simps by simp_all

lemma demo_bss: "unat (0x110000 :: u64) + 4095 < 2 ^ 64" "unat (0x10F001 :: u64) + 4095 < 2 ^ 64"
  by simp_all

definition demo_pmm :: pmm_st where
  "demo_pmm = pmm_bitmap_init 0x110000 [\<lparr>range_base = 0x100000, range_length = 0x8000000\<rparr>]
     raw_pmm"

lemma demo_pmm_ok: "pmm_inv demo_pmm"
  unfolding demo_pmm_def by (rule pmm_bitmap_init_ok) simp_all

lemma demo_pmm_bits:
  "g < PMM_FRAME_COUNT \<Longrightarrow> pmm_bit_test g demo_pmm \<longleftrightarrow> \<not> (0x110 \<le> unat g \<and> unat g < 0x8100)"
proof -
  assume g: "g < PMM_FRAME_COUNT"
  have "frame_bytes g \<inter> ({..< 0x100000} \<union> {..< 0x110000} \<union> {0x9000 ..< 0x9040}) \<noteq> {} \<longleftrightarrow> unat g < 0x110"
  proof
    assume "frame_bytes g \<inter> ({..< 0x100000} \<union> {..< 0x110000} \<union> {0x9000 ..< 0x9040}) \<noteq> {}"
    then show "unat g < 0x110" by (auto simp: frame_bytes_def)
  next
    assume "unat g < 0x110"
    then have "unat g * 4096 \<in> frame_bytes g \<inter> ({..< 0x100000} \<union> {..< 0x110000} \<union> {0x9000 ..< 0x9040})"
      by (auto simp: frame_bytes_def)
    then show "frame_bytes g \<inter> ({..< 0x100000} \<union> {..< 0x110000} \<union> {0x9000 ..< 0x9040}) \<noteq> {}" by blast
  qed
  then have r: "frame_bytes g \<inter> pmm_reserved 0x110000 raw_pmm \<noteq> {} \<longleftrightarrow> unat g < 0x110"
    by (simp only: pmm_reserved_def raw_pmm) simp
  have u: "pmm_usable [\<lparr>range_base = 0x100000, range_length = 0x8000000\<rparr>] g \<longleftrightarrow> 0x100 \<le> unat g \<and> unat g < 0x8100"
    by (auto simp: pmm_usable_def frame_bytes_def region_bytes_def)
  show ?thesis
    unfolding demo_pmm_def pmm_bitmap_init_bits(2) [OF raw_pmm(1) demo_bss(1) g] r u by auto
qed

lemma demo_pmm_avail: "0x110000 \<in> pmm_avail demo_pmm"
  by (simp add: pmm_avail_iff pmm_consts demo_pmm_bits)

lemma demo_pmm_card: "0x7FF0 \<le> card (pmm_avail demo_pmm)"
proof -
  have u: "unat (of_nat k :: u64) = k" if "k < 0x8100" for k using that by (simp add: unat_of_nat_u64)
  have "of_nat ` {0x110..<0x8100} \<subseteq> pmm_free_set demo_pmm"
  proof
    fix g assume "g \<in> (of_nat :: nat \<Rightarrow> u64) ` {0x110..<0x8100}"
    then have "0x110 \<le> unat g" "unat g < 0x8100" using u by auto
    moreover then have "g < PMM_FRAME_COUNT" by (simp add: pmm_frame_count word_less_nat_alt)
    ultimately show "g \<in> pmm_free_set demo_pmm" using demo_pmm_bits [of g] by (simp add: pmm_free_set_def)
  qed
  moreover have "inj_on (of_nat :: nat \<Rightarrow> u64) {0x110..<0x8100}" by (rule inj_on_inverseI [of _ unat]) (use u in simp)
  ultimately have "card {0x110..<0x8100 :: nat} \<le> card (pmm_free_set demo_pmm)"
    by (metis card_image card_mono finite_u64)
  then show ?thesis by (simp add: card_avail)
qed

lemma pmm_bitmap_init_set:
  assumes "length (pmm_bitmap s) = unat PMM_BITMAP_BYTES" and "unat bss_end + 4095 < 2 ^ 64"
  shows "pmm_free_set (pmm_bitmap_init bss_end ranges s) =
      {f. f < PMM_FRAME_COUNT \<and> pmm_usable ranges f \<and> frame_bytes f \<inter> pmm_reserved bss_end s = {}} \<and>
    pmm_inv (pmm_bitmap_init bss_end ranges s)"
proof -
  have len: "pmm_len s" using assms(1) by (simp add: pmm_len_def pmm_consts)
  show ?thesis
    using pmm_bitmap_init_bits(2) [OF len assms(2), of _ ranges] pmm_bitmap_init_ok [OF len assms(2)]
    unfolding pmm_free_set_def by auto
qed

text \<open>
  (C5) Initialisation: a frame is free after \<^verbatim>\<open>pmm_bitmap_init\<close> exactly when all of it lies in one of the
  usable ranges and none of it in low memory, in the kernel image up to \<^verbatim>\<open>__bss_end\<close>, or in the boot
  information structure; the counter equals the number of free frames, frame 0 is never free.
\<close>

theorem pmm_bitmap_init_free_frames:
  assumes "length (pmm_bitmap s) = unat PMM_BITMAP_BYTES" and "unat bss_end + 4095 < 2 ^ 64"
  shows "pmm_free_set (pmm_bitmap_init bss_end ranges s) =
      {f. f < PMM_FRAME_COUNT \<and> pmm_usable ranges f \<and> frame_bytes f \<inter> pmm_reserved bss_end s = {}} \<and>
    pmm_inv (pmm_bitmap_init bss_end ranges s)"
  using assms by (rule pmm_bitmap_init_set)

theorem pmm_bitmap_init_free_frames_witness:
  "0x110 \<in> pmm_free_set (pmm_bitmap_init 0x10F001 [\<lparr>range_base = 0x100000, range_length = 0x100FFF\<rparr>]
     raw_pmm)" (is "_ \<in> pmm_free_set (pmm_bitmap_init ?b ?r ?s)")
proof -
  have "pmm_free_set (pmm_bitmap_init ?b ?r ?s) =
      {f. f < PMM_FRAME_COUNT \<and> pmm_usable ?r f \<and> frame_bytes f \<inter> pmm_reserved ?b ?s = {}}"
    using raw_pmm(1) demo_bss(2)
    by (intro conjunct1 [OF pmm_bitmap_init_free_frames]) (simp_all add: pmm_len_def pmm_consts)
  moreover have "frame_bytes 0x110 = {0x110000 ..< 0x111000}" by (simp add: frame_bytes_def)
  then have "pmm_usable ?r 0x110" "frame_bytes 0x110 \<inter> pmm_reserved ?b ?s = {}"
    by (auto simp: pmm_usable_def pmm_reserved_def region_bytes_def)
  ultimately show ?thesis by (simp add: pmm_frame_count)
qed

lemma pmm_count_avail: "pmm_inv s \<Longrightarrow> unat (pmm_free_count s) = card (pmm_avail s)"
  by (simp add: pmm_inv_def pmm_free_count_def card_avail)

lemma demo_pmm_nonempty: "pmm_avail demo_pmm \<noteq> {}"
  using demo_pmm_avail by blast

text \<open>
  Allocation: \<^verbatim>\<open>pmm_alloc_frame\<close> returns 0 and changes nothing exactly when no frame is available;
  otherwise it returns an available frame (aligned, not frame 0, below 1GB), removes that frame and no
  other from the pool, and the counter goes down by one.  The scan from the hint and the second pass
  from 0 never miss a free frame.
\<close>

lemma pmm_alloc_frame_takes_available:
  assumes "pmm_inv s"
  shows "(if pmm_avail s = {} then pmm_alloc_frame s = (0, s)
    else (let (pa, s') = pmm_alloc_frame s in
      is_frame pa \<and> pa \<in> pmm_avail s \<and> pmm_avail s' = pmm_avail s - {pa} \<and> pmm_inv s' \<and>
      unat (pmm_free_count s') + 1 = unat (pmm_free_count s)))"
proof (cases "pmm_avail s = {}")
  case True
  then show ?thesis using pmm.alloc_none [OF assms] by simp
next
  case False
  obtain pa s' where a: "pmm_alloc_frame s = (pa, s')" by force
  then have r: "pa \<in> pmm_avail s" "pmm_avail s' = pmm_avail s - {pa}" "pmm_inv s'"
    using pmm.alloc_some [OF assms False] pmm.alloc_ok [OF assms] by simp_all
  then have "0 < card (pmm_avail s)" by (auto simp: card_gt_0_iff)
  then have "unat (pmm_free_count s') + 1 = unat (pmm_free_count s)"
    using r unfolding pmm_count_avail [OF assms] pmm_count_avail [OF r(3)] by (simp add: card_Diff_singleton)
  then show ?thesis using False a r pmm.avail_frames [OF assms r(1)] by simp
qed

text \<open>
  (C22) Release: a valid frame address returns to the pool (a frame that is free already stays free and
  is not counted twice), and address 0, unaligned addresses and addresses from 1GB on are ignored.
  The counter is always the number of available frames.
\<close>

theorem pmm_free_frame_returns_frame:
  assumes "pmm_inv s"
  shows "pmm_avail (pmm_free_frame pa s) = (if is_frame pa then insert pa (pmm_avail s) else pmm_avail s) \<and>
    (\<not> is_frame pa \<or> pa \<in> pmm_avail s \<longrightarrow> pmm_free_frame pa s = s) \<and>
    unat (pmm_free_count (pmm_free_frame pa s)) = card (pmm_avail (pmm_free_frame pa s)) \<and>
    pmm_inv (pmm_free_frame pa s)"
proof -
  have bad: "\<not> is_frame pa \<Longrightarrow> pmm_free_frame pa s = s"
    using pmm_free_ignores [of pa s] by (auto simp: is_frame_def not_less)
  moreover have "pa \<in> pmm_avail s \<Longrightarrow> pmm_free_frame pa s = s"
    by (auto simp: pmm_avail_iff pmm_free_frame_def)
  ultimately show ?thesis
    using pmm.release_avail [OF assms, of pa] pmm.release_ok [OF assms, of pa]
      pmm_count_avail [OF pmm.release_ok [OF assms, of pa]]
    by (cases "is_frame pa") auto
qed

theorem pmm_free_frame_returns_frame_witness:
  "pmm_avail (pmm_free_frame 0x1000 demo_pmm) = insert 0x1000 (pmm_avail demo_pmm)"
  using pmm_free_frame_returns_frame [OF demo_pmm_ok, of "0x1000"] by (simp add: is_frame_def PMM_MAX_PHYS_def)

text \<open>
  No frame is handed out twice: \<open>n\<close> successive allocations return \<open>n\<close> different available frames
  as long as the pool holds that many, and leave exactly the others.
\<close>

lemma pmm_alloc_frames_distinct:
  assumes "pmm_inv s" and "n \<le> unat (pmm_free_count s)"
  shows "case alloc_n pmm_alloc_frame n s of (pas, s') \<Rightarrow>
    length pas = n \<and> distinct pas \<and> set pas \<subseteq> pmm_avail s \<and> pmm_avail s' = pmm_avail s - set pas \<and> pmm_inv s'"
  using pmm.alloc_n_distinct [OF assms(1)] assms(2) unfolding pmm_count_avail [OF assms(1)]
  by (auto simp: case_prod_unfold)

text \<open>
  Allocation and release are inverse: freeing the frame just allocated restores the pool and the
  count.
\<close>

lemma pmm_alloc_free_roundtrip:
  assumes "pmm_inv s" and "fst (pmm_alloc_frame s) \<noteq> 0"
  shows "pmm_avail (pmm_free_frame (fst (pmm_alloc_frame s)) (snd (pmm_alloc_frame s))) = pmm_avail s \<and>
    pmm_free_count (pmm_free_frame (fst (pmm_alloc_frame s)) (snd (pmm_alloc_frame s))) = pmm_free_count s"
  using pmm.alloc_release [OF assms] pmm_count_avail [OF assms(1)]
    pmm_count_avail [OF pmm.release_ok [OF pmm.alloc_ok [OF assms(1)]]]
  by (simp add: word_unat_eq_iff)

end
