(* ===== verification/Machine.thy ===== *)
theory Machine
  imports Vga Pmm
begin

text \<open>
  The machine the memory management code runs on.  The record \<^verbatim>\<open>sys\<close> holds the terminal with the
  history of port accesses, physical memory, the control registers CR3 and CR2, the translation
  lookaside buffer (a cached frame per virtual page) and the statics of the frame allocator.  The
  kernel dereferences physical addresses directly because everything below 1GB is identity mapped, so
  a dereference is an access to \<^verbatim>\<open>mem\<close>.  The statics of the C files live in the kernel image, which the
  allocator never hands out, and are kept outside \<^verbatim>\<open>mem\<close>.  The function \<^verbatim>\<open>mmu\<close> is the page walk of the
  processor (4-level paging, with 1GB and 2MB pages): it is the specification that the page-table
  code is measured against.
\<close>

record sys =
  con :: vga_st
  mem :: bytes
  cr3 :: u64
  cr2 :: u64
  tlb :: "u64 \<Rightarrow> u64 option"
  pmm :: pmm_st

text \<open>The interrupt stack frame \<^verbatim>\<open>regs_t\<close> of \<^verbatim>\<open>src/src/idt.h\<close>.\<close>

record regs_t =
  r15 :: u64
  r14 :: u64
  r13 :: u64
  r12 :: u64
  r11 :: u64
  r10 :: u64
  r9 :: u64
  r8 :: u64
  rbp :: u64
  rdi :: u64
  rsi :: u64
  rdx :: u64
  rcx :: u64
  rbx :: u64
  rax :: u64
  vector :: u64
  error_code :: u64
  rip :: u64
  seg_cs :: u64
  rflags :: u64

definition read_cr3 :: "'a sys_scheme \<Rightarrow> u64" where
  "read_cr3 s = cr3 s"

definition write_cr3 :: "u64 \<Rightarrow> 'a sys_scheme \<Rightarrow> 'a sys_scheme" where
  "write_cr3 v s = s\<lparr>cr3 := v, tlb := \<lambda>_. None\<rparr>"

definition invlpg :: "u64 \<Rightarrow> 'a sys_scheme \<Rightarrow> 'a sys_scheme" where
  "invlpg va s = s\<lparr>tlb := (tlb s)(va AND NOT 4095 := None)\<rparr>"

definition cstr :: "string \<Rightarrow> u8 list" where
  "cstr cs = map of_char cs"

text \<open>A call of \<^verbatim>\<open>vga_printf\<close>; the formats of the kernel match their arguments, so it returns.\<close>

definition kprintf :: "string \<Rightarrow> varg list \<Rightarrow> 'a sys_scheme \<Rightarrow> 'a sys_scheme" where
  "kprintf f args s = (case vga_printf (cstr f) args (con s) of Some c \<Rightarrow> s\<lparr>con := c\<rparr> | None \<Rightarrow> s)"

definition alloc_frame :: "'a sys_scheme \<Rightarrow> u64 \<times> 'a sys_scheme" where
  "alloc_frame s = (let (pa, p) = pmm_alloc_frame (pmm s) in (pa, s\<lparr>pmm := p\<rparr>))"

definition free_frame :: "u64 \<Rightarrow> 'a sys_scheme \<Rightarrow> 'a sys_scheme" where
  "free_frame pa s = s\<lparr>pmm := pmm_free_frame pa (pmm s)\<rparr>"

text \<open>The 64-bit slot \<open>table[i]\<close> of a table of 64-bit entries.\<close>

definition slot :: "u64 \<Rightarrow> u64 \<Rightarrow> u64" where
  "slot table i = table + 8 * i"

definition zero_table :: "u64 \<Rightarrow> bytes \<Rightarrow> bytes" where
  "zero_table t m = fold (\<lambda>i m. wr64 m (slot t (of_nat i)) 0) [0..<512] m"

section \<open>The page walk of the processor\<close>

definition pte_present :: "u64 \<Rightarrow> bool" where "pte_present e \<longleftrightarrow> e AND 1 \<noteq> 0"
definition pte_huge :: "u64 \<Rightarrow> bool" where "pte_huge e \<longleftrightarrow> e AND 0x80 \<noteq> 0"
definition pte_frame :: "u64 \<Rightarrow> u64" where "pte_frame e = e AND 0x000FFFFFFFFFF000"

text \<open>
  Level 4 is the root table, level 1 the page table.  \<^verbatim>\<open>mmu_leaf m k t va\<close> walks from the table \<^verbatim>\<open>t\<close> of level \<^verbatim>\<open>k\<close>
  to the entry that maps \<^verbatim>\<open>va\<close>, and gives its level and value; an entry of level 2 or 3 with the page-size bit
  maps a large page, at level 4 that bit is reserved and the access faults.
\<close>

definition pt_index :: "nat \<Rightarrow> u64 \<Rightarrow> u64" where
  "pt_index k va = drop_bit (12 + 9 * (k - 1)) va AND 0x1FF"

definition leaf_addr :: "nat \<Rightarrow> u64 \<Rightarrow> u64 \<Rightarrow> u64" where
  "leaf_addr k e va = (e AND mask 52 AND NOT (mask (12 + 9 * (k - 1)))) OR (va AND mask (12 + 9 * (k - 1)))"

fun mmu_leaf :: "bytes \<Rightarrow> nat \<Rightarrow> u64 \<Rightarrow> u64 \<Rightarrow> (nat \<times> u64) option" where
  "mmu_leaf m 0 t va = None"
| "mmu_leaf m (Suc k) t va =
     (let e = rd64 m (slot t (pt_index (Suc k) va)) in
      if \<not> pte_present e then None
      else if k = 0 \<or> pte_huge e then (if k = 3 then None else Some (Suc k, e))
      else mmu_leaf m k (pte_frame e) va)"

definition mmu :: "bytes \<Rightarrow> u64 \<Rightarrow> u64 \<Rightarrow> u64 option" where
  "mmu m root va = map_option (\<lambda>(k, e). leaf_addr k e va) (mmu_leaf m 4 (pte_frame root) va)"

section \<open>Aligned slots\<close>

lemma and_7_nat: "unat (x AND 7 :: u64) = unat x mod 8"
  using and_mask_nat [of x 3] by (simp add: mask_numeral)

lemma aligned8_iff: "x AND 7 = (0 :: u64) \<longleftrightarrow> 8 dvd unat x"
  by (metis and_7_nat mod_0_imp_dvd dvd_imp_mod_0 unat_0 unat_eq_zero)

lemma aligned4096_iff: "x AND 4095 = (0 :: u64) \<longleftrightarrow> 4096 dvd unat x"
  by (metis and_4095_nat mod_0_imp_dvd dvd_imp_mod_0 unat_0 unat_eq_zero)

lemma unat_diff_dvd8:
  assumes "8 dvd unat (a :: u64)" "8 dvd unat b"
  shows "8 dvd unat (a - b)"
proof -
  have "unat (a - b) = (if unat b \<le> unat a then unat a - unat b else unat a + 2 ^ 64 - unat b)"
    using unat_sub_if' [of a b] by simp
  then show ?thesis using assms by (simp add: dvd_diff_nat)
qed

lemma aligned_apart:
  assumes "a AND 7 = 0" "b AND 7 = 0" "a \<noteq> b"
  shows "apart a 8 b 8"
proof -
  have "8 \<le> x - y" if "x AND 7 = 0" "y AND 7 = 0" "x \<noteq> y" for x y :: u64
  proof -
    have "8 dvd unat (x - y)" using that by (intro unat_diff_dvd8) (simp_all add: aligned8_iff)
    moreover have "0 < unat (x - y)" using that(3) by (simp add: unat_gt_0)
    ultimately have "8 \<le> unat (x - y)" by (rule dvd_imp_le)
    then show ?thesis by (simp add: word_le_nat_alt)
  qed
  then show ?thesis using assms by (auto simp: apart_def)
qed

lemma rd64_wr64_aligned:
  "a AND 7 = 0 \<Longrightarrow> b AND 7 = 0 \<Longrightarrow> rd64 (wr64 m a v) b = (if b = a then v else rd64 m b)"
  by (auto simp: rd64_wr64_apart aligned_apart)

lemma slot_nat:
  assumes "t AND 4095 = 0" "i < 512"
  shows "unat (slot t i) = unat t + 8 * unat i"
proof -
  have i: "unat i < 512" using assms(2) by (simp add: word_less_nat_alt)
  obtain k where k: "unat t = 4096 * k" using assms(1) by (auto simp: aligned4096_iff elim: dvdE)
  have "k < 2 ^ 52" using unat_u64_bound [of t] k by simp
  then have b: "unat t + 8 * unat i < 2 ^ 64" using i k by simp
  have "unat (8 * i) = 8 * unat i" using i by (simp add: unat_word_ariths)
  then show ?thesis using b by (simp add: slot_def unat_u64_add)
qed

lemma slot_aligned: "t AND 4095 = 0 \<Longrightarrow> i < 512 \<Longrightarrow> slot t i AND 7 = 0"
  by (auto simp: aligned8_iff slot_nat aligned4096_iff elim: dvdE)

lemma slot_inj:
  assumes "t AND 4095 = 0" "i < 512" "t' AND 4095 = 0" "i' < 512"
  shows "slot t i = slot t' i' \<longleftrightarrow> t = t' \<and> i = i'"
proof
  assume "slot t i = slot t' i'"
  then have eq: "unat t + 8 * unat i = unat t' + 8 * unat i'" using assms slot_nat by metis
  obtain k k' where k: "unat t = 4096 * k" "unat t' = 4096 * k'"
    using assms by (auto simp: aligned4096_iff elim!: dvdE)
  have i: "unat i < 512" "unat i' < 512" using assms by (simp_all add: word_less_nat_alt)
  then have "k = (unat t + 8 * unat i) div 4096" "k' = (unat t' + 8 * unat i') div 4096"
    using k by simp_all
  then have "k = k'" using eq by simp
  then show "t = t' \<and> i = i'" using eq k by (simp add: word_unat_eq_iff)
qed simp

lemma rd_slot_wr:
  assumes "t AND 4095 = 0" "i < 512" "t' AND 4095 = 0" "i' < 512"
  shows "rd64 (wr64 m (slot t i) v) (slot t' i') = (if t' = t \<and> i' = i then v else rd64 m (slot t' i'))"
  using assms slot_inj [of t' i' t i] by (simp add: rd64_wr64_aligned slot_aligned)

lemma zero_table_prefix:
  assumes "t AND 4095 = 0" "t' AND 4095 = 0" "i' < 512" "n \<le> 512"
  shows "rd64 (fold (\<lambda>i m. wr64 m (slot t (of_nat i)) 0) [0..<n] m) (slot t' i') =
    (if t' = t \<and> unat i' < n then 0 else rd64 m (slot t' i'))"
  using assms(4)
proof (induction n)
  case (Suc n)
  have u: "unat (of_nat n :: u64) = n" using Suc.prems by (simp add: unat_of_nat_u64)
  then have "(of_nat n :: u64) < 512" using Suc.prems by (simp add: word_less_nat_alt)
  moreover have "i' = of_nat n \<longleftrightarrow> unat i' = n" using u by (auto simp: word_unat_eq_iff)
  ultimately show ?case using Suc assms(1-3) by (auto simp: rd_slot_wr)
qed simp

lemma rd_zero_table:
  assumes "t AND 4095 = 0" "t' AND 4095 = 0" "i' < 512"
  shows "rd64 (zero_table t m) (slot t' i') = (if t' = t then 0 else rd64 m (slot t' i'))"
  using zero_table_prefix [OF assms, of 512] assms(3)
  unfolding zero_table_def by (simp add: word_less_nat_alt)

lemma pt_index_bound [simp]: "pt_index k va < 512"
proof -
  have "x AND 0x1FF < 512" for x :: u64
    using and_mask_nat [of x 9] by (simp add: mask_numeral word_less_nat_alt)
  then show ?thesis by (simp add: pt_index_def)
qed

lemma pte_frame_aligned [simp]: "pte_frame e AND 4095 = 0"
  by (simp add: pte_frame_def and.assoc)

end
