(* ===== verification/Vga_Format.thy ===== *)
theory Vga_Format
  imports Machine
begin

text \<open>
  What \<^verbatim>\<open>vga_printf\<close> prints.  The reference is a relation \<^verbatim>\<open>prints\<close> between a format, the arguments and the text: it describes
  the syntax of a format by a grammar, not by scanning, and prints numbers by division of natural numbers; it knows
  nothing of the terminal.  \<^verbatim>\<open>vga_printf\<close> prints this text, and has no defined behaviour where there is none.  The relation
  \<^verbatim>\<open>typed\<close>, over the same grammar, gives the types of the arguments that a format asks for.
\<close>

section \<open>The text of a conversion\<close>

definition digit_text :: "bool \<Rightarrow> nat \<Rightarrow> u8" where
  "digit_text upper n = cstr (if upper then ''0123456789ABCDEF'' else ''0123456789abcdef'') ! n"

fun num_text :: "nat \<Rightarrow> bool \<Rightarrow> nat \<Rightarrow> u8 list" where
  "num_text base upper n =
     (if base < 2 \<or> n < base then [digit_text upper n]
      else num_text base upper (n div base) @ [digit_text upper (n mod base)])"

declare num_text.simps [simp del]

definition padded :: "nat \<Rightarrow> u8 \<Rightarrow> u8 list \<Rightarrow> u8 list" where
  "padded width pad ds = replicate (width - length ds) pad @ ds"

definition c_text :: "u8 list \<Rightarrow> u8 list" where "c_text t = takeWhile (\<lambda>c. c \<noteq> 0) t"

definition conv_text :: "u8 \<Rightarrow> bool \<Rightarrow> nat \<Rightarrow> u8 \<Rightarrow> varg list \<Rightarrow> (u8 list \<times> varg list) option" where
  "conv_text c is64 width pad args =
     (let low = (\<lambda>v :: u64. if is64 then v else ucast (ucast v :: u32)) in
      if c = 0x25 then Some ([0x25], args)
      else if c \<in> {0x63, 0x73, 0x64, 0x75, 0x78, 0x58, 0x70} then
        (case args of
           [] \<Rightarrow> None
         | VStr t # r \<Rightarrow> if c = 0x73 then Some (c_text t, r) else None
         | VInt v # r \<Rightarrow>
             if c = 0x63 then Some ([ucast v], r)
             else if c = 0x64 then
               (let n = (if is64 then sint v else sint (ucast v :: u32))
                in Some ((if n < 0 then [0x2D] else []) @ padded width pad (num_text 10 False (nat \<bar>n\<bar>)), r))
             else if c = 0x75 then Some (padded width pad (num_text 10 False (unat (low v))), r)
             else if c = 0x78 then Some (padded width pad (num_text 16 False (unat (low v))), r)
             else if c = 0x58 then Some (padded width pad (num_text 16 True (unat (low v))), r)
             else if c = 0x70 then Some ([0x30, 0x78] @ padded 16 0x30 (num_text 16 False (unat v)), r)
             else None)
      else Some ([], args))"

section \<open>The grammar of a format\<close>

definition is_digit :: "u8 \<Rightarrow> bool" where "is_digit c \<longleftrightarrow> 0x30 \<le> c \<and> c \<le> 0x39"

definition decimal :: "u8 list \<Rightarrow> nat" where
  "decimal ds = (\<Sum>i < length ds. (unat (ds ! i) - 48) * 10 ^ (length ds - 1 - i))"

text \<open>
  \<^verbatim>\<open>options z w i opts c\<close>: what may stand between \<open>%\<close> and the conversion character \<open>c\<close>, namely a zero flag, a width and
  one of the length modifiers \<open>l\<close>, \<open>z\<close>, \<open>ll\<close>, \<open>zl\<close>, each as long as possible.  The end of the format counts as the character 0.
\<close>

definition options :: "bool \<Rightarrow> nat \<Rightarrow> bool \<Rightarrow> u8 list \<Rightarrow> u8 \<Rightarrow> bool" where
  "options zero width long opts c \<longleftrightarrow>
     (\<exists>ds len. opts = (if zero then [0x30] else []) @ ds @ len \<and> (\<forall>d \<in> set ds. is_digit d) \<and> width = decimal ds \<and>
        len \<in> {[], [0x6C], [0x7A], [0x6C, 0x6C], [0x7A, 0x6C]} \<and> (long \<longleftrightarrow> len \<noteq> []) \<and>
        (\<not> zero \<and> ds \<noteq> [] \<longrightarrow> hd ds \<noteq> 0x30) \<and>
        (len = [] \<longrightarrow> \<not> is_digit c \<and> c \<notin> {0x6C, 0x7A}) \<and> (length len = 1 \<longrightarrow> c \<noteq> 0x6C))"

abbreviation at_end :: "u8 list \<Rightarrow> bool" where "at_end f \<equiv> f = [] \<or> hd f = 0"

text \<open>The width has to fit an \<^verbatim>\<open>int\<close>.  A format that ends within a directive prints nothing for it.\<close>

inductive prints :: "u8 list \<Rightarrow> varg list \<Rightarrow> u8 list \<Rightarrow> bool" where
  finish: "at_end f \<Longrightarrow> prints f args []"
| plain: "c \<noteq> 0 \<Longrightarrow> c \<noteq> 0x25 \<Longrightarrow> prints f args t \<Longrightarrow> prints (c # f) args (c # t)"
| conv: "options z w i opts c \<Longrightarrow> w < 2 ^ 31 \<Longrightarrow> c \<noteq> 0 \<Longrightarrow> conv_text c i w (if z then 0x30 else 0x20) args = Some (t, args') \<Longrightarrow>
    prints f args' u \<Longrightarrow> prints (0x25 # opts @ c # f) args (t @ u)"
| cut: "options z w i opts 0 \<Longrightarrow> w < 2 ^ 31 \<Longrightarrow> at_end f \<Longrightarrow> prints (0x25 # opts @ f) args []"

section \<open>Argument types of a format\<close>

datatype fty = TInt | TStr

fun arg_ok :: "fty \<Rightarrow> varg \<Rightarrow> bool" where
  "arg_ok TInt (VInt v) = True"
| "arg_ok TStr (VStr t) = True"
| "arg_ok _ _ = False"

fun args_ok :: "fty list \<Rightarrow> varg list \<Rightarrow> bool" where
  "args_ok [] as = True"
| "args_ok (t # ts) [] = False"
| "args_ok (t # ts) (a # as) = (arg_ok t a \<and> args_ok ts as)"

definition conv_types :: "u8 \<Rightarrow> fty list" where
  "conv_types c = (if c = 0x73 then [TStr] else if c \<in> {0x63, 0x64, 0x75, 0x78, 0x58, 0x70} then [TInt] else [])"

inductive typed :: "u8 list \<Rightarrow> fty list \<Rightarrow> bool" where
  finish: "at_end f \<Longrightarrow> typed f []"
| plain: "c \<noteq> 0 \<Longrightarrow> c \<noteq> 0x25 \<Longrightarrow> typed f ts \<Longrightarrow> typed (c # f) ts"
| conv: "options z w i opts c \<Longrightarrow> w < 2 ^ 31 \<Longrightarrow> c \<noteq> 0 \<Longrightarrow> typed f ts \<Longrightarrow> typed (0x25 # opts @ c # f) (conv_types c @ ts)"
| cut: "options z w i opts 0 \<Longrightarrow> w < 2 ^ 31 \<Longrightarrow> at_end f \<Longrightarrow> typed (0x25 # opts @ f) []"

section \<open>Scanning\<close>

text \<open>The scanners of the code find exactly the parts that the grammar describes.\<close>

lemma decimal_Nil [simp]: "decimal [] = 0"
  by (simp add: decimal_def)

lemma decimal_Cons: "decimal (d # ds) = (unat d - 48) * 10 ^ length ds + decimal ds"
  by (simp add: decimal_def sum.lessThan_Suc_shift del: sum.lessThan_Suc)

lemma scan_width_digits:
  "(\<forall>d \<in> set ds. is_digit d) \<Longrightarrow> at_end r \<or> \<not> is_digit (hd r) \<Longrightarrow> w < 2 ^ 31 \<Longrightarrow>
     scan_width (int w) (ds @ r) = (if w * 10 ^ length ds + decimal ds < 2 ^ 31 then Some (int (w * 10 ^ length ds + decimal ds), r) else None)"
proof (induction ds arbitrary: w)
  case Nil
  then show ?case by (cases r) (auto simp: is_digit_def)
next
  case (Cons d ds)
  let ?w = "w * 10 + (unat d - 48)"
  have d: "0x30 \<le> d" "d \<le> 0x39" using Cons.prems(1) by (simp_all add: is_digit_def)
  have "uint d - 0x30 = int (unat d - 48)" using d(1) by (simp add: word_le_nat_alt of_nat_diff)
  then have e: "int w * 10 + (uint d - 0x30) = int ?w" by simp
  have v: "w * 10 ^ length (d # ds) + decimal (d # ds) = ?w * 10 ^ length ds + decimal ds" by (simp add: decimal_Cons algebra_simps)
  show ?case
  proof (cases "?w < 2 ^ 31")
    case True
    have "scan_width (int w) ((d # ds) @ r) = scan_width (int ?w) (ds @ r)"
      using d True unfolding append_Cons scan_width.simps e INT_MAX_def by simp
    then show ?thesis using Cons.IH [of ?w] Cons.prems True unfolding v by simp
  next
    case False
    then have "2 ^ 31 \<le> ?w * 1" by simp
    also have "\<dots> \<le> ?w * 10 ^ length ds" by (rule mult_le_mono2) simp
    finally have "\<not> ?w * 10 ^ length ds + decimal ds < 2 ^ 31" by simp
    then show ?thesis using d False unfolding v append_Cons scan_width.simps e INT_MAX_def by simp
  qed
qed

abbreviation next_char :: "u8 list \<Rightarrow> u8" where "next_char r \<equiv> case r of [] \<Rightarrow> 0 | c # _ \<Rightarrow> c"

lemma scan_options:
  assumes "options z w i opts (next_char r)"
  obtains p1 p2 where "scan_zero (opts @ r) = (z, p1)"
    "scan_width 0 p1 = (if w < 2 ^ 31 then Some (int w, p2) else None)" "scan_length p2 = (i, r)"
proof -
  obtain ds len where o: "opts = (if z then [0x30] else []) @ ds @ len" "\<forall>d \<in> set ds. is_digit d" "w = decimal ds"
    "len \<in> {[], [0x6C], [0x7A], [0x6C, 0x6C], [0x7A, 0x6C]}" "i \<longleftrightarrow> len \<noteq> []" "\<not> z \<and> ds \<noteq> [] \<longrightarrow> hd ds \<noteq> 0x30"
    "len = [] \<longrightarrow> \<not> is_digit (next_char r) \<and> next_char r \<notin> {0x6C, 0x7A}" "length len = 1 \<longrightarrow> next_char r \<noteq> 0x6C"
    using assms unfolding options_def by blast
  have nd: "at_end (len @ r) \<or> \<not> is_digit (hd (len @ r))" using o(4,7) by (cases r) (auto simp: is_digit_def)
  have "scan_zero (opts @ r) = (z, ds @ len @ r)"
  proof (cases z)
    case False
    then show ?thesis using o(1,4,6,7) by (cases ds; cases r) (auto simp: scan_zero_def is_digit_def)
  qed (simp add: o(1) scan_zero_def)
  moreover have "scan_width 0 (ds @ len @ r) = (if w < 2 ^ 31 then Some (int w, len @ r) else None)"
    using scan_width_digits [OF o(2) nd, of 0] by (simp add: o(3))
  moreover have "scan_length (len @ r) = (i, r)" using o(4,5,7,8) by (cases r) (auto simp: scan_length_def)
  ultimately show thesis by (rule that)
qed

lemma scanned_options:
  assumes "scan_zero p = (z, p1)" "scan_width 0 p1 = Some (w, p2)" "scan_length p2 = (i, p3)"
  obtains opts where "p = opts @ p3" "options z (nat w) i opts (next_char p3)" "nat w < 2 ^ 31" "0 \<le> w"
proof -
  define ds where "ds = takeWhile is_digit p1"
  define r where "r = dropWhile is_digit p1"
  have p1: "p1 = ds @ r" by (simp add: ds_def r_def)
  have dg: "\<forall>d \<in> set ds. is_digit d" by (auto simp: ds_def dest: set_takeWhileD)
  have nd: "at_end r \<or> \<not> is_digit (hd r)" using hd_dropWhile [of is_digit p1] by (auto simp: r_def)
  have w: "p2 = r" "w = int (decimal ds)" "decimal ds < 2 ^ 31"
    using scan_width_digits [OF dg nd, of 0] assms(2) by (auto simp: p1 split: if_splits)
  obtain len where len: "r = len @ p3" "len \<in> {[], [0x6C], [0x7A], [0x6C, 0x6C], [0x7A, 0x6C]}" "i \<longleftrightarrow> len \<noteq> []"
    "len = [] \<longrightarrow> next_char p3 \<notin> {0x6C, 0x7A}" "length len = 1 \<longrightarrow> next_char p3 \<noteq> 0x6C"
    using assms(3) unfolding w(1) by (auto simp: scan_length_def split: list.splits if_splits)
  have c: "len = [] \<longrightarrow> \<not> is_digit (next_char p3)" using nd len(1) by (cases p3) (auto simp: is_digit_def)
  have p: "p = (if z then [0x30] else []) @ p1" "\<not> z \<longrightarrow> p1 = [] \<or> hd p1 \<noteq> 0x30"
    using assms(1) by (auto simp: scan_zero_def split: list.splits if_splits)
  then have "\<not> z \<and> ds \<noteq> [] \<longrightarrow> hd ds \<noteq> 0x30" by (auto simp: p1)
  then have "options z (decimal ds) i ((if z then [0x30] else []) @ ds @ len) (next_char p3)"
    unfolding options_def by (intro exI [of _ ds] exI [of _ len] conjI refl dg len(2-5)) (use c len(4) in blast)+
  then show thesis using w(2,3) len(1) by (intro that) (simp_all add: p(1) p1)
qed

section \<open>The formatter as a function\<close>

text \<open>With the scanners of the code, to compute the text of a given format.\<close>

function printf_text :: "u8 list \<Rightarrow> varg list \<Rightarrow> u8 list option" where
  "printf_text [] args = Some []"
| "printf_text (c # p) args =
     (if c = 0 then Some []
      else if c \<noteq> 0x25 then map_option (Cons c) (printf_text p args)
      else
        (let (zero_pad, p1) = scan_zero p in
         case scan_width 0 p1 of
           None \<Rightarrow> None
         | Some (width, p2) \<Rightarrow>
             (let (is64, p3) = scan_length p2;
                  pad = (if zero_pad then 0x30 else 0x20)
              in case p3 of
                   [] \<Rightarrow> Some []
                 | cv # p4 \<Rightarrow>
                     if cv = 0 then Some []
                     else (case conv_text cv is64 (nat width) pad args of
                             None \<Rightarrow> None
                           | Some (t, args') \<Rightarrow> map_option ((@) t) (printf_text p4 args')))))"
  by pat_completeness auto
termination
  by (relation "measure (\<lambda>(p, args). length p)") (auto dest: scan_all_length)

lemma printf_text_end: "at_end f \<Longrightarrow> printf_text f args = Some []"
  by (cases f) auto

lemma printf_text_options:
  assumes "options z w i opts (next_char r)"
  shows "printf_text (0x25 # opts @ r) args =
    (if \<not> w < 2 ^ 31 then None
     else case r of [] \<Rightarrow> Some []
          | c # f \<Rightarrow> if c = 0 then Some []
                    else case conv_text c i w (if z then 0x30 else 0x20) args of None \<Rightarrow> None
                         | Some (t, args') \<Rightarrow> map_option ((@) t) (printf_text f args'))"
proof -
  obtain p1 p2 where "scan_zero (opts @ r) = (z, p1)" "scan_width 0 p1 = (if w < 2 ^ 31 then Some (int w, p2) else None)"
    "scan_length p2 = (i, r)" by (rule scan_options [OF assms])
  then show ?thesis by (auto split: list.split)
qed

lemma options_end: "at_end r \<Longrightarrow> options z w i opts 0 \<Longrightarrow> options z w i opts (next_char r)"
  by (cases r) auto

lemma prints_text: "prints f args t \<Longrightarrow> printf_text f args = Some t"
proof (induction rule: prints.induct)
  case (conv z w i opts c args t args' f u)
  then show ?case using printf_text_options [of z w i opts "c # f" args] by simp
next
  case (cut z w i opts f args)
  then show ?case using printf_text_options [OF options_end [OF cut(3,1)], of args] by (cases f) auto
qed (simp_all add: printf_text_end)

lemma text_prints: "printf_text f args = Some t \<Longrightarrow> prints f args t"
proof (induction f args arbitrary: t rule: printf_text.induct)
  case (1 args)
  then show ?case by (simp add: prints.finish)
next
  case (2 c p args)
  show ?case
  proof (cases "c = 0 \<or> c \<noteq> 0x25")
    case True
    then show ?thesis using 2 by (auto intro: prints.finish prints.plain split: if_splits)
  next
    case False
    then have c: "c = 0x25" by simp
    obtain z p1 where z: "scan_zero p = (z, p1)" by force
    from 2(3) obtain w p2 where w: "scan_width 0 p1 = Some (w, p2)" by (auto simp: c z split: option.splits)
    obtain i p3 where i: "scan_length p2 = (i, p3)" by force
    obtain opts where o: "p = opts @ p3" "options z (nat w) i opts (next_char p3)" "nat w < 2 ^ 31" "0 \<le> w"
      by (rule scanned_options [OF z w i])
    show ?thesis
    proof (cases "at_end p3")
      case True
      then have "t = []" "options z (nat w) i opts 0" using 2(3) o(2) by (cases p3; simp add: c z w i)+
      then show ?thesis using prints.cut [OF _ o(3) True] by (simp add: c o(1))
    next
      case False
      then obtain cv p4 where p3: "p3 = cv # p4" "cv \<noteq> 0" by (cases p3) auto
      from 2(3) obtain x args' u where k: "conv_text cv i (nat w) (if z then 0x30 else 0x20) args = Some (x, args')"
        "printf_text p4 args' = Some u" "t = x @ u" by (auto simp: c z w i p3 split: option.splits)
      have "prints p4 args' u" using 2(2) [OF _ _ z [symmetric] refl w refl i [symmetric] refl refl p3 k(1) refl k(2)] c by simp
      then show ?thesis using prints.conv [OF _ o(3) p3(2) k(1)] o(2) by (simp add: c o(1) p3(1) k(3))
    qed
  qed
qed

lemma prints_iff: "prints f args t \<longleftrightarrow> printf_text f args = Some t"
  using prints_text text_prints by blast

section \<open>Numbers\<close>

lemma length_num_text:
  assumes "2 \<le> base"
  shows "n < base ^ Suc k \<Longrightarrow> length (num_text base upper n) \<le> Suc k"
proof (induction k arbitrary: n)
  case 0
  then show ?case by (simp add: num_text.simps)
next
  case (Suc k)
  have "n div base < base ^ Suc k" using Suc.prems assms by (simp add: less_mult_imp_div_less mult.commute)
  from Suc.IH [OF this] show ?case by (subst num_text.simps) simp
qed

lemma digit_text_char:
  assumes "n < 16"
  shows "digit_char (of_nat n) upper = digit_text upper n"
proof -
  have "\<forall>u \<in> set [True, False]. \<forall>k \<in> set [0..<16]. digit_char (of_nat k) u = digit_text u k" by code_simp
  then show ?thesis using assms by (cases upper) (auto simp del: upt_rec_numeral)
qed

lemma put_uint_digits_num_text:
  assumes "2 \<le> unat base" "unat base \<le> 16"
  shows "0 < val \<Longrightarrow> length ds + length (num_text (unat base) upper (unat val)) \<le> 24 \<Longrightarrow>
    put_uint_digits val base upper ds = Some (ds @ rev (num_text (unat base) upper (unat val)))"
proof (induction "unat val" arbitrary: val ds rule: less_induct)
  case less
  have b0: "base \<noteq> 0" using assms by auto
  have q: "unat (val div base) = unat val div unat base" "unat (val mod base) = unat val mod unat base"
    by (simp_all add: unat_div_distrib unat_mod_distrib)
  have m: "(of_nat (unat val mod unat base) :: u64) = val mod base" unfolding q(2) [symmetric] by simp
  let ?d = "digit_char (val mod base) upper"
  show ?case
  proof (cases "unat val < unat base")
    case True
    then have "val div base = 0" "val mod base = val" "num_text (unat base) upper (unat val) = [digit_char val upper]"
      using q assms digit_text_char [of "unat val" upper] by (simp_all add: word_unat_eq_iff num_text.simps)
    then show ?thesis using less.prems b0
      by (subst put_uint_digits.simps) (simp add: put_uint_digits.simps [of 0])
  next
    case False
    have t: "num_text (unat base) upper (unat val) = num_text (unat base) upper (unat (val div base)) @ [?d]"
      using False assms digit_text_char [of "unat val mod unat base" upper] order_less_le_trans [OF mod_less_divisor assms(2)]
      by (subst num_text.simps) (simp add: q(1) m)
    have lt: "unat (val div base) < unat val"
      using assms less.prems(1) by (simp add: q(1) word_less_nat_alt)
    have "0 < unat (val div base)" using False assms by (simp add: q(1) div_greater_zero_iff)
    then have "0 < val div base" by (simp add: word_less_nat_alt)
    from less.hyps [OF lt this, of "ds @ [?d]"] less.prems t b0 show ?thesis
      by (subst put_uint_digits.simps) simp
  qed
qed

lemma vga_put_uint_text:
  assumes "base = 10 \<or> base = 16"
  shows "vga_put_uint val base width pad upper s = Some (fold vga_putchar (padded (nat width) pad (num_text (unat base) upper (unat val))) s)"
proof -
  have b: "2 \<le> unat base" "10 \<le> unat base" "unat base \<le> 16" using assms by auto
  have "unat val < 10 ^ Suc 19" using unat_u64_bound [of val] by simp
  then have "unat val < unat base ^ Suc 19" using b(2) by (meson less_le_trans power_mono zero_le)
  from length_num_text [OF b(1) this] have l: "length (num_text (unat base) upper (unat val)) \<le> 20" by simp
  have z: "num_text (unat base) upper 0 = [0x30]" using b by (simp add: num_text.simps digit_text_def cstr_def)
  show ?thesis
    using put_uint_digits_num_text [OF b(1,3), of val "[]" upper] l z
    by (auto simp: vga_put_uint_def padded_def fold_const_upt fold_replicate word_neq_0_conv)
qed

lemma vga_puts_text: "vga_puts t s = fold vga_putchar (c_text t) s"
  by (induction t s rule: vga_puts.induct) (simp_all add: c_text_def)

lemma nat_abs_sint: "v <s 0 \<Longrightarrow> unat (NOT v + 1) = nat \<bar>sint v\<bar>" "\<not> v <s 0 \<Longrightarrow> unat v = nat \<bar>sint v\<bar>" for v :: u64
  using int_unat_negate [of v] int_unat_nonneg [of v] by (simp_all add: word_sless_alt flip: nat_uint_eq)

lemma sint_scast_u32: "sint (scast (v :: u32) :: u64) = sint v"
  using sint_greater_eq [of v] sint_less [of v] by (simp add: signed_scast_eq signed_take_bit_int_eq_self)

text \<open>The switch of \<^verbatim>\<open>vga_printf\<close> is the reference conversion followed by output.\<close>

lemma printf_conv_text:
  "printf_conv c is64 width pad args s =
     map_option (\<lambda>(t, r). (fold vga_putchar t s, r)) (conv_text c is64 (nat width) pad args)"
proof (cases "c = 0x25 \<or> c \<notin> {0x63, 0x73, 0x64, 0x75, 0x78, 0x58, 0x70}")
  case True
  then show ?thesis by (auto simp: printf_conv_def conv_text_def)
next
  case False
  show ?thesis
  proof (cases args)
    case Nil
    then show ?thesis using False by (auto simp: printf_conv_def conv_text_def)
  next
    case (Cons a r)
    show ?thesis
    proof (cases a)
      case (VStr t)
      then show ?thesis using False Cons by (auto simp: printf_conv_def conv_text_def vga_puts_text simp del: vga_puts.simps)
    next
      case (VInt v)
      define sv where "sv = (if is64 then v else scast (ucast v :: u32))"
      define n where "n = (if is64 then sint v else sint (ucast v :: u32))"
      have sv: "sint sv = n" by (simp add: sv_def n_def sint_scast_u32)
      have d: "(if sv <s 0 then vga_put_uint (NOT sv + 1) 10 width pad False (vga_putchar 0x2D s)
            else vga_put_uint sv 10 width pad False s) =
          Some (fold vga_putchar ((if n < 0 then [0x2D] else []) @ padded (nat width) pad (num_text 10 False (nat \<bar>n\<bar>))) s)"
        using nat_abs_sint [of sv] by (simp add: vga_put_uint_text sv word_sless_alt)
      consider "c = 0x63" | "c = 0x73" | "c = 0x64" | "c = 0x75" | "c = 0x78" | "c = 0x58" | "c = 0x70" using False by blast
      then show ?thesis
      proof cases
        case 3
        have "printf_conv c is64 width pad args s = map_option (\<lambda>s'. (s', r))
            (if sv <s 0 then vga_put_uint (NOT sv + 1) 10 width pad False (vga_putchar 0x2D s)
             else vga_put_uint sv 10 width pad False s)"
          by (simp add: 3 Cons VInt printf_conv_def Let_def sv_def)
        moreover have "conv_text c is64 (nat width) pad args =
            Some ((if n < 0 then [0x2D] else []) @ padded (nat width) pad (num_text 10 False (nat \<bar>n\<bar>)), r)"
          by (simp add: 3 Cons VInt conv_text_def Let_def n_def)
        ultimately show ?thesis by (simp only: d option.map prod.case)
      qed (simp_all add: Cons VInt printf_conv_def conv_text_def Let_def vga_put_uint_text vga_puts_text c_text_def del: vga_puts.simps)
    qed
  qed
qed

lemma vga_printf_split: "vga_printf f args (s :: 'a vga_st_scheme) = map_option (\<lambda>cs. fold vga_putchar cs s) (printf_text f args)"
proof (induction f args arbitrary: s rule: printf_text.induct)
  case (2 c p args)
  show ?case
  proof (cases "c = 0x25")
    case True
    obtain z p1 where z: "scan_zero p = (z, p1)" by force
    show ?thesis
    proof (cases "scan_width 0 p1")
      case (Some wp)
      obtain w p2 where w: "scan_width 0 p1 = Some (w, p2)" using Some by (cases wp) auto
      obtain i p3 where i: "scan_length p2 = (i, p3)" by force
      have "vga_printf p4 a' t = map_option (\<lambda>cs. fold vga_putchar cs t) (printf_text p4 a')"
        if "p3 = cv # p4" "cv \<noteq> 0" "conv_text cv i (nat w) (if z then 0x30 else 0x20) args = Some (x, a')" for cv p4 x a' and t :: "'a vga_st_scheme"
        using 2(2) [OF _ _ z [symmetric] refl w refl i [symmetric] refl refl that(1,2,3) refl] True by simp
      then show ?thesis using True
        by (auto simp: z w i printf_conv_text option.map_comp comp_def split: list.splits option.splits)
    qed (simp add: True z)
  next
    case False
    then show ?thesis using 2(1) by (simp add: option.map_comp comp_def)
  qed
qed simp

section \<open>Typing\<close>

lemma args_ok_append: "args_ok (ts @ us) as \<longleftrightarrow> args_ok ts as \<and> args_ok us (drop (length ts) as)"
  by (induction ts as rule: args_ok.induct) auto

lemma conv_text_typed:
  "conv_text c is64 width pad args = (if args_ok (conv_types c) args then Some (the (map_option fst (conv_text c is64 width pad args)), drop (length (conv_types c)) args) else None)"
proof (cases "conv_types c")
  case Nil
  then show ?thesis by (auto simp: conv_types_def conv_text_def split: if_splits)
next
  case (Cons ty ts)
  then have ts: "ts = []" by (auto simp: conv_types_def split: if_splits)
  show ?thesis
  proof (cases args)
    case Nil
    then show ?thesis using Cons by (auto simp: conv_types_def conv_text_def split: if_splits)
  next
    case args: (Cons a r)
    then show ?thesis using Cons ts by (cases a; cases ty) (auto simp: conv_types_def conv_text_def Let_def split: if_splits)
  qed
qed

lemma printf_text_typed: "typed f ts \<Longrightarrow> args_ok ts args \<longleftrightarrow> printf_text f args \<noteq> None"
proof (induction arbitrary: args rule: typed.induct)
  case (conv z w i opts c f ts)
  define pad :: u8 where "pad = (if z then 0x30 else 0x20)"
  have "printf_text (0x25 # opts @ c # f) args =
      (case conv_text c i w pad args of None \<Rightarrow> None | Some (t, args') \<Rightarrow> map_option ((@) t) (printf_text f args'))"
    using printf_text_options [of z w i opts "c # f" args] conv(1-3) by (simp add: pad_def)
  then show ?case
    using conv_text_typed [of c i w pad args] conv(5) [of "drop (length (conv_types c)) args"]
    by (auto simp: args_ok_append split: if_splits option.splits)
next
  case (cut z w i opts f)
  then show ?case using printf_text_options [OF options_end [OF cut(3,1)], of args] by (cases f) auto
qed (simp_all add: printf_text_end)

lemma kprintf_text: "printf_text (cstr f) args = Some cs \<Longrightarrow> kprintf f args s = s\<lparr>con := fold vga_putchar cs (con s)\<rparr>"
  by (simp add: kprintf_def vga_printf_split)

text \<open>Hexadecimal numbers of a fixed width, and what it takes to compute the text of a given format.\<close>

definition hex :: "nat \<Rightarrow> u64 \<Rightarrow> u8 list" where
  "hex w v = padded w 0x30 (num_text 16 False (unat v))"

lemmas format_simps = cstr_def scan_zero_def scan_length_def conv_text_def INT_MAX_def hex_def padded_def

section \<open>Properties\<close>

text \<open>
  (C15) \<^verbatim>\<open>vga_printf\<close> agrees with the reference: for every format and every argument list it prints, character by character, the
  text that \<^verbatim>\<open>prints\<close> relates to them, with its zero and width padding and its digits by division of natural numbers and
  signed values.  It has a defined behaviour exactly where there is such a text: where the arguments suffice and have the
  right types, and no field width overflows an \<^verbatim>\<open>int\<close>.  The digit buffer never overflows.
\<close>

theorem vga_printf_formats:
  "vga_printf f args s = Some s' \<longleftrightarrow> (\<exists>cs. prints f args cs \<and> s' = fold vga_putchar cs s)"
  by (auto simp: vga_printf_split prints_iff)

text \<open>
  (C33) Format strings are typed: on a format with the argument types \<open>ts\<close>, as the grammar gives them, \<^verbatim>\<open>vga_printf\<close> has a defined
  behaviour exactly on arguments of these types, in order, and then it returns from every terminal state, and what it prints
  depends on the format and the arguments only.
\<close>

theorem vga_printf_typed:
  assumes "typed f ts"
  shows "if args_ok ts args then \<exists>cs. \<forall>s. vga_printf f args s = Some (fold vga_putchar cs s) else \<forall>s. vga_printf f args s = None"
  using printf_text_typed [OF assms, of args] by (auto simp: vga_printf_split)

lemma typed_exception: "typed (cstr ''EXCEPTION 0x%02lX %s'') [TInt, TStr]"
proof -
  have o: "options True 2 True [0x30, 0x32, 0x6C] 0x58" unfolding options_def
    by (intro exI [of _ "[0x32]"] exI [of _ "[0x6C]"]) (simp add: is_digit_def decimal_def)
  have s: "options False 0 False [] 0x73" unfolding options_def by (intro exI [of _ "[]"]) (simp add: is_digit_def)
  have "typed [] []" by (rule typed.finish) simp
  from typed.conv [OF s _ _ this] have "typed [0x25, 0x73] [TStr]" by (simp add: conv_types_def)
  then have "typed (0x20 # [0x25, 0x73]) [TStr]" by (rule typed.plain [rotated 2]) simp_all
  from typed.conv [OF o _ _ this] have "typed [0x25, 0x30, 0x32, 0x6C, 0x58, 0x20, 0x25, 0x73] [TInt, TStr]" by (simp add: conv_types_def)
  then show ?thesis by (simp add: cstr_def typed.plain)
qed

theorem vga_printf_typed_witness:
  "(\<exists>cs. \<forall>s. vga_printf (cstr ''EXCEPTION 0x%02lX %s'') [VInt 14, VStr (cstr ''#PF Page Fault'')] s = Some (fold vga_putchar cs s)) \<and>
   (\<forall>s. vga_printf (cstr ''EXCEPTION 0x%02lX %s'') [VInt 14, VInt 0] s = None)"
  using vga_printf_typed [OF typed_exception, of "[VInt 14, VStr (cstr ''#PF Page Fault'')]"] vga_printf_typed [OF typed_exception, of "[VInt 14, VInt 0]"]
  by (simp del: vga_printf.simps)

end
