(* ===== verification/Pmm_Boot.thy ===== *)
theory Pmm_Boot
  imports Vga_Format
begin

text \<open>
  Bringing up the frame allocator (\<^verbatim>\<open>src/src/pmm.c\<close>): \<^verbatim>\<open>ensure_2mb_mapped\<close> and \<^verbatim>\<open>pmm_extend_identity\<close>, which
  grow the identity map of the boot page tables, and \<^verbatim>\<open>pmm_init\<close>.  The address \<^verbatim>\<open>__bss_end\<close> that the linker
  provides is the argument \<^verbatim>\<open>bss_end\<close>.  \<^verbatim>\<open>pmm_init\<close> has the result \<^verbatim>\<open>None\<close> when the parser does not return.
\<close>

definition PMM_PTE_PRESENT :: u64 where "PMM_PTE_PRESENT = 1"
definition PMM_PTE_RW :: u64 where "PMM_PTE_RW = 2"
definition PMM_PTE_HUGE :: u64 where "PMM_PTE_HUGE = 0x80"
definition PMM_PTE_ADDR :: u64 where "PMM_PTE_ADDR = 0x000FFFFFFFFFF000"
definition PMM_PTE_KERNEL :: u64 where
  "PMM_PTE_KERNEL = PMM_PTE_PRESENT OR PMM_PTE_RW OR PMM_PTE_HUGE"
definition PMM_2MB :: u64 where "PMM_2MB = 2 * 1024 * 1024"

abbreviation nl :: string where "nl \<equiv> [CHR 0x0A]"

lemma drop_21_bound: "\<not> 512 \<le> drop_bit 21 (a :: u64) \<Longrightarrow> unat a < 2 ^ 30"
  by (simp add: word_le_nat_alt drop_bit_eq_div unat_div_distrib)

function ensure_2mb_loop :: "u64 \<Rightarrow> u64 \<Rightarrow> u64 \<Rightarrow> bytes \<Rightarrow> int \<times> bytes" where
  "ensure_2mb_loop pd last1 a m =
     (let idx = drop_bit 21 a in
      if idx \<ge> 512 then (-1, m)
      else
        (let entry = rd64 m (slot pd idx) in
         if entry AND PMM_PTE_PRESENT \<noteq> 0 \<and> entry AND PMM_PTE_HUGE = 0 then (-1, m)
         else
           (let m1 = (if entry AND PMM_PTE_PRESENT \<noteq> 0 then m
                      else wr64 m (slot pd idx) (push_bit 21 idx OR PMM_PTE_KERNEL))
            in if a = last1 then (0, m1) else ensure_2mb_loop pd last1 (a + PMM_2MB) m1)))"
  by pat_completeness auto
termination
proof (relation "measure (\<lambda>(pd, last1, a, m). 2 ^ 30 - unat a)")
  fix pd last1 a m idx entry m1
  assume "idx = drop_bit 21 (a :: u64)" "\<not> 512 \<le> idx"
  then have b: "unat a < 2 ^ 30" using drop_21_bound by blast
  then have "unat (a + PMM_2MB) = unat a + 2097152"
    by (subst unat_u64_add) (simp_all add: PMM_2MB_def)
  then show "((pd, last1, a + PMM_2MB, m1), pd, last1, a, m) \<in> measure (\<lambda>(pd, last1, a, m). 2 ^ 30 - unat a)"
    using b by simp
qed simp

declare ensure_2mb_loop.simps [simp del]

definition ensure_2mb_mapped :: "u64 \<Rightarrow> u64 \<Rightarrow> 'a sys_scheme \<Rightarrow> int \<times> 'a sys_scheme" where
  "ensure_2mb_mapped addr len s =
     (if len = 0 then (0, s)
      else if addr \<ge> PMM_MAX_PHYS \<or> len > PMM_MAX_PHYS - addr then (-1, s)
      else
        (let pml4 = read_cr3 s AND PMM_PTE_ADDR;
             e4 = rd64 (mem s) (slot pml4 0) in
         if e4 AND PMM_PTE_PRESENT = 0 then (-1, s)
         else
           (let pdpt = e4 AND PMM_PTE_ADDR;
                e3 = rd64 (mem s) (slot pdpt 0) in
            if e3 AND PMM_PTE_PRESENT = 0 then (-1, s)
            else if e3 AND PMM_PTE_HUGE \<noteq> 0 then (0, s)
            else
              (let pd = e3 AND PMM_PTE_ADDR;
                   first = addr AND NOT (PMM_2MB - 1);
                   last1 = (addr + len - 1) AND NOT (PMM_2MB - 1);
                   (r, m1) = ensure_2mb_loop pd last1 first (mem s);
                   s1 = s\<lparr>mem := m1\<rparr>
               in if r \<noteq> 0 then (r, s1) else (0, write_cr3 (read_cr3 s1) s1)))))"

function extend_loop :: "u64 \<Rightarrow> u64 \<Rightarrow> u64 \<Rightarrow> bytes \<Rightarrow> bytes" where
  "extend_loop pd n i m =
     (if i < n
      then extend_loop pd n (i + 1)
             (if rd64 m (slot pd i) AND PMM_PTE_PRESENT = 0
              then wr64 m (slot pd i) (push_bit 21 i OR PMM_PTE_KERNEL) else m)
      else m)"
  by pat_completeness auto
termination
  by (relation "measure (\<lambda>(pd, n, i, m). unat n - unat i)") (auto simp: word_count_up)

declare extend_loop.simps [simp del]

definition pmm_extend_identity :: "u64 \<Rightarrow> 'a sys_scheme \<Rightarrow> int \<times> 'a sys_scheme" where
  "pmm_extend_identity max_end0 s =
     (if max_end0 = 0 then (0, s)
      else
        (let max_end = (if max_end0 > PMM_MAX_PHYS then PMM_MAX_PHYS else max_end0);
             n0 = (max_end + PMM_2MB - 1) div PMM_2MB;
             n = (if n0 > 512 then 512 else n0);
             pml4 = read_cr3 s AND PMM_PTE_ADDR;
             e4 = rd64 (mem s) (slot pml4 0) in
         if e4 AND PMM_PTE_PRESENT = 0 then (-1, s)
         else
           (let pdpt = e4 AND PMM_PTE_ADDR;
                e3 = rd64 (mem s) (slot pdpt 0) in
            if e3 AND PMM_PTE_PRESENT = 0 then (-1, s)
            else if e3 AND PMM_PTE_HUGE \<noteq> 0 then (0, write_cr3 (read_cr3 s) s)
            else
              (let pd = e3 AND PMM_PTE_ADDR;
                   s1 = s\<lparr>mem := extend_loop pd n 1 (mem s)\<rparr>
               in (0, write_cr3 (read_cr3 s1) s1)))))"

fun pmm_init_ranges ::
  "int \<Rightarrow> mb2_range_t list \<Rightarrow> u64 \<Rightarrow> u64 \<Rightarrow> 'a sys_scheme \<Rightarrow> u64 \<times> u64 \<times> 'a sys_scheme" where
  "pmm_init_ranges i [] usbl max_end s = (usbl, max_end, s)"
| "pmm_init_ranges i (r # rs) usbl max_end s =
     (let s1 = kprintf (''  [%d] base=%p len=0x%016llx'' @ nl)
                 [VInt (of_int i), VInt (range_base r), VInt (range_length r)] s;
          e0 = range_base r + range_length r;
          e = (if e0 < range_base r \<or> e0 > PMM_MAX_PHYS then PMM_MAX_PHYS else e0)
      in pmm_init_ranges (i + 1) rs (usbl + range_length r) (if e > max_end then e else max_end) s1)"

definition pmm_init :: "u64 \<Rightarrow> u64 \<Rightarrow> 'a sys_scheme \<Rightarrow> (int \<times> 'a sys_scheme) option" where
  "pmm_init bss_end mb_info s =
     (if mb_info = 0 then Some (-1, kprintf (''M8: mb_info is NULL'' @ nl) [] s)
      else
        (let (r1, s1) = ensure_2mb_mapped mb_info 8 s in
         if r1 \<noteq> 0 then Some (-1, kprintf (''M8: cannot map mb_info header at %p'' @ nl) [VInt mb_info] s1)
         else
           (let total_size = rd32 (mem s1) mb_info in
            if total_size = 0 \<or> total_size > 0x100000
            then Some (-1, kprintf (''M8: bad multiboot2 total_size=0x%x'' @ nl) [VInt (ucast total_size)] s1)
            else
              (let (r2, s2) = ensure_2mb_mapped mb_info (ucast total_size) s1 in
               if r2 \<noteq> 0
               then Some (-1, kprintf (''M8: cannot map mb_info body (%u bytes)'' @ nl) [VInt (ucast total_size)] s2)
               else
                 (case mb2_init (mem s2) mb_info True MB2_MAX_RANGES True of
                    None \<Rightarrow> None
                  | Some (None, _) \<Rightarrow> Some (-1, kprintf (''M8: mb2_init failed'' @ nl) [] s2)
                  | Some (Some ranges, info_end) \<Rightarrow>
                      (let s3 = kprintf (''M8: mb_info=%p total_size=0x%016llx'' @ nl)
                                  [VInt mb_info, VInt (ucast total_size)] s2;
                           s4 = kprintf (''M8: usable ranges=%d'' @ nl) [VInt (of_nat (length ranges))] s3;
                           (usbl, max_end, s5) = pmm_init_ranges 0 ranges 0 0 s4;
                           s6 = kprintf (''M8: usable=0x%016llx (~%llu MB)'' @ nl)
                                  [VInt usbl, VInt (drop_bit 20 usbl)] s5;
                           p = (pmm s6)\<lparr>pmm_mb_info := mb_info,
                                 pmm_info_end := (case info_end of Some e \<Rightarrow> e | None \<Rightarrow> 0),
                                 pmm_max_end := max_end\<rparr>;
                           s7 = s6\<lparr>pmm := pmm_bitmap_init bss_end ranges p\<rparr>;
                           (r3, s8) = pmm_extend_identity max_end s7
                       in if r3 \<noteq> 0
                          then Some (-1, kprintf (''M8/PMM: cannot extend identity map to %p'' @ nl) [VInt max_end] s8)
                          else Some (0, s8)))))))"

lemmas pte_consts = PMM_PTE_PRESENT_def PMM_PTE_HUGE_def PMM_PTE_ADDR_def PMM_PTE_RW_def

section \<open>Identity entries\<close>

definition identity_entry :: "u64 \<Rightarrow> u64 \<Rightarrow> bool" where
  "identity_entry e i \<longleftrightarrow> pte_present e \<and> pte_huge e \<and> e AND 0x000FFFFFFFE00000 = push_bit 21 i"

lemma pde_mask: "(0x000FFFFFFFE00000 :: u64) = push_bit 21 (mask 31)"
  by (simp add: mask_numeral push_bit_eq_mult)

lemma shift_in_mask: "i < 512 \<Longrightarrow> push_bit 21 (i :: u64) AND 0x000FFFFFFFE00000 = push_bit 21 i"
proof -
  assume "i < 512"
  then have "unat i < 2 ^ 9" by (simp add: word_less_nat_alt)
  then have "take_bit 9 i = i" by (simp add: word_unat_eq_iff unsigned_take_bit_eq take_bit_nat_eq_self)
  then have "bit i n \<Longrightarrow> n < 9" for n by (metis bit_take_bit_iff)
  then have b: "bit i n \<Longrightarrow> n < 31" for n by fastforce
  show ?thesis unfolding pde_mask
    by (rule bit_word_eqI) (auto simp: bit_and_iff bit_push_bit_iff bit_mask_iff b)
qed

lemma kernel_entry: "i < 512 \<Longrightarrow> identity_entry (push_bit 21 i OR PMM_PTE_KERNEL) i"
proof -
  assume i: "i < 512"
  have k: "PMM_PTE_KERNEL = 0x83" by (simp add: PMM_PTE_KERNEL_def pte_consts)
  have "(push_bit 21 i OR 0x83) AND 0x000FFFFFFFE00000 = push_bit 21 i"
    using shift_in_mask [OF i] by (simp add: bit.conj_disj_distrib2)
  moreover have nz: "bit x n \<Longrightarrow> x \<noteq> 0" for x :: u64 and n by auto
  have "(push_bit 21 i OR 0x83) AND 1 \<noteq> 0" by (rule nz [of _ 0]) (simp add: bit_and_iff bit_or_iff)
  moreover have "(push_bit 21 i OR 0x83) AND 0x80 \<noteq> 0" by (rule nz [of _ 7]) (simp add: bit_and_iff bit_or_iff)
  ultimately show ?thesis
    by (simp add: identity_entry_def pte_present_def pte_huge_def k)
qed

text \<open>
  The page tables that the boot code leaves: PML4[0] and PDPT[0] lead to a page directory whose present
  entries map their 2MB to themselves, and whose first entry is present.
\<close>

definition boot_pdpt :: "bytes \<Rightarrow> u64 \<Rightarrow> u64" where
  "boot_pdpt m root = pte_frame (rd64 m (slot (pte_frame root) 0))"

definition boot_pd :: "bytes \<Rightarrow> u64 \<Rightarrow> u64" where
  "boot_pd m root = pte_frame (rd64 m (slot (boot_pdpt m root) 0))"

definition boot_tables :: "bytes \<Rightarrow> u64 \<Rightarrow> bool" where
  "boot_tables m root \<longleftrightarrow>
     pte_present (rd64 m (slot (pte_frame root) 0)) \<and> \<not> pte_huge (rd64 m (slot (pte_frame root) 0)) \<and>
     pte_present (rd64 m (slot (boot_pdpt m root) 0)) \<and>
     \<not> pte_huge (rd64 m (slot (boot_pdpt m root) 0)) \<and>
     boot_pd m root \<noteq> pte_frame root \<and> boot_pd m root \<noteq> boot_pdpt m root \<and>
     (\<forall>i < 512. pte_present (rd64 m (slot (boot_pd m root) i)) \<longrightarrow>
        identity_entry (rd64 m (slot (boot_pd m root) i)) i) \<and>
     pte_present (rd64 m (slot (boot_pd m root) 0))"

lemma ix_low:
  assumes "va < PMM_MAX_PHYS"
  shows "pt_index 4 va = 0" "pt_index 3 va = 0" "pt_index 2 va = drop_bit 21 va" "drop_bit 21 va < 512"
proof -
  have b: "unat va < 2 ^ 30" using assms by (simp add: word_less_nat_alt PMM_MAX_PHYS_def)
  have d: "unat (drop_bit 39 va) = unat va div 2 ^ 39" "unat (drop_bit 30 va) = unat va div 2 ^ 30"
    "unat (drop_bit 21 va) = unat va div 2 ^ 21"
    by (simp_all add: drop_bit_eq_div unat_div_distrib)
  have "drop_bit 39 va = 0" "drop_bit 30 va = 0"
    using b d(1,2) by (simp_all only: unat_eq_zero [symmetric]) simp_all
  then show "pt_index 4 va = 0" "pt_index 3 va = 0"
    by (simp_all add: pt_index_def)
  show l: "drop_bit 21 va < 512" using b d(3) by (simp add: word_less_nat_alt)
  have "unat (drop_bit 21 va AND mask 9) = unat (drop_bit 21 va)"
    using l unfolding and_mask_nat by (simp add: word_less_nat_alt)
  then show "pt_index 2 va = drop_bit 21 va" by (simp add: pt_index_def word_unat_eq_iff mask_numeral)
qed

lemma page_2mb_split: "push_bit 21 (drop_bit 21 va) OR (va AND mask 21) = (va :: u64)"
  by (rule bit_word_eqI) (auto simp: bit_simps)

lemma leaf_2mb: "e AND 0x000FFFFFFFE00000 = push_bit 21 (drop_bit 21 va) \<Longrightarrow> leaf_addr 2 e va = va"
proof -
  have "(0x000FFFFFFFE00000 :: u64) = mask 52 AND NOT (mask 21)" by (simp add: mask_numeral)
  then show "e AND 0x000FFFFFFFE00000 = push_bit 21 (drop_bit 21 va) \<Longrightarrow> leaf_addr 2 e va = va"
    using page_2mb_split [of va] by (simp add: leaf_addr_def and.assoc)
qed

lemma mmu_identity:
  assumes b: "boot_tables m root" and va: "va < PMM_MAX_PHYS"
    and p: "pte_present (rd64 m (slot (boot_pd m root) (drop_bit 21 va)))"
  shows "mmu m root va = Some va"
proof -
  note ix = ix_low [OF va]
  have id: "identity_entry (rd64 m (slot (boot_pd m root) (drop_bit 21 va))) (drop_bit 21 va)"
    using b p ix(4) by (simp add: boot_tables_def)
  have "mmu_leaf m 4 (pte_frame root) va = mmu_leaf m 2 (boot_pd m root) va"
    using b ix(1,2)
    by (simp add: eval_nat_numeral Let_def boot_tables_def boot_pd_def boot_pdpt_def)
  also have "\<dots> = Some (2, rd64 m (slot (boot_pd m root) (drop_bit 21 va)))"
    using id ix(3) by (simp add: eval_nat_numeral Let_def identity_entry_def)
  finally show ?thesis using id leaf_2mb [of _ va] by (simp add: mmu_def identity_entry_def)
qed

section \<open>The loops over the page directory\<close>

text \<open>\<^verbatim>\<open>m'\<close> is \<^verbatim>\<open>m\<close> with the absent entries \<^verbatim>\<open>K\<close> of the directory \<^verbatim>\<open>pd\<close> filled in.\<close>

definition pd_filled :: "u64 \<Rightarrow> u64 set \<Rightarrow> bytes \<Rightarrow> bytes \<Rightarrow> bool" where
  "pd_filled pd K m m' \<longleftrightarrow>
     (\<forall>t i. t AND 4095 = 0 \<longrightarrow> i < 512 \<longrightarrow> rd64 m' (slot t i) =
        (if t = pd \<and> i \<in> K \<and> \<not> pte_present (rd64 m (slot t i)) then push_bit 21 i OR PMM_PTE_KERNEL
         else rd64 m (slot t i))) \<and>
     (\<forall>x. \<not> x - pd < 4096 \<longrightarrow> m' x = m x)"

lemma pte_present_kernel [simp]: "i < 512 \<Longrightarrow> pte_present (push_bit 21 i OR PMM_PTE_KERNEL)"
  using kernel_entry [of i] by (simp add: identity_entry_def)

lemma slot_inside: "i < 512 \<Longrightarrow> \<not> x - pd < 4096 \<Longrightarrow> \<not> x - slot pd i < (8 :: u64)"
proof
  assume i: "i < 512" and far: "\<not> x - pd < 4096" and near: "x - slot pd i < 8"
  have u: "unat (8 * i) = 8 * unat i" "unat i < 512" using i by (simp_all add: unat_word_ariths word_less_nat_alt)
  have "x - pd = (x - slot pd i) + 8 * i" by (simp add: slot_def)
  also have "unat \<dots> = unat (x - slot pd i) + 8 * unat i"
    using u near by (subst unat_u64_add) (simp_all add: word_less_nat_alt)
  finally show False using far near u by (simp add: word_less_nat_alt)
qed

lemma pd_filled_refl: "pd_filled pd {} m m"
  by (simp add: pd_filled_def)

lemma pd_filled_step:
  assumes pd: "pd AND 4095 = 0" and i: "i < 512"
  shows "pd_filled pd {i} m (if pte_present (rd64 m (slot pd i)) then m
    else wr64 m (slot pd i) (push_bit 21 i OR PMM_PTE_KERNEL))"
  using assms slot_inside [OF i] by (auto simp: pd_filled_def rd_slot_wr wr64_outside)

lemma pd_filled_trans:
  "pd_filled pd K m m1 \<Longrightarrow> pd_filled pd L m1 m2 \<Longrightarrow> pd_filled pd (K \<union> L) m m2"
  unfolding pd_filled_def by auto

lemma present_mask: "e AND PMM_PTE_PRESENT = 0 \<longleftrightarrow> \<not> pte_present e" "e AND PMM_PTE_HUGE = 0 \<longleftrightarrow> \<not> pte_huge e"
  "e AND PMM_PTE_ADDR = pte_frame e"
  by (simp_all add: pte_consts pte_present_def pte_huge_def pte_frame_def)

lemma extend_loop_fills:
  "pd AND 4095 = 0 \<Longrightarrow> n \<le> 512 \<Longrightarrow> pd_filled pd {j. i \<le> j \<and> j < n} m (extend_loop pd n i m)"
proof (induction pd n i m rule: extend_loop.induct)
  case (1 pd n i m)
  show ?case
  proof (cases "i < n")
    case True
    then have i: "i < 512" using "1.prems"(2) by simp
    let ?m1 = "if pte_present (rd64 m (slot pd i)) then m else wr64 m (slot pd i) (push_bit 21 i OR PMM_PTE_KERNEL)"
    have eq: "(if rd64 m (slot pd i) AND PMM_PTE_PRESENT = 0
        then wr64 m (slot pd i) (push_bit 21 i OR PMM_PTE_KERNEL) else m) = ?m1"
      by (simp add: present_mask)
    have "{j. i \<le> j \<and> j < n} = {i} \<union> {j. i + 1 \<le> j \<and> j < n}"
      using True unat_Suc_less [OF True] by (auto simp: word_le_nat_alt word_less_nat_alt word_unat_eq_iff)
    then show ?thesis
      using pd_filled_trans [OF pd_filled_step [OF "1.prems"(1) i] "1.IH" [OF True "1.prems", unfolded eq]] True
      by (simp add: extend_loop.simps [of pd n i m] eq)
  next
    case False
    then have e: "{j. i \<le> j \<and> j < n} = {}" by auto
    show ?thesis unfolding e using False by (simp add: extend_loop.simps [of pd n i m] pd_filled_refl)
  qed
qed

lemma boot_tables_filled:
  assumes "boot_tables m root" "pd_filled (boot_pd m root) K m m'"
  shows "boot_tables m' root" "boot_pd m' root = boot_pd m root"
    "i < 512 \<Longrightarrow> i \<in> K \<or> pte_present (rd64 m (slot (boot_pd m root) i)) \<Longrightarrow>
       pte_present (rd64 m' (slot (boot_pd m root) i))"
proof -
  have al: "boot_pdpt m root AND 4095 = 0" "boot_pd m root AND 4095 = 0"
    by (simp_all add: boot_pdpt_def boot_pd_def)
  have same: "t AND 4095 = 0 \<Longrightarrow> t \<noteq> boot_pd m root \<Longrightarrow> rd64 m' (slot t 0) = rd64 m (slot t 0)" for t
    using assms(2) by (simp add: pd_filled_def)
  have pd: "j < 512 \<Longrightarrow> rd64 m' (slot (boot_pd m root) j) =
      (if j \<in> K \<and> \<not> pte_present (rd64 m (slot (boot_pd m root) j)) then push_bit 21 j OR PMM_PTE_KERNEL
       else rd64 m (slot (boot_pd m root) j))" for j
    using assms(2) al by (simp add: pd_filled_def)
  have ne: "pte_frame root \<noteq> boot_pd m root" "boot_pdpt m root \<noteq> boot_pd m root"
    using assms(1) unfolding boot_tables_def by metis+
  note r = same [OF pte_frame_aligned ne(1)] same [OF al(1) ne(2)]
  have p: "boot_pdpt m' root = boot_pdpt m root"
    unfolding boot_pdpt_def r(1) ..
  then show d: "boot_pd m' root = boot_pd m root"
    unfolding boot_pd_def p r(2) by simp
  show "boot_tables m' root"
    using assms(1) unfolding boot_tables_def p d r by (auto simp: pd kernel_entry)
  show "i < 512 \<Longrightarrow> i \<in> K \<or> pte_present (rd64 m (slot (boot_pd m root) i)) \<Longrightarrow>
       pte_present (rd64 m' (slot (boot_pd m root) i))"
    by (auto simp: pd)
qed

text \<open>2MB-aligned addresses below 1GB and their directory index.\<close>

lemma mask_2mb: "x AND NOT (PMM_2MB - 1) = push_bit 21 (drop_bit 21 x)"
proof -
  have m: "PMM_2MB - 1 = mask 21" by (simp add: PMM_2MB_def mask_numeral)
  show ?thesis unfolding m by (auto simp: bit_eq_iff bit_simps)
qed

lemma push_21_nat: "i < 512 \<Longrightarrow> unat (push_bit 21 i :: u64) = unat i * 2 ^ 21"
  by (simp add: push_bit_eq_mult unat_word_ariths word_less_nat_alt)

lemma drop_push_21: "i < 512 \<Longrightarrow> drop_bit 21 (push_bit 21 i) = (i :: u64)"
  by (simp add: word_unat_eq_iff drop_bit_eq_div unat_div_distrib push_21_nat)

lemma push_21_step: "i < 511 \<Longrightarrow> push_bit 21 i + PMM_2MB = push_bit 21 (i + 1 :: u64)"
  by (simp add: push_bit_eq_mult PMM_2MB_def algebra_simps)

lemma ensure_loop_fills:
  assumes pd: "pd AND 4095 = 0" and l: "l < 512"
  shows "i \<le> l \<Longrightarrow>
    (\<forall>j < 512. pte_present (rd64 m (slot pd j)) \<longrightarrow> pte_huge (rd64 m (slot pd j))) \<Longrightarrow>
    \<exists>m'. ensure_2mb_loop pd (push_bit 21 l) (push_bit 21 i) m = (0, m') \<and>
      pd_filled pd {j. i \<le> j \<and> j \<le> l} m m'"
proof (induction "unat l - unat i" arbitrary: i m)
  case 0
  then have il: "i = l" by (simp add: word_le_nat_alt word_unat_eq_iff)
  have "{j. l \<le> j \<and> j \<le> l} = {l}" by auto
  then show ?case
    using 0 l pd_filled_step [OF pd l, of m] unfolding il
    by (simp add: ensure_2mb_loop.simps [of pd "push_bit 21 l" "push_bit 21 l"] drop_push_21 Let_def present_mask)
next
  case (Suc k)
  have lt: "i < l" using Suc.hyps(2) by (simp add: word_less_nat_alt)
  then have i: "i < 512" "i < 511" using l by (simp_all add: word_less_nat_alt)
  have ne: "push_bit 21 i \<noteq> push_bit 21 l" using lt drop_push_21 i(1) l by (metis order_less_irrefl)
  let ?m1 = "if pte_present (rd64 m (slot pd i)) then m else wr64 m (slot pd i) (push_bit 21 i OR PMM_PTE_KERNEL)"
  have f: "pd_filled pd {i} m ?m1" by (rule pd_filled_step [OF pd i(1)])
  have h: "\<forall>j < 512. pte_present (rd64 ?m1 (slot pd j)) \<longrightarrow> pte_huge (rd64 ?m1 (slot pd j))"
    using Suc.prems(2) f pd kernel_entry unfolding pd_filled_def identity_entry_def by auto
  have u: "unat (i + 1) = Suc (unat i)" by (rule unat_Suc_less [OF lt])
  then have "k = unat l - unat (i + 1)" "i + 1 \<le> l"
    using Suc.hyps(2) lt by (simp_all add: word_less_nat_alt word_le_nat_alt)
  from Suc.hyps(1) [OF this h] obtain m' where
    m': "ensure_2mb_loop pd (push_bit 21 l) (push_bit 21 (i + 1)) ?m1 = (0, m')"
      "pd_filled pd {j. i + 1 \<le> j \<and> j \<le> l} ?m1 m'" by blast
  have ni: "(512 \<le> i) = False" using i(1) by auto
  have "ensure_2mb_loop pd (push_bit 21 l) (push_bit 21 i) m =
      ensure_2mb_loop pd (push_bit 21 l) (push_bit 21 (i + 1)) ?m1"
    using Suc.prems(2) ne push_21_step [OF i(2)] i(1)
    by (auto simp: ni ensure_2mb_loop.simps [of pd "push_bit 21 l" "push_bit 21 i" m] drop_push_21 Let_def present_mask)
  moreover have "{j. i \<le> j \<and> j \<le> l} = {i} \<union> {j. i + 1 \<le> j \<and> j \<le> l}"
    using lt u by (auto simp: word_le_nat_alt word_less_nat_alt word_unat_eq_iff)
  ultimately show ?case using m' pd_filled_trans [OF f m'(2)] by simp
qed

section \<open>The identity map\<close>

text \<open>All addresses from \<^verbatim>\<open>lo\<close> up to \<^verbatim>\<open>hi\<close> translate to themselves.\<close>

definition identity_mapped :: "'a sys_scheme \<Rightarrow> nat \<Rightarrow> nat \<Rightarrow> bool" where
  "identity_mapped s lo hi \<longleftrightarrow> (\<forall>va. lo \<le> unat va \<and> unat va < hi \<longrightarrow> mmu (mem s) (cr3 s) va = Some va)"

text \<open>What the two operations keep: the boot tables and every byte outside the page directory.\<close>

definition boot_kept :: "'a sys_scheme \<Rightarrow> 'a sys_scheme \<Rightarrow> bool" where
  "boot_kept s s' \<longleftrightarrow> boot_tables (mem s') (cr3 s) \<and> boot_pd (mem s') (cr3 s) = boot_pd (mem s) (cr3 s) \<and>
     (\<forall>x. \<not> x - boot_pd (mem s) (cr3 s) < 4096 \<longrightarrow> mem s' x = mem s x) \<and>
     (\<exists>m t. s' = s\<lparr>mem := m, tlb := t\<rparr>)"

lemma fill_kept:
  assumes b: "boot_tables (mem s) (cr3 s)" and f: "pd_filled (boot_pd (mem s) (cr3 s)) K (mem s) m'"
  shows "boot_kept s (s\<lparr>mem := m', tlb := t\<rparr>)"
    "(\<And>va. lo \<le> unat va \<Longrightarrow> unat va < hi \<Longrightarrow> drop_bit 21 va \<in> K \<or> drop_bit 21 va = 0) \<Longrightarrow> hi \<le> 2 ^ 30 \<Longrightarrow>
       identity_mapped (s\<lparr>mem := m', tlb := t\<rparr>) lo hi"
proof -
  note bt = boot_tables_filled [OF b f]
  show "boot_kept s (s\<lparr>mem := m', tlb := t\<rparr>)"
    using bt(1,2) f unfolding boot_kept_def pd_filled_def by auto
  assume K: "\<And>va. lo \<le> unat va \<Longrightarrow> unat va < hi \<Longrightarrow> drop_bit 21 va \<in> K \<or> drop_bit 21 va = 0"
    and hi: "hi \<le> 2 ^ 30"
  show "identity_mapped (s\<lparr>mem := m', tlb := t\<rparr>) lo hi"
    unfolding identity_mapped_def
  proof clarsimp
    fix va :: u64 assume va: "lo \<le> unat va" "unat va < hi"
    then have low: "va < PMM_MAX_PHYS" using hi by (simp add: word_less_nat_alt PMM_MAX_PHYS_def)
    have "pte_present (rd64 m' (slot (boot_pd (mem s) (cr3 s)) (drop_bit 21 va)))"
      using K [OF va] b by (intro bt(3)) (auto simp: ix_low(4) [OF low] boot_tables_def)
    then show "mmu m' (cr3 s) va = Some va"
      using mmu_identity [OF bt(1) low] bt(2) by simp
  qed
qed

lemma boot_kept_refl: "boot_tables (mem s) (cr3 s) \<Longrightarrow> boot_kept s s"
  unfolding boot_kept_def by (auto intro!: exI [of _ "mem s"] exI [of _ "tlb s"])

lemma drop_21_mono: "unat a \<le> unat b \<Longrightarrow> drop_bit 21 a \<le> drop_bit 21 (b :: u64)"
  by (simp add: word_le_nat_alt drop_bit_eq_div unat_div_distrib div_le_mono)

lemma ensure_refuses:
  assumes "len \<noteq> 0" "unat addr + unat len > 2 ^ 30"
  shows "ensure_2mb_mapped addr len s = (-1, s)"
proof -
  have "PMM_MAX_PHYS \<le> addr \<or> PMM_MAX_PHYS - addr < len"
  proof (cases "PMM_MAX_PHYS \<le> addr")
    case False
    then have "unat (PMM_MAX_PHYS - addr) = 2 ^ 30 - unat addr" "unat addr < 2 ^ 30"
      by (simp_all add: unat_sub word_less_nat_alt word_le_nat_alt PMM_MAX_PHYS_def)
    then show ?thesis using assms by (simp add: word_less_nat_alt) linarith
  qed simp
  then show ?thesis using assms(1) by (simp add: ensure_2mb_mapped_def)
qed

lemma ensure_2mb_mapped_spec:
  assumes b: "boot_tables (mem s) (cr3 s)" and len: "len \<noteq> 0"
    and fit: "unat addr + unat len \<le> 2 ^ 30"
  shows "\<exists>s'. ensure_2mb_mapped addr len s = (0, s') \<and> boot_kept s s' \<and>
    identity_mapped s' (unat addr) (unat addr + unat len)"
proof -
  let ?pd = "boot_pd (mem s) (cr3 s)"
  have pos: "0 < unat len" using len by (simp add: unat_gt_0)
  have lt: "addr < PMM_MAX_PHYS" using fit pos by (simp add: word_less_nat_alt PMM_MAX_PHYS_def)
  have "unat (PMM_MAX_PHYS - addr) = 2 ^ 30 - unat addr"
    using lt by (simp add: unat_sub word_less_nat_alt word_le_nat_alt PMM_MAX_PHYS_def)
  then have g: "\<not> (PMM_MAX_PHYS \<le> addr \<or> PMM_MAX_PHYS - addr < len)"
    using lt fit by (auto simp: word_less_nat_alt word_le_nat_alt)
  let ?e = "addr + len - 1"
  have "unat (addr + len) = unat addr + unat len" using fit by (simp add: unat_u64_add)
  then have ue: "unat ?e = unat addr + unat len - 1"
    using pos by (subst unat_sub) (simp_all add: word_le_nat_alt)
  have e: "drop_bit 21 ?e < 512"
    using ue fit pos by (intro ix_low(4)) (simp add: word_less_nat_alt PMM_MAX_PHYS_def)
  have le: "drop_bit 21 addr \<le> drop_bit 21 ?e" using ue pos by (intro drop_21_mono) simp
  have huge: "\<forall>j < 512. pte_present (rd64 (mem s) (slot ?pd j)) \<longrightarrow> pte_huge (rd64 (mem s) (slot ?pd j))"
    using b by (simp add: boot_tables_def identity_entry_def)
  obtain m' where m': "ensure_2mb_loop ?pd (push_bit 21 (drop_bit 21 ?e)) (push_bit 21 (drop_bit 21 addr)) (mem s) = (0, m')"
    "pd_filled ?pd {j. drop_bit 21 addr \<le> j \<and> j \<le> drop_bit 21 ?e} (mem s) m'"
    using ensure_loop_fills [OF _ e le huge] by (auto simp: boot_pd_def)
  have "ensure_2mb_mapped addr len s = (0, s\<lparr>mem := m', tlb := \<lambda>_. None\<rparr>)"
    using b len g m'(1)
    by (simp add: ensure_2mb_mapped_def Let_def read_cr3_def write_cr3_def present_mask boot_tables_def mask_2mb
      boot_pdpt_def [symmetric] boot_pd_def [symmetric])
  moreover have "identity_mapped (s\<lparr>mem := m', tlb := \<lambda>_. None\<rparr>) (unat addr) (unat addr + unat len)"
    using fit ue by (intro fill_kept(2) [OF b m'(2)]) (auto intro!: drop_21_mono)
  ultimately show ?thesis using fill_kept(1) [OF b m'(2)] by blast
qed

lemma extend_count:
  assumes "0 < max_end" "max_end \<le> 2 ^ 30"
  shows "unat ((of_nat max_end + PMM_2MB - 1) div PMM_2MB) = (max_end + 2097151) div 2097152"
proof -
  have "unat (of_nat max_end :: u64) = max_end" using assms(2) by (simp add: unat_of_nat_u64)
  then have "unat (of_nat max_end + PMM_2MB) = max_end + 2097152"
    using assms(2) by (subst unat_u64_add) (simp_all add: PMM_2MB_def)
  then have "unat (of_nat max_end + PMM_2MB - 1) = max_end + 2097151"
    by (subst unat_sub) (simp_all add: word_le_nat_alt)
  then show ?thesis by (simp add: unat_div_distrib) (simp add: PMM_2MB_def)
qed

lemma div_round_up_less: "x < h \<Longrightarrow> x div 2097152 < (h + 2097151) div (2097152 :: nat)"
proof -
  assume "x < h"
  moreover have "x div 2097152 * 2097152 \<le> x" by (rule div_times_less_eq_dividend)
  ultimately have "Suc (x div 2097152) * 2097152 \<le> h + 2097151" by simp
  then have "Suc (x div 2097152) \<le> (h + 2097151) div 2097152"
    using less_eq_div_iff_mult_less_eq [of 2097152 "Suc (x div 2097152)" "h + 2097151"] by simp
  then show ?thesis by simp
qed

lemma pmm_extend_identity_spec:
  assumes b: "boot_tables (mem s) (cr3 s)"
  shows "\<exists>s'. pmm_extend_identity max_end s = (0, s') \<and> boot_kept s s' \<and>
    identity_mapped s' 0 (min (unat max_end) (2 ^ 30))"
proof (cases "max_end = 0")
  case True
  then show ?thesis using boot_kept_refl [OF b] by (simp add: pmm_extend_identity_def identity_mapped_def)
next
  case False
  let ?pd = "boot_pd (mem s) (cr3 s)"
  let ?h = "min (unat max_end) (2 ^ 30)"
  let ?me = "if max_end > PMM_MAX_PHYS then PMM_MAX_PHYS else max_end"
  let ?n = "(?me + PMM_2MB - 1) div PMM_2MB"
  have "?me = of_nat ?h"
    by (simp add: word_unat_eq_iff word_less_nat_alt PMM_MAX_PHYS_def min_def unat_of_nat_u64)
  then have n: "unat ?n = (?h + 2097151) div 2097152"
    using extend_count [of ?h] False by (simp add: unat_gt_0)
  have "(?h + 2097151) div 2097152 < 513" by (simp add: div_less_iff_less_mult)
  then have n512: "?n \<le> 512" using n by (simp add: word_le_nat_alt)
  let ?m = "extend_loop ?pd ?n 1 (mem s)"
  have f: "pd_filled ?pd {j. 1 \<le> j \<and> j < ?n} (mem s) ?m"
    by (rule extend_loop_fills [OF _ n512]) (simp add: boot_pd_def)
  have "pmm_extend_identity max_end s = (0, s\<lparr>mem := ?m, tlb := \<lambda>_. None\<rparr>)"
    using b False n512
    by (simp add: pmm_extend_identity_def Let_def read_cr3_def write_cr3_def present_mask boot_tables_def not_less
      boot_pdpt_def [symmetric] boot_pd_def [symmetric])
  moreover have "identity_mapped (s\<lparr>mem := ?m, tlb := \<lambda>_. None\<rparr>) 0 ?h"
  proof (rule fill_kept(2) [OF b f])
    fix va :: u64 assume "unat va < ?h"
    then have "unat (drop_bit 21 va) < unat ?n"
      unfolding n using div_round_up_less [of "unat va" ?h] by (simp add: drop_bit_eq_div unat_div_distrib)
    then show "drop_bit 21 va \<in> {j. 1 \<le> j \<and> j < ?n} \<or> drop_bit 21 va = 0"
      by (auto simp: word_less_nat_alt word_le_nat_alt unat_eq_zero [symmetric])
  qed simp
  ultimately show ?thesis using fill_kept(1) [OF b f] by blast
qed

section \<open>Initialisation\<close>

lemma kprintf_con: "\<exists>c. kprintf f args s = s\<lparr>con := c\<rparr>"
  by (cases "vga_printf (cstr f) args (con s)") (auto simp: kprintf_def intro: exI [of _ "con s"])

lemma kprintf_frame [simp]:
  "mem (kprintf f args s) = mem s" "cr3 (kprintf f args s) = cr3 s" "cr2 (kprintf f args s) = cr2 s"
  "tlb (kprintf f args s) = tlb s" "pmm (kprintf f args s) = pmm s"
  by (simp_all add: kprintf_def split: option.split)

text \<open>What the memory management never changes.\<close>

definition sys_rest :: "'a sys_scheme \<Rightarrow> 'a sys_scheme" where
  "sys_rest s = s\<lparr>con := vga_boot, mem := \<lambda>_. 0, cr3 := 0, cr2 := 0, tlb := \<lambda>_. None, pmm := raw_pmm\<rparr>"

lemma sys_rest_simps [simp]: "sys_rest (s\<lparr>mem := m\<rparr>) = sys_rest s" "sys_rest (s\<lparr>con := c\<rparr>) = sys_rest s" "sys_rest (s\<lparr>pmm := p\<rparr>) = sys_rest s"
  "sys_rest (s\<lparr>cr3 := x, tlb := t\<rparr>) = sys_rest s" "sys_rest (s\<lparr>cr2 := x\<rparr>) = sys_rest s" "sys_rest (s\<lparr>mem := m, tlb := t\<rparr>) = sys_rest s"
  by (simp_all add: sys_rest_def)

lemma kprintf_rest [simp]: "sys_rest (kprintf f as s) = sys_rest s"
  using kprintf_con [of f as s] by auto

lemma pmm_init_ranges_frame:
  "pmm_init_ranges i rs u e s = (u', e', s') \<Longrightarrow>
     mem s' = mem s \<and> cr3 s' = cr3 s \<and> tlb s' = tlb s \<and> pmm s' = pmm s \<and> sys_rest s' = sys_rest s"
  by (induction i rs u e s rule: pmm_init_ranges.induct) (auto simp: Let_def)

lemma pmm_init_ranges_end:
  "pmm_init_ranges i rs u e s = (u', e', s') \<Longrightarrow>
     unat e \<le> unat e' \<and> (\<forall>r \<in> set rs. min (unat (range_base r) + unat (range_length r)) 0x40000000 \<le> unat e')"
proof (induction rs arbitrary: i u e s)
  case (Cons r rs)
  let ?c = "pmm_clip_end (range_base r) (range_length r)"
  let ?e = "if ?c > e then ?c else e"
  obtain s1 where "pmm_init_ranges (i + 1) rs (u + range_length r) ?e s1 = (u', e', s')"
    using Cons.prems unfolding pmm_init_ranges.simps Let_def pmm_clip_end_def by blast
  note IH = Cons.IH [OF this]
  have "unat e \<le> unat ?e" "unat ?c \<le> unat ?e" by (simp_all add: word_less_nat_alt)
  then show ?case using IH clip_end_nat [of "range_base r" "range_length r"] by (auto simp del: clip_end_nat)
qed simp

lemma boot_kept_trans:
  assumes "boot_kept s s1" "boot_kept s1 s2"
  shows "boot_kept s s2"
proof -
  obtain m t where s1: "s1 = s\<lparr>mem := m, tlb := t\<rparr>" using assms(1) unfolding boot_kept_def by blast
  then have "cr3 s1 = cr3 s" by simp
  then show ?thesis using assms unfolding boot_kept_def by (auto simp: s1)
qed

lemma boot_kept_fields: "boot_kept s s' \<Longrightarrow> cr3 s' = cr3 s \<and> pmm s' = pmm s \<and> con s' = con s"
  unfolding boot_kept_def by auto

lemma boot_kept_rest: "boot_kept s s' \<Longrightarrow> sys_rest s' = sys_rest s"
  unfolding boot_kept_def by auto

text \<open>The boot information lies outside the page directory, and within the first gigabyte.\<close>

definition info_apart :: "u64 \<Rightarrow> 'a sys_scheme \<Rightarrow> bool" where
  "info_apart mb_info s \<longleftrightarrow>
     unat mb_info + max 8 (unat (rd32 (mem s) mb_info)) \<le> 2 ^ 30 \<and>
     (\<forall>x. unat mb_info \<le> unat x \<and> unat x < unat mb_info + max 8 (unat (rd32 (mem s) mb_info)) \<longrightarrow>
        \<not> x - boot_pd (mem s) (cr3 s) < 4096)"

lemma info_agree:
  assumes "info_apart mb_info s" "boot_kept s s'"
  shows "agree (mem s) (mem s') (unat mb_info) (unat mb_info + max 8 (unat (rd32 (mem s) mb_info)))"
    "rd32 (mem s') mb_info = rd32 (mem s) mb_info"
proof -
  show a: "agree (mem s) (mem s') (unat mb_info) (unat mb_info + max 8 (unat (rd32 (mem s) mb_info)))"
    using assms unfolding agree_def info_apart_def boot_kept_def by auto
  show "rd32 (mem s') mb_info = rd32 (mem s) mb_info"
    using assms(1) unfolding info_apart_def by (intro agree_rd32 [OF a, symmetric]) auto
qed

text \<open>The two calls of \<^verbatim>\<open>ensure_2mb_mapped\<close> in \<^verbatim>\<open>pmm_init\<close> succeed and leave the structure readable.\<close>

lemma ensure_info:
  assumes b: "boot_tables (mem s) (cr3 s)" and i: "info_apart mb_info s"
    and t: "0 < rd32 (mem s) mb_info"
  obtains s1 s2 where "ensure_2mb_mapped mb_info 8 s = (0, s1)" "boot_kept s s1"
    "ensure_2mb_mapped mb_info (ucast (rd32 (mem s1) mb_info)) s1 = (0, s2)" "boot_kept s s2"
    "rd32 (mem s1) mb_info = rd32 (mem s) mb_info"
proof -
  have fit: "unat mb_info + unat (8 :: u64) \<le> 2 ^ 30"
    using conjunct1 [OF i [unfolded info_apart_def]] by (simp add: max_def split: if_splits)
  obtain s1 where s1: "ensure_2mb_mapped mb_info 8 s = (0, s1)" "boot_kept s s1"
    using ensure_2mb_mapped_spec [OF b _ fit] by auto
  have r: "rd32 (mem s1) mb_info = rd32 (mem s) mb_info" by (rule info_agree(2) [OF i s1(2)])
  have b1: "boot_tables (mem s1) (cr3 s1)"
    using s1(2) boot_kept_fields [OF s1(2)] unfolding boot_kept_def by simp
  have "unat (ucast (rd32 (mem s1) mb_info) :: u64) = unat (rd32 (mem s) mb_info)"
    unfolding r by (rule unat_ucast_u32)
  then have "(ucast (rd32 (mem s1) mb_info) :: u64) \<noteq> 0"
    "unat mb_info + unat (ucast (rd32 (mem s1) mb_info) :: u64) \<le> 2 ^ 30"
    using t i unfolding info_apart_def by (auto simp: word_less_nat_alt)
  from ensure_2mb_mapped_spec [OF b1 this] obtain s2 where
    "ensure_2mb_mapped mb_info (ucast (rd32 (mem s1) mb_info)) s1 = (0, s2)" "boot_kept s1 s2" by blast
  then show ?thesis using that s1 r boot_kept_trans [OF s1(2)] by blast
qed

text \<open>Every available frame lies below the end of the usable memory, so it is identity mapped.\<close>

lemma avail_below_end:
  assumes "pa \<in> pmm_avail p" and "\<And>f. f \<in> pmm_free_set p \<Longrightarrow> pmm_usable ranges f"
    and "\<forall>r \<in> set ranges. min (unat (range_base r) + unat (range_length r)) 0x40000000 \<le> unat e"
  shows "unat pa + 4096 \<le> min (unat e) (2 ^ 30)"
proof -
  obtain f where f: "f \<in> pmm_free_set p" "pa = f * PMM_FRAME_SIZE"
    using assms(1) unfolding pmm_avail_def by (rule imageE)
  have fc: "f < PMM_FRAME_COUNT" using f(1) by (simp add: pmm_free_set_def)
  then have u: "unat pa = unat f * 4096" "unat f < 0x40000"
    using frame_addr(1) [OF fc] f(2) by (simp_all add: word_less_nat_alt pmm_frame_count)
  obtain r where r: "r \<in> set ranges" "frame_bytes f \<subseteq> region_bytes (range_base r) (range_length r)"
    using assms(2) [OF f(1)] unfolding pmm_usable_def by blast
  then have "unat f * 4096 + 4096 \<le> unat (range_base r) + unat (range_length r)"
    by (simp add: frame_bytes_def region_bytes_def)
  then have "unat pa + 4096 \<le> min (unat (range_base r) + unat (range_length r)) 0x40000000"
    using u by simp
  also have "\<dots> \<le> unat e" using assms(3) r(1) by blast
  finally show ?thesis using u by simp
qed

lemma identity_mapped_mono: "identity_mapped s lo hi \<Longrightarrow> lo \<le> lo' \<Longrightarrow> hi' \<le> hi \<Longrightarrow> identity_mapped s lo' hi'"
  by (auto simp: identity_mapped_def)

lemma mb2_init_kept:
  assumes i: "info_apart mb_info s" and k: "boot_kept s s'" and t: "0 < rd32 (mem s) mb_info"
    "rd32 (mem s) mb_info \<le> 0x100000"
    and ts: "tags_at (mem s) (mb_info + ucast (rd32 (mem s) mb_info)) (mb_info + 8) ts"
    and n: "length (usable_ranges ts) \<le> 32"
  shows "mb2_init (mem s') mb_info True MB2_MAX_RANGES True =
    Some (Some (usable_ranges ts), Some (mb_info + ucast (rd32 (mem s) mb_info)))"
proof -
  have fit: "unat mb_info + unat (rd32 (mem s) mb_info) \<le> 2 ^ 30"
    using conjunct1 [OF i [unfolded info_apart_def]] by (simp add: max_def split: if_splits)
  have "agree (mem s) (mem s') (unat mb_info) (unat mb_info + max 4 (unat (rd32 (mem s) mb_info)))"
    by (rule agree_mono [OF info_agree(1) [OF i k]]) simp
  then have "mb2_init (mem s) mb_info True MB2_MAX_RANGES True = mb2_init (mem s') mb_info True MB2_MAX_RANGES True"
    by (rule mb2_init_agree [OF fit])
  then show ?thesis
    using mb2_init_usable [OF fit t ts, of MB2_MAX_RANGES] n by (simp add: MB2_MAX_RANGES_def)
qed

lemma pmm_init_final:
  assumes i: "mb_info \<noteq> 0" and e1: "ensure_2mb_mapped mb_info 8 s = (0, s1)"
    and t: "0 < rd32 (mem s1) mb_info" "rd32 (mem s1) mb_info \<le> 0x100000"
    and e2: "ensure_2mb_mapped mb_info (ucast (rd32 (mem s1) mb_info)) s1 = (0, s2)"
    and p: "mb2_init (mem s2) mb_info True MB2_MAX_RANGES True = Some (Some ranges, Some info_end)"
    and b: "boot_tables (mem s2) (cr3 s2)"
  shows "\<exists>s7 s8 e. pmm_init bss_end mb_info s = Some (0, s8) \<and> boot_kept s7 s8 \<and>
    mem s7 = mem s2 \<and> cr3 s7 = cr3 s2 \<and> sys_rest s7 = sys_rest s2 \<and> identity_mapped s8 0 (min (unat e) (2 ^ 30)) \<and>
    pmm s8 = pmm_bitmap_init bss_end ranges
      ((pmm s2)\<lparr>pmm_mb_info := mb_info, pmm_info_end := info_end, pmm_max_end := e\<rparr>) \<and>
    (\<forall>r \<in> set ranges. min (unat (range_base r) + unat (range_length r)) 0x40000000 \<le> unat e)"
proof -
  define s4 where "s4 = kprintf (''M8: usable ranges=%d'' @ nl) [VInt (of_nat (length ranges))]
    (kprintf (''M8: mb_info=%p total_size=0x%016llx'' @ nl) [VInt mb_info, VInt (ucast (rd32 (mem s1) mb_info))] s2)"
  obtain u e s5 where r: "pmm_init_ranges 0 ranges 0 0 s4 = (u, e, s5)" by (cases "pmm_init_ranges 0 ranges 0 0 s4")
  define s6 where "s6 = kprintf (''M8: usable=0x%016llx (~%llu MB)'' @ nl) [VInt u, VInt (drop_bit 20 u)] s5"
  define s7 where "s7 = s6\<lparr>pmm := pmm_bitmap_init bss_end ranges
    ((pmm s6)\<lparr>pmm_mb_info := mb_info, pmm_info_end := info_end, pmm_max_end := e\<rparr>)\<rparr>"
  have f: "mem s7 = mem s2" "cr3 s7 = cr3 s2" "pmm s6 = pmm s2" "sys_rest s7 = sys_rest s2"
    using pmm_init_ranges_frame [OF r] by (simp_all add: s7_def s6_def s4_def)
  then obtain s8 where s8: "pmm_extend_identity e s7 = (0, s8)" "boot_kept s7 s8"
      "identity_mapped s8 0 (min (unat e) (2 ^ 30))"
    using pmm_extend_identity_spec [of s7 e] b by auto
  have "rd32 (mem s1) mb_info \<noteq> 0 \<and> \<not> rd32 (mem s1) mb_info > 0x100000" using t by auto
  then have "pmm_init bss_end mb_info s = Some (0, s8)"
    using i e1 e2 p r s8(1)
    unfolding pmm_init_def s7_def s6_def s4_def by (simp only: Let_def case_prod_conv option.case refl if_False simp_thms)
  moreover have "pmm s8 = pmm s7" using boot_kept_fields [OF s8(2)] by simp
  ultimately show ?thesis
    using s8 f pmm_init_ranges_end [OF r] by (intro exI [of _ s7] exI [of _ s8] exI [of _ e]) (simp add: s7_def)
qed

section \<open>Properties\<close>

text \<open>A boot state for the witnesses: tables at 0x1000, 0x2000, 0x3000 and boot information at 0x9000.\<close>

definition boot_mem :: bytes where
  "boot_mem = wr64 (wr64 (wr64 demo_info (slot 0x3000 0) 0x83) (slot 0x2000 0) 0x3003) (slot 0x1000 0) 0x2003"

definition boot_sys :: sys where
  "boot_sys = \<lparr>con = vga_boot, mem = boot_mem, cr3 = 0x1000, cr2 = 0, tlb = \<lambda>_. None, pmm = raw_pmm\<rparr>"

lemma boot_sys_fields [simp]:
  "mem boot_sys = boot_mem" "cr3 boot_sys = 0x1000" "pmm boot_sys = raw_pmm"
  by (simp_all add: boot_sys_def)

lemma demo_info_low: "unat y < 0x9000 \<Longrightarrow> demo_info y = 0"
proof -
  assume "unat y < 0x9000"
  then have "unat (y - 0x9000) = unat y + 2 ^ 64 - 0x9000" using unat_sub_if' [of y "0x9000"] by simp
  then show ?thesis by (simp add: demo_info_def Let_def)
qed

lemma demo_info_slot:
  assumes "t AND 4095 = 0" "unat t \<le> 0x3000" "i < 512"
  shows "rd64 demo_info (slot t i) = 0"
proof -
  have "unat (slot t i) \<le> 0x3FF8"
    using assms slot_nat [OF assms(1,3)] by (simp add: word_less_nat_alt)
  then have "demo_info (slot t i + k) = 0" if "k < 8" for k
    using that by (intro demo_info_low) (simp add: unat_u64_add word_less_nat_alt)
  then have "rd64 demo_info (slot t i) = rd64 (\<lambda>_. 0) (slot t i)" by (intro rd64_cong) simp
  then show ?thesis by (simp add: rd64_def)
qed

lemma boot_mem_slot:
  assumes "t AND 4095 = 0" "unat t \<le> 0x3000" "i < 512"
  shows "rd64 boot_mem (slot t i) = (if i = 0 \<and> t = 0x1000 then 0x2003 else if i = 0 \<and> t = 0x2000 then 0x3003
    else if i = 0 \<and> t = 0x3000 then 0x83 else 0)"
proof -
  have al: "(0x1000 :: u64) AND 4095 = 0" "(0x2000 :: u64) AND 4095 = 0" "(0x3000 :: u64) AND 4095 = 0" "(0 :: u64) < 512"
    by simp_all
  note r = rd_slot_wr [OF _ al(4) assms(1,3)]
  show ?thesis
    unfolding boot_mem_def r [OF al(1)] r [OF al(2)] r [OF al(3)] demo_info_slot [OF assms] by argo
qed

lemma boot_mem_tables: "boot_tables boot_mem 0x1000" "boot_pd boot_mem 0x1000 = 0x3000"
  by (auto simp: boot_tables_def boot_pd_def boot_pdpt_def boot_mem_slot pte_frame_def pte_present_def
    pte_huge_def identity_entry_def)

lemma boot_mem_high: "0x4000 \<le> unat y \<Longrightarrow> boot_mem y = demo_info y"
proof -
  assume y: "0x4000 \<le> unat y"
  have "\<not> y - a < 8" if "unat a \<le> 0x3000" for a :: u64
    using y that by (simp add: word_less_nat_alt unat_sub word_le_nat_alt)
  then show ?thesis by (simp add: boot_mem_def wr64_def slot_def)
qed

lemma boot_mem_reads:
  "rd32 boot_mem 0x9000 = 64" "rd32 boot_mem 0x9008 = 1" "rd32 boot_mem 0x900C = 8" "rd32 boot_mem 0x9010 = 6"
  "rd32 boot_mem 0x9014 = 40" "rd32 boot_mem 0x9018 = 24" "rd32 boot_mem 0x9038 = 0"
  "rd64 boot_mem 0x9020 = 0x100000" "rd64 boot_mem 0x9028 = 0x100000" "rd32 boot_mem 0x9030 = 1"
  by (simp_all add: rd32_def rd64_def boot_mem_high) (simp_all add: demo_info_def)

lemma boot_mem_tags: "tags_at boot_mem 0x9040 0x9008 [OtherTag 1 8, MmapTag 24 [(demo_range, 1)]]"
  "usable_ranges [OtherTag 1 8, MmapTag 24 [(demo_range, 1)]] = [demo_range]"
  using boot_mem_reads by (simp_all add: mb2_align_up8_def demo_range_def usable_ranges_def usable_def)

lemma boot_sys_info: "info_apart 0x9000 boot_sys"
proof -
  have "\<not> x - 0x3000 < 4096" if "0x9000 \<le> unat x" for x :: u64
    using that by (simp add: word_less_nat_alt unat_sub word_le_nat_alt)
  then show ?thesis by (simp add: info_apart_def boot_mem_reads boot_mem_tables(2))
qed

text \<open>The run of \<^verbatim>\<open>pmm_init\<close> on well-formed boot information, with everything it leaves alone.\<close>

lemma pmm_init_runs:
  assumes "boot_tables (mem s) (cr3 s)" and "mb_info \<noteq> 0" and "info_apart mb_info s"
    and "0 < rd32 (mem s) mb_info" and "rd32 (mem s) mb_info \<le> 0x100000"
    and "tags_at (mem s) (mb_info + ucast (rd32 (mem s) mb_info)) (mb_info + 8) ts"
    and "length (usable_ranges ts) \<le> 32"
    and "length (pmm_bitmap (pmm s)) = unat PMM_BITMAP_BYTES" and "unat bss_end + 4095 < 2 ^ 64"
  obtains s' where "pmm_init bss_end mb_info s = Some (0, s')" "pmm_inv (pmm s')"
    "pmm_free_set (pmm s') = {f. f < PMM_FRAME_COUNT \<and> pmm_usable (usable_ranges ts) f \<and>
      frame_bytes f \<inter> ({..< 0x100000} \<union> {..< unat bss_end} \<union>
        {unat mb_info ..< unat mb_info + unat (rd32 (mem s) mb_info)}) = {}}"
    "\<forall>pa \<in> pmm_avail (pmm s'). identity_mapped s' (unat pa) (unat pa + 4096)" "cr3 s' = cr3 s" "sys_rest s' = sys_rest s"
    "boot_tables (mem s') (cr3 s)" "boot_pd (mem s') (cr3 s) = boot_pd (mem s) (cr3 s)"
    "\<forall>x. \<not> x - boot_pd (mem s) (cr3 s) < 4096 \<longrightarrow> mem s' x = mem s x"
    "pmm_static (pmm s') = (mb_info, mb_info + ucast (rd32 (mem s) mb_info))"
proof -
  obtain s1 s2 where e: "ensure_2mb_mapped mb_info 8 s = (0, s1)"
    "ensure_2mb_mapped mb_info (ucast (rd32 (mem s1) mb_info)) s1 = (0, s2)" and k: "boot_kept s s2"
    and r: "rd32 (mem s1) mb_info = rd32 (mem s) mb_info"
    by (rule ensure_info [OF assms(1,3,4)]) blast
  let ?fin = "mb_info + ucast (rd32 (mem s) mb_info)"
  have "unat ?fin = unat mb_info + unat (rd32 (mem s) mb_info)"
    using conjunct1 [OF assms(3) [unfolded info_apart_def]] unat_ucast_u32 [of "rd32 (mem s) mb_info"]
    by (subst unat_u64_add) (simp_all add: max_def split: if_splits)
  note ue = this
  have b2: "boot_tables (mem s2) (cr3 s2)" using k boot_kept_fields [OF k] unfolding boot_kept_def by simp
  have parse: "mb2_init (mem s2) mb_info True MB2_MAX_RANGES True = Some (Some (usable_ranges ts), Some ?fin)"
    by (rule mb2_init_kept [OF assms(3) k assms(4,5,6,7)])
  obtain s7 s8 e' where i: "pmm_init bss_end mb_info s = Some (0, s8)"
    "identity_mapped s8 0 (min (unat e') (2 ^ 30))"
    "pmm s8 = pmm_bitmap_init bss_end (usable_ranges ts)
      ((pmm s2)\<lparr>pmm_mb_info := mb_info, pmm_info_end := ?fin, pmm_max_end := e'\<rparr>)"
    "\<forall>r \<in> set (usable_ranges ts). min (unat (range_base r) + unat (range_length r)) 0x40000000 \<le> unat e'"
    and k8: "boot_kept s7 s8" "mem s7 = mem s2" "cr3 s7 = cr3 s2" "sys_rest s7 = sys_rest s2"
    using pmm_init_final [OF assms(2) e(1) _ _ e(2) parse b2, of bss_end] assms(4,5) r by auto
  let ?p = "(pmm s2)\<lparr>pmm_mb_info := mb_info, pmm_info_end := ?fin, pmm_max_end := e'\<rparr>"
  have "length (pmm_bitmap ?p) = unat PMM_BITMAP_BYTES" using assms(8) boot_kept_fields [OF k] by simp
  note fs = pmm_bitmap_init_set [OF this assms(9), of "usable_ranges ts", folded i(3)]
  have "\<forall>pa \<in> pmm_avail (pmm s8). identity_mapped s8 (unat pa) (unat pa + 4096)"
  proof
    fix pa assume "pa \<in> pmm_avail (pmm s8)"
    then have "unat pa + 4096 \<le> min (unat e') (2 ^ 30)"
      by (rule avail_below_end [OF _ _ i(4)]) (use fs in auto)
    then show "identity_mapped s8 (unat pa) (unat pa + 4096)" by (rule identity_mapped_mono [OF i(2) le0])
  qed
  moreover have c: "cr3 s2 = cr3 s" "cr3 s8 = cr3 s" using boot_kept_fields [OF k] boot_kept_fields [OF k8(1)] k8(3) by simp_all
  moreover have "boot_tables (mem s8) (cr3 s)" "boot_pd (mem s8) (cr3 s) = boot_pd (mem s) (cr3 s)"
    "\<forall>x. \<not> x - boot_pd (mem s) (cr3 s) < 4096 \<longrightarrow> mem s8 x = mem s x"
    using k k8(1-3) c(1) unfolding boot_kept_def by (simp_all add: c)
  moreover have "sys_rest s8 = sys_rest s" using boot_kept_rest [OF k] boot_kept_rest [OF k8(1)] k8(4) by simp
  moreover have "pmm_static (pmm s8) = (mb_info, ?fin)" unfolding i(3) by (simp add: pmm_static_def)
  moreover have "pmm_free_set (pmm s8) = {f. f < PMM_FRAME_COUNT \<and> pmm_usable (usable_ranges ts) f \<and>
      frame_bytes f \<inter> ({..< 0x100000} \<union> {..< unat bss_end} \<union>
        {unat mb_info ..< unat mb_info + unat (rd32 (mem s) mb_info)}) = {}}"
    using fs ue by (simp add: pmm_reserved_def)
  ultimately show thesis by (intro that [OF i(1) conjunct2 [OF fs]])
qed

text \<open>
  (C18) Boot of the memory manager: started on the boot page tables and a well-formed boot information
  structure, \<^verbatim>\<open>pmm_init\<close> returns 0; the free frames are exactly the frames inside a usable range and outside
  low memory, the kernel image and the structure; the allocator invariant holds; and every byte of every
  frame that can now be allocated is mapped to itself, so the pointers made from frame addresses are valid.
\<close>

theorem pmm_init_makes_frames_usable:
  assumes "boot_tables (mem s) (cr3 s)" and "mb_info \<noteq> 0" and "info_apart mb_info s"
    and "0 < rd32 (mem s) mb_info" and "rd32 (mem s) mb_info \<le> 0x100000"
    and "tags_at (mem s) (mb_info + ucast (rd32 (mem s) mb_info)) (mb_info + 8) ts"
    and "length (usable_ranges ts) \<le> 32"
    and "length (pmm_bitmap (pmm s)) = unat PMM_BITMAP_BYTES" and "unat bss_end + 4095 < 2 ^ 64"
  shows "\<exists>s'. pmm_init bss_end mb_info s = Some (0, s') \<and> pmm_inv (pmm s') \<and>
    pmm_free_set (pmm s') = {f. f < PMM_FRAME_COUNT \<and> pmm_usable (usable_ranges ts) f \<and>
      frame_bytes f \<inter> ({..< 0x100000} \<union> {..< unat bss_end} \<union>
        {unat mb_info ..< unat mb_info + unat (rd32 (mem s) mb_info)}) = {}} \<and>
    (\<forall>pa \<in> pmm_avail (pmm s'). identity_mapped s' (unat pa) (unat pa + 4096))"
proof -
  obtain s' where "pmm_init bss_end mb_info s = Some (0, s')" "pmm_inv (pmm s')"
    "pmm_free_set (pmm s') = {f. f < PMM_FRAME_COUNT \<and> pmm_usable (usable_ranges ts) f \<and>
      frame_bytes f \<inter> ({..< 0x100000} \<union> {..< unat bss_end} \<union>
        {unat mb_info ..< unat mb_info + unat (rd32 (mem s) mb_info)}) = {}}"
    "\<forall>pa \<in> pmm_avail (pmm s'). identity_mapped s' (unat pa) (unat pa + 4096)" by (rule pmm_init_runs [OF assms])
  then show ?thesis by (intro exI [of _ s'] conjI)
qed

theorem pmm_init_makes_frames_usable_witness:
  "\<exists>s'. pmm_init 0x110000 0x9000 boot_sys = Some (0, s') \<and> pmm_inv (pmm s')"
  using pmm_init_makes_frames_usable [of boot_sys "0x9000" "[OtherTag 1 8, MmapTag 24 [(demo_range, 1)]]" "0x110000"]
    boot_sys_info boot_mem_tables(1) boot_mem_tags raw_pmm(1)
  by (auto simp: boot_mem_reads pmm_len_def pmm_consts)

text \<open>
  The identity map: on the boot tables \<^verbatim>\<open>pmm_extend_identity\<close> succeeds, afterwards every address below
  \<^verbatim>\<open>max_end\<close> (clipped to 1GB) translates to itself, and no byte outside the page directory has changed.
\<close>

lemma pmm_extend_identity_maps:
  assumes "boot_tables (mem s) (cr3 s)"
  shows "case pmm_extend_identity max_end s of (r, s') \<Rightarrow> r = 0 \<and>
    (\<forall>va. unat va < min (unat max_end) (2 ^ 30) \<longrightarrow> mmu (mem s') (cr3 s') va = Some va) \<and>
    (\<forall>x. \<not> x - boot_pd (mem s) (cr3 s) < 4096 \<longrightarrow> mem s' x = mem s x) \<and> pmm s' = pmm s"
proof -
  obtain s' where s': "pmm_extend_identity max_end s = (0, s')" "boot_kept s s'"
    "identity_mapped s' 0 (min (unat max_end) (2 ^ 30))"
    using pmm_extend_identity_spec [OF assms] by blast
  have "\<forall>x. \<not> x - boot_pd (mem s) (cr3 s) < 4096 \<longrightarrow> mem s' x = mem s x" "pmm s' = pmm s"
    using s'(2) boot_kept_fields [OF s'(2)] unfolding boot_kept_def by blast+
  then show ?thesis using s'(3) unfolding s'(1) identity_mapped_def by (simp only: case_prod_conv) simp
qed

text \<open>
  \<^verbatim>\<open>ensure_2mb_mapped\<close> on the boot tables: the empty range succeeds without any change, a range that does
  not fit below 1GB (the sum may wrap around) is refused without any change, and every other range is
  mapped to itself.
\<close>

lemma ensure_2mb_mapped_maps:
  assumes "boot_tables (mem s) (cr3 s)"
  shows "if len = 0 then ensure_2mb_mapped addr len s = (0, s)
    else if unat addr + unat len > 2 ^ 30 then ensure_2mb_mapped addr len s = (-1, s)
    else (case ensure_2mb_mapped addr len s of (r, s') \<Rightarrow> r = 0 \<and>
      (\<forall>va. unat addr \<le> unat va \<and> unat va < unat addr + unat len \<longrightarrow> mmu (mem s') (cr3 s') va = Some va))"
proof (cases "len \<noteq> 0 \<and> unat addr + unat len \<le> 2 ^ 30")
  case True
  then show ?thesis
    using ensure_2mb_mapped_spec [OF assms, of len addr] by (auto simp: identity_mapped_def)
next
  case False
  then show ?thesis using ensure_refuses [of len addr s] by (auto simp: ensure_2mb_mapped_def)
qed

text \<open>The message of a failure, and the texts of the messages.\<close>

definition says :: "u8 list \<Rightarrow> 'a sys_scheme \<Rightarrow> 'a sys_scheme" where
  "says t s = s\<lparr>con := fold vga_putchar (t @ [0x0A]) (con s)\<rparr>"

lemma failure_formats:
  "kprintf (''M8: mb_info is NULL'' @ nl) [] s = says (cstr ''M8: mb_info is NULL'') s"
  "kprintf (''M8: cannot map mb_info header at %p'' @ nl) [VInt v] s = says (cstr ''M8: cannot map mb_info header at 0x'' @ hex 16 v) s"
  "kprintf (''M8: bad multiboot2 total_size=0x%x'' @ nl) [VInt (ucast (n :: u32))] s =
     says (cstr ''M8: bad multiboot2 total_size=0x'' @ num_text 16 False (unat n)) s"
  "kprintf (''M8: cannot map mb_info body (%u bytes)'' @ nl) [VInt (ucast n)] s =
     says (cstr ''M8: cannot map mb_info body ('' @ num_text 10 False (unat n) @ cstr '' bytes)'') s"
  "kprintf (''M8: mb2_init failed'' @ nl) [] s = says (cstr ''M8: mb2_init failed'') s"
proof -
  have u: "ucast (ucast (ucast n :: u64) :: u32) = (ucast n :: u64)" for n :: u32
    by (rule bit_word_eqI) (auto simp: bit_simps dest: bit_imp_le_length)
  note k = kprintf_text and S = says_def format_simps unat_ucast_u32 u
  show "kprintf (''M8: mb_info is NULL'' @ nl) [] s = says (cstr ''M8: mb_info is NULL'') s"
    "kprintf (''M8: mb2_init failed'' @ nl) [] s = says (cstr ''M8: mb2_init failed'') s"
    "kprintf (''M8: cannot map mb_info header at %p'' @ nl) [VInt v] s = says (cstr ''M8: cannot map mb_info header at 0x'' @ hex 16 v) s"
    "kprintf (''M8: bad multiboot2 total_size=0x%x'' @ nl) [VInt (ucast (n :: u32))] s =
       says (cstr ''M8: bad multiboot2 total_size=0x'' @ num_text 16 False (unat n)) s"
    "kprintf (''M8: cannot map mb_info body (%u bytes)'' @ nl) [VInt (ucast n)] s =
       says (cstr ''M8: cannot map mb_info body ('' @ num_text 10 False (unat n) @ cstr '' bytes)'') s"
    unfolding says_def by (rule kprintf_text, simp add: S)+
qed

text \<open>The eight bytes that are read first lie outside the page directory.\<close>

definition header_apart :: "u64 \<Rightarrow> 'a sys_scheme \<Rightarrow> bool" where
  "header_apart mb_info s \<longleftrightarrow> (\<forall>x. unat mb_info \<le> unat x \<and> unat x < unat mb_info + 8 \<longrightarrow> \<not> x - boot_pd (mem s) (cr3 s) < 4096)"

lemma header_agree:
  assumes "header_apart mb_info s" "boot_kept s s'" "unat mb_info + 8 \<le> 2 ^ 30"
  shows "rd32 (mem s') mb_info = rd32 (mem s) mb_info"
proof -
  have a: "agree (mem s) (mem s') (unat mb_info) (unat mb_info + 8)"
    using assms(1,2) unfolding agree_def header_apart_def boot_kept_def by auto
  show ?thesis by (rule agree_rd32 [OF a, symmetric]) (use assms(3) in simp_all)
qed

lemma pmm_init_header:
  assumes "boot_tables (mem s) (cr3 s)" and "mb_info \<noteq> 0" "unat mb_info + 8 \<le> 2 ^ 30" "header_apart mb_info s"
  obtains s1 where "ensure_2mb_mapped mb_info 8 s = (0, s1)" "boot_kept s s1" "rd32 (mem s1) mb_info = rd32 (mem s) mb_info"
proof -
  have fit: "unat mb_info + unat (8 :: u64) \<le> 2 ^ 30" using assms(3) by simp
  obtain s1 where s1: "ensure_2mb_mapped mb_info 8 s = (0, s1)" "boot_kept s s1"
    using ensure_2mb_mapped_spec [OF assms(1) _ fit] by auto
  then show thesis using that header_agree [OF assms(4) s1(2) assms(3)] by blast
qed

lemma pmm_init_bad_tags:
  assumes b: "boot_tables (mem s) (cr3 s)" and "mb_info \<noteq> 0" and i: "info_apart mb_info s"
    and t: "0 < rd32 (mem s) mb_info" "rd32 (mem s) mb_info \<le> 0x100000"
    and bad: "mb2_init (mem s) mb_info True MB2_MAX_RANGES True = Some (None, e)"
  shows "\<exists>s'. boot_kept s s' \<and> pmm_init bss_end mb_info s = Some (-1, says (cstr ''M8: mb2_init failed'') s')"
proof -
  obtain s1 s2 where s: "ensure_2mb_mapped mb_info 8 s = (0, s1)" "ensure_2mb_mapped mb_info (ucast (rd32 (mem s1) mb_info)) s1 = (0, s2)"
    "boot_kept s s2" "rd32 (mem s1) mb_info = rd32 (mem s) mb_info" by (rule ensure_info [OF b i t(1)]) blast
  have fit: "unat mb_info + unat (rd32 (mem s) mb_info) \<le> 2 ^ 30"
    using conjunct1 [OF i [unfolded info_apart_def]] by (simp add: max_def split: if_splits)
  have "agree (mem s) (mem s2) (unat mb_info) (unat mb_info + max 4 (unat (rd32 (mem s) mb_info)))"
    by (rule agree_mono [OF info_agree(1) [OF i s(3)]]) simp
  then have "mb2_init (mem s2) mb_info True MB2_MAX_RANGES True = mb2_init (mem s) mb_info True MB2_MAX_RANGES True"
    by (rule mb2_init_agree [OF fit, symmetric])
  then show ?thesis using s t assms(2) bad by (auto simp: pmm_init_def Let_def failure_formats not_less simp del: append.simps)
qed

abbreviation info_size :: "u64 \<Rightarrow> 'a sys_scheme \<Rightarrow> u32" where
  "info_size mb_info s \<equiv> rd32 (mem s) mb_info"

text \<open>
  (C35) The error paths of \<^verbatim>\<open>pmm_init\<close>, each with its message.  It returns -1 on a null pointer; on a header that does not lie below
  1GB; on a total size of 0 or above 1MB, whatever the 32-bit value, be it that the structure would reach past 1GB or across
  the page tables; on a structure of an acceptable size that reaches past 1GB; and on one in which the parser finds a
  malformed tag.  It then leaves the allocator as it was, and memory too, but for entries of the page directory.
\<close>

theorem pmm_init_rejects:
  assumes b: "boot_tables (mem s) (cr3 s)"
  shows "(mb_info = 0 \<longrightarrow> pmm_init bss_end mb_info s = Some (-1, says (cstr ''M8: mb_info is NULL'') s)) \<and>
    (2 ^ 30 < unat mb_info + 8 \<longrightarrow>
       pmm_init bss_end mb_info s = Some (-1, says (cstr ''M8: cannot map mb_info header at 0x'' @ hex 16 mb_info) s)) \<and>
    (mb_info \<noteq> 0 \<and> unat mb_info + 8 \<le> 2 ^ 30 \<and> header_apart mb_info s \<and>
     (unat (info_size mb_info s) = 0 \<or> 0x100000 < unat (info_size mb_info s)) \<longrightarrow>
       (\<exists>s'. boot_kept s s' \<and> pmm_init bss_end mb_info s =
          Some (-1, says (cstr ''M8: bad multiboot2 total_size=0x'' @ num_text 16 False (unat (info_size mb_info s))) s'))) \<and>
    (mb_info \<noteq> 0 \<and> unat mb_info + 8 \<le> 2 ^ 30 \<and> header_apart mb_info s \<and>
     0 < unat (info_size mb_info s) \<and> unat (info_size mb_info s) \<le> 0x100000 \<and> 2 ^ 30 < unat mb_info + unat (info_size mb_info s) \<longrightarrow>
       (\<exists>s'. boot_kept s s' \<and> pmm_init bss_end mb_info s =
          Some (-1, says (cstr ''M8: cannot map mb_info body ('' @ num_text 10 False (unat (info_size mb_info s)) @ cstr '' bytes)'') s'))) \<and>
    (mb_info \<noteq> 0 \<and> info_apart mb_info s \<and> 0 < unat (info_size mb_info s) \<and> unat (info_size mb_info s) \<le> 0x100000 \<and>
     mb2_init (mem s) mb_info True MB2_MAX_RANGES True = Some (None, e) \<longrightarrow>
       (\<exists>s'. boot_kept s s' \<and> pmm_init bss_end mb_info s = Some (-1, says (cstr ''M8: mb2_init failed'') s')))"
proof (intro conjI impI)
  show "pmm_init bss_end mb_info s = Some (-1, says (cstr ''M8: mb_info is NULL'') s)" if "mb_info = 0"
    using that by (simp add: pmm_init_def failure_formats del: append.simps)
next
  let ?n = "info_size mb_info s"
  assume h: "2 ^ 30 < unat mb_info + 8"
  then have "mb_info \<noteq> 0" "ensure_2mb_mapped mb_info 8 s = (-1, s)" by (auto intro: ensure_refuses)
  then show "pmm_init bss_end mb_info s = Some (-1, says (cstr ''M8: cannot map mb_info header at 0x'' @ hex 16 mb_info) s)"
    by (simp add: pmm_init_def failure_formats del: append.simps)
next
  let ?n = "info_size mb_info s"
  assume h: "mb_info \<noteq> 0 \<and> unat mb_info + 8 \<le> 2 ^ 30 \<and> header_apart mb_info s \<and> (unat ?n = 0 \<or> 0x100000 < unat ?n)"
  then obtain s1 where s1: "ensure_2mb_mapped mb_info 8 s = (0, s1)" "boot_kept s s1" "rd32 (mem s1) mb_info = ?n"
    using pmm_init_header [OF b] by metis
  have "?n = 0 \<or> 0x100000 < ?n" using h by (auto simp: word_less_nat_alt unat_eq_zero)
  then show "\<exists>s'. boot_kept s s' \<and> pmm_init bss_end mb_info s =
      Some (-1, says (cstr ''M8: bad multiboot2 total_size=0x'' @ num_text 16 False (unat ?n)) s')"
    using s1 h by (intro exI [of _ s1]) (auto simp: pmm_init_def failure_formats simp del: append.simps)
next
  let ?n = "info_size mb_info s"
  assume h: "mb_info \<noteq> 0 \<and> unat mb_info + 8 \<le> 2 ^ 30 \<and> header_apart mb_info s \<and> 0 < unat ?n \<and> unat ?n \<le> 0x100000 \<and> 2 ^ 30 < unat mb_info + unat ?n"
  then obtain s1 where s1: "ensure_2mb_mapped mb_info 8 s = (0, s1)" "boot_kept s s1" "rd32 (mem s1) mb_info = ?n"
    using pmm_init_header [OF b] by metis
  have n: "?n \<noteq> 0" "\<not> 0x100000 < ?n" using h by (auto simp: word_less_nat_alt)
  have "unat (ucast ?n :: u64) = unat ?n" by (rule unat_ucast_u32)
  then have "ensure_2mb_mapped mb_info (ucast ?n) s1 = (-1, s1)" using h by (intro ensure_refuses) (auto simp: unat_eq_zero)
  then show "\<exists>s'. boot_kept s s' \<and> pmm_init bss_end mb_info s =
      Some (-1, says (cstr ''M8: cannot map mb_info body ('' @ num_text 10 False (unat ?n) @ cstr '' bytes)'') s')"
    using s1 h n by (intro exI [of _ s1]) (simp add: pmm_init_def failure_formats del: append.simps)
next
  let ?n = "info_size mb_info s"
  assume h: "mb_info \<noteq> 0 \<and> info_apart mb_info s \<and> 0 < unat ?n \<and> unat ?n \<le> 0x100000 \<and>
     mb2_init (mem s) mb_info True MB2_MAX_RANGES True = Some (None, e)"
  then show "\<exists>s'. boot_kept s s' \<and> pmm_init bss_end mb_info s = Some (-1, says (cstr ''M8: mb2_init failed'') s')"
    by (intro pmm_init_bad_tags [OF b]) (auto simp: word_less_nat_alt word_le_nat_alt unat_eq_zero)
qed

text \<open>A total size of \<open>0xFFFFFFFF\<close>.\<close>

definition huge_sys :: sys where
  "huge_sys = boot_sys\<lparr>mem := wr32 boot_mem 0x9000 0xFFFFFFFF\<rparr>"

lemma huge_low: "unat y < 0x9000 \<Longrightarrow> mem huge_sys y = boot_mem y"
proof -
  assume "unat y < 0x9000"
  then have "unat (y - 0x9000) = unat y + 2 ^ 64 - 0x9000" using unat_sub_if' [of y "0x9000"] by simp
  then show ?thesis by (simp add: huge_sys_def wr32_def word_less_nat_alt)
qed

lemma huge_slot:
  assumes "t AND 4095 = 0" "unat t \<le> 0x3000" "i < 512"
  shows "rd64 (mem huge_sys) (slot t i) = rd64 boot_mem (slot t i)"
proof (rule rd64_cong)
  fix k :: u64 assume "k < 8"
  moreover have "unat (slot t i) \<le> 0x3FF8"
    using assms slot_nat [OF assms(1,3)] by (simp add: word_less_nat_alt)
  ultimately show "mem huge_sys (slot t i + k) = boot_mem (slot t i + k)"
    by (intro huge_low) (simp add: unat_u64_add word_less_nat_alt)
qed

lemma huge_tables: "boot_tables (mem huge_sys) 0x1000" "boot_pd (mem huge_sys) 0x1000 = 0x3000"
  by (auto simp: boot_tables_def boot_pd_def boot_pdpt_def huge_slot boot_mem_slot pte_frame_def pte_present_def
    pte_huge_def identity_entry_def)

lemma huge_header: "info_size 0x9000 huge_sys = 0xFFFFFFFF" "cr3 huge_sys = 0x1000" "header_apart 0x9000 huge_sys"
proof -
  show "info_size 0x9000 huge_sys = 0xFFFFFFFF" by (simp add: huge_sys_def)
  show c: "cr3 huge_sys = 0x1000" by (simp add: huge_sys_def)
  have "\<not> x - 0x3000 < 4096" if "0x9000 \<le> unat x" for x :: u64
    using that by (simp add: word_less_nat_alt unat_sub word_le_nat_alt)
  then show "header_apart 0x9000 huge_sys" by (simp add: header_apart_def c huge_tables(2))
qed

theorem pmm_init_rejects_witness:
  "\<exists>s'. boot_kept huge_sys s' \<and> pmm_init 0x110000 0x9000 huge_sys =
    Some (-1, says (cstr ''M8: bad multiboot2 total_size=0xffffffff'') s')"
proof -
  have n: "num_text 16 False (unat (0xFFFFFFFF :: u32)) = cstr ''ffffffff''" by (simp add: num_text.simps digit_text_def cstr_def)
  have c: "cstr ''M8: bad multiboot2 total_size=0x'' @ cstr ''ffffffff'' = cstr ''M8: bad multiboot2 total_size=0xffffffff''"
    by (simp add: cstr_def)
  show ?thesis
    using pmm_init_rejects [of huge_sys "0x9000" "0x110000"] huge_tables(1) unfolding huge_header n c
    by (simp add: huge_header(3))
qed

end
