(* ===== verification/Vm.thy ===== *)
theory Vm
  imports Pmm_Boot
begin

text \<open>
  Virtual memory (\<^verbatim>\<open>src/src/vm.c\<close>, \<^verbatim>\<open>src/src/vm.h\<close>): the four-level table walker, mapping and unmapping of 4KB
  pages, address spaces, and the page-fault handler.  The record \<^verbatim>\<open>vm_sys\<close> extends the machine by the
  statics of the file; a pointer to a table is its physical address.  The block of \<^verbatim>\<open>vm_walk\<close> that the C
  code repeats for each level is \<^verbatim>\<open>vm_next\<close>.
\<close>

definition VM_PAGE_SIZE :: u64 where "VM_PAGE_SIZE = 4096"
definition VM_PTE_PRESENT :: u64 where "VM_PTE_PRESENT = 1"
definition VM_PTE_WRITE :: u64 where "VM_PTE_WRITE = 2"
definition VM_PTE_HUGE :: u64 where "VM_PTE_HUGE = 0x80"
definition VM_ADDR_MASK :: u64 where "VM_ADDR_MASK = 0x000FFFFFFFFFF000"
definition VM_HEAP_BASE :: u64 where "VM_HEAP_BASE = 0xFFFF800000000000"
definition VM_HEAP_SIZE :: u64 where "VM_HEAP_SIZE = 0x01000000"

record vm_sys = sys +
  vm_kernel_space_ptr :: u64
  vm_faults :: u64
  vm_in_fault :: bool

definition vm_init :: "'a vm_sys_scheme \<Rightarrow> int \<times> 'a vm_sys_scheme" where
  "vm_init s = (0, s\<lparr>vm_kernel_space_ptr := read_cr3 s AND VM_ADDR_MASK, vm_faults := 0, vm_in_fault := False\<rparr>)"

definition vm_kernel_space :: "'a vm_sys_scheme \<Rightarrow> u64" where
  "vm_kernel_space s = vm_kernel_space_ptr s"

definition vm_current_space :: "'a sys_scheme \<Rightarrow> u64" where
  "vm_current_space s = read_cr3 s AND VM_ADDR_MASK"

definition vm_next :: "bool \<Rightarrow> u64 \<Rightarrow> 'a sys_scheme \<Rightarrow> u64 option \<times> 'a sys_scheme" where
  "vm_next create pte s =
     (if rd64 (mem s) pte AND VM_PTE_PRESENT = 0
      then
        (if \<not> create then (None, s)
         else
           (let (pa, s1) = alloc_frame s in
            if pa = 0 then (None, s1)
            else
              (let m1 = zero_table pa (mem s1);
                   m2 = wr64 m1 pte ((pa AND VM_ADDR_MASK) OR VM_PTE_PRESENT OR VM_PTE_WRITE)
               in (Some (rd64 m2 pte AND VM_ADDR_MASK), s1\<lparr>mem := m2\<rparr>))))
      else if rd64 (mem s) pte AND VM_PTE_HUGE \<noteq> 0 then (None, s)
      else (Some (rd64 (mem s) pte AND VM_ADDR_MASK), s))"

definition vm_walk :: "u64 \<Rightarrow> u64 \<Rightarrow> bool \<Rightarrow> 'a sys_scheme \<Rightarrow> u64 option \<times> 'a sys_scheme" where
  "vm_walk space va create s =
     (if space = 0 then (None, s)
      else
        (case vm_next create (slot space (drop_bit 39 va AND 0x1FF)) s of
           (None, s1) \<Rightarrow> (None, s1)
         | (Some pdpt, s1) \<Rightarrow>
             (case vm_next create (slot pdpt (drop_bit 30 va AND 0x1FF)) s1 of
                (None, s2) \<Rightarrow> (None, s2)
              | (Some pd, s2) \<Rightarrow>
                  (case vm_next create (slot pd (drop_bit 21 va AND 0x1FF)) s2 of
                     (None, s3) \<Rightarrow> (None, s3)
                   | (Some pt, s3) \<Rightarrow> (Some (slot pt (drop_bit 12 va AND 0x1FF)), s3)))))"

definition vm_map :: "u64 \<Rightarrow> u64 \<Rightarrow> u64 \<Rightarrow> u64 \<Rightarrow> 'a sys_scheme \<Rightarrow> int \<times> 'a sys_scheme" where
  "vm_map space va pa flags s =
     (if space = 0 then (-1, s)
      else if va AND (VM_PAGE_SIZE - 1) \<noteq> 0 \<or> pa AND (VM_PAGE_SIZE - 1) \<noteq> 0 then (-1, s)
      else if pa \<ge> PMM_MAX_PHYS then (-1, s)
      else if va < PMM_MAX_PHYS then (-1, s)
      else
        (case vm_walk space va True s of
           (None, s1) \<Rightarrow> (-1, s1)
         | (Some pte, s1) \<Rightarrow>
             if rd64 (mem s1) pte AND VM_PTE_PRESENT \<noteq> 0 then (-1, s1)
             else (0, invlpg va (s1\<lparr>mem := wr64 (mem s1) pte ((pa AND VM_ADDR_MASK) OR flags)\<rparr>))))"

definition vm_unmap :: "u64 \<Rightarrow> u64 \<Rightarrow> 'a sys_scheme \<Rightarrow> u64 \<times> 'a sys_scheme" where
  "vm_unmap space va s =
     (if space = 0 then (0, s)
      else
        (case vm_walk space va False s of
           (None, s1) \<Rightarrow> (0, s1)
         | (Some pte, s1) \<Rightarrow>
             if rd64 (mem s1) pte AND VM_PTE_PRESENT = 0 then (0, s1)
             else
               (let old_pa = rd64 (mem s1) pte AND VM_ADDR_MASK
                in (old_pa, invlpg va (s1\<lparr>mem := wr64 (mem s1) pte 0\<rparr>)))))"

definition vm_create_space :: "'a vm_sys_scheme \<Rightarrow> u64 \<times> 'a vm_sys_scheme" where
  "vm_create_space s =
     (if vm_kernel_space_ptr s = 0 then (0, s)
      else
        (let (pa, s1) = alloc_frame s in
         if pa = 0 then (0, s1)
         else
           (let m1 = zero_table pa (mem s1);
                ks = vm_kernel_space_ptr s1;
                m2 = wr64 m1 (slot pa 0) (rd64 m1 (slot ks 0));
                m3 = fold (\<lambda>i m. wr64 m (slot pa (of_nat i)) (rd64 m (slot ks (of_nat i)))) [256..<512] m2
            in (pa, s1\<lparr>mem := m3\<rparr>))))"

definition vm_switch :: "u64 \<Rightarrow> 'a sys_scheme \<Rightarrow> 'a sys_scheme" where
  "vm_switch space s = (if space = 0 then s else write_cr3 space s)"

definition vm_switch_kernel :: "'a vm_sys_scheme \<Rightarrow> 'a vm_sys_scheme" where
  "vm_switch_kernel s = vm_switch (vm_kernel_space_ptr s) s"

definition vm_handle_page_fault :: "regs_t \<Rightarrow> 'a vm_sys_scheme \<Rightarrow> int \<times> 'a vm_sys_scheme" where
  "vm_handle_page_fault r s =
     (let va = cr2 s; err = error_code r in
      if vm_in_fault s then (0, s)
      else if err AND 1 \<noteq> 0 then (0, s)
      else if err AND 8 \<noteq> 0 then (0, s)
      else if err AND 16 \<noteq> 0 then (0, s)
      else if va < VM_HEAP_BASE \<or> va \<ge> VM_HEAP_BASE + VM_HEAP_SIZE then (0, s)
      else
        (let s1 = s\<lparr>vm_in_fault := True\<rparr>;
             (frame, s2) = alloc_frame s1 in
         if frame = 0 then (0, s2\<lparr>vm_in_fault := False\<rparr>)
         else
           (let s3 = s2\<lparr>mem := zero_table frame (mem s2)\<rparr>;
                page = va AND NOT (VM_PAGE_SIZE - 1);
                (r1, s4) = vm_map (vm_current_space s3) page frame (VM_PTE_PRESENT OR VM_PTE_WRITE) s3
            in if r1 \<noteq> 0 then (0, (free_frame frame s4)\<lparr>vm_in_fault := False\<rparr>)
               else (1, s4\<lparr>vm_faults := vm_faults s4 + 1, vm_in_fault := False\<rparr>))))"

definition vm_fault_count :: "'a vm_sys_scheme \<Rightarrow> u64" where
  "vm_fault_count s = vm_faults s"

lemmas vm_consts = VM_PAGE_SIZE_def VM_PTE_PRESENT_def VM_PTE_WRITE_def VM_PTE_HUGE_def VM_ADDR_MASK_def

section \<open>Trees of page tables\<close>

text \<open>The table that an entry points to, if it is present and not a large page.\<close>

definition child :: "bytes \<Rightarrow> u64 \<Rightarrow> u64 \<Rightarrow> u64 option" where
  "child m t i = (let e = rd64 m (slot t i) in if pte_present e \<and> \<not> pte_huge e then Some (pte_frame e) else None)"

text \<open>
  Well-formed tables.  \<^verbatim>\<open>lv\<close> gives the level of every frame in use as a table (0 for the others): tables are
  allocated frames, entries lead one level down, and a table has one parent entry, except that root
  tables may share what hangs off their entries 0 and 256 to 511 (the kernel's part).
\<close>

definition wf_tables :: "(u64 \<Rightarrow> nat) \<Rightarrow> bytes \<Rightarrow> u64 set \<Rightarrow> bool" where
  "wf_tables lv m av \<longleftrightarrow>
     (\<forall>t. 0 < lv t \<longrightarrow> lv t \<le> 4 \<and> is_frame t \<and> t \<notin> av) \<and>
     (\<forall>t i c. 2 \<le> lv t \<longrightarrow> i < 512 \<longrightarrow> child m t i = Some c \<longrightarrow> lv c = lv t - 1) \<and>
     (\<forall>t i t' i' c. 2 \<le> lv t \<longrightarrow> 2 \<le> lv t' \<longrightarrow> i < 512 \<longrightarrow> i' < 512 \<longrightarrow>
        child m t i = Some c \<longrightarrow> child m t' i' = Some c \<longrightarrow>
        i = i' \<and> (t = t' \<or> lv t = 4 \<and> (i = 0 \<or> 256 \<le> i)))"

definition shared_ix :: "u64 \<Rightarrow> bool" where
  "shared_ix i \<longleftrightarrow> i = 0 \<or> 256 \<le> i"

lemma wf_frame:
  assumes "wf_tables lv m av" "0 < lv t"
  shows "t AND 4095 = 0" "t \<noteq> 0" "is_frame t" "t \<notin> av" "lv t \<le> 4"
  using assms by (auto simp: wf_tables_def is_frame_def)

lemma wf_child: "wf_tables lv m av \<Longrightarrow> 2 \<le> lv t \<Longrightarrow> i < 512 \<Longrightarrow> child m t i = Some c \<Longrightarrow> lv c = lv t - 1"
  unfolding wf_tables_def by blast

lemma wf_parent:
  "wf_tables lv m av \<Longrightarrow> 2 \<le> lv t \<Longrightarrow> 2 \<le> lv t' \<Longrightarrow> i < 512 \<Longrightarrow> i' < 512 \<Longrightarrow>
     child m t i = Some c \<Longrightarrow> child m t' i' = Some c \<Longrightarrow> i = i' \<and> (t = t' \<or> lv t = 4 \<and> shared_ix i)"
  unfolding wf_tables_def shared_ix_def by blast

text \<open>The level-1 table that a walk reaches.\<close>

fun pt_of :: "bytes \<Rightarrow> nat \<Rightarrow> u64 \<Rightarrow> u64 \<Rightarrow> u64 option" where
  "pt_of m 0 t va = None"
| "pt_of m (Suc k) t va =
     (if k = 0 then Some t
      else case child m t (pt_index (Suc k) va) of None \<Rightarrow> None | Some c \<Rightarrow> pt_of m k c va)"

definition same_page :: "u64 \<Rightarrow> u64 \<Rightarrow> bool" where
  "same_page va va' \<longleftrightarrow> (\<forall>k \<in> {1, 2, 3, 4}. pt_index k va = pt_index k va')"

lemma pt_of_level: "wf_tables lv m av \<Longrightarrow> lv t = k \<Longrightarrow> pt_of m k t va = Some p \<Longrightarrow> lv p = 1"
proof (induction k arbitrary: t)
  case (Suc k)
  show ?case
  proof (cases "k = 0")
    case False
    then obtain c where c: "child m t (pt_index (Suc k) va) = Some c" "pt_of m k c va = Some p"
      using Suc.prems(3) by (auto split: option.splits)
    have "lv c = k" using wf_child [OF Suc.prems(1) _ _ c(1)] Suc.prems(2) False by simp
    then show ?thesis using Suc.IH [OF Suc.prems(1) _ c(2)] by simp
  qed (use Suc.prems in simp)
qed simp

text \<open>Two walks that reach the same page table used the same indices.\<close>

lemma pt_of_inj:
  "wf_tables lv m av \<Longrightarrow> lv t = k \<Longrightarrow> lv t' = k \<Longrightarrow> pt_of m k t va = Some p \<Longrightarrow> pt_of m k t' va' = Some p \<Longrightarrow>
     (\<forall>j \<in> {2..k}. pt_index j va = pt_index j va') \<and> (t = t' \<or> k = 4 \<and> shared_ix (pt_index 4 va))"
proof (induction k arbitrary: t t')
  case (Suc k)
  show ?case
  proof (cases "k = 0")
    case False
    then obtain c c' where c: "child m t (pt_index (Suc k) va) = Some c" "pt_of m k c va = Some p"
      "child m t' (pt_index (Suc k) va') = Some c'" "pt_of m k c' va' = Some p"
      using Suc.prems(4,5) by (auto split: option.splits)
    have lv: "lv c = k" "lv c' = k" "k < 4"
      using wf_child [OF Suc.prems(1) _ _ c(1)] wf_child [OF Suc.prems(1) _ _ c(3)]
        wf_frame(5) [OF Suc.prems(1), of t] Suc.prems(2,3) False by simp_all
    note IH = Suc.IH [OF Suc.prems(1) lv(1,2) c(2,4)]
    then have "c' = c" using lv(3) by auto
    then have "pt_index (Suc k) va = pt_index (Suc k) va' \<and> (t = t' \<or> Suc k = 4 \<and> shared_ix (pt_index (Suc k) va))"
      using wf_parent [OF Suc.prems(1) _ _ _ _ c(1), of t' "pt_index (Suc k) va'"] c(3) Suc.prems(2,3) False by auto
    moreover have "{2..Suc k} = insert (Suc k) {2..k}" using False by auto
    ultimately show ?thesis using IH by auto
  qed (use Suc.prems in simp)
qed simp

section \<open>Changing a page-table entry\<close>

lemma child_wr:
  assumes "t AND 4095 = 0" "i < 512" "t' AND 4095 = 0" "i' < 512" "t' \<noteq> t \<or> i' \<noteq> i"
  shows "child (wr64 m (slot t i) v) t' i' = child m t' i'"
  using assms by (auto simp: child_def rd_slot_wr)

text \<open>Tables with the same child entries are well formed together.\<close>

lemma wf_same_children:
  assumes wf: "wf_tables lv m av" and sub: "av' \<subseteq> av"
    and eq: "\<And>t i. 2 \<le> lv t \<Longrightarrow> i < 512 \<Longrightarrow> child m' t i = child m t i"
  shows "wf_tables lv m' av'"
proof -
  have "\<forall>t. 0 < lv t \<longrightarrow> lv t \<le> 4 \<and> is_frame t \<and> t \<notin> av'"
    using wf sub by (auto simp: wf_tables_def)
  moreover have "\<forall>t i c. 2 \<le> lv t \<longrightarrow> i < 512 \<longrightarrow> child m' t i = Some c \<longrightarrow> lv c = lv t - 1"
    using wf_child [OF wf] eq by metis
  moreover have "\<forall>t i t' i' c. 2 \<le> lv t \<longrightarrow> 2 \<le> lv t' \<longrightarrow> i < 512 \<longrightarrow> i' < 512 \<longrightarrow>
        child m' t i = Some c \<longrightarrow> child m' t' i' = Some c \<longrightarrow>
        i = i' \<and> (t = t' \<or> lv t = 4 \<and> (i = 0 \<or> 256 \<le> i))"
    using wf_parent [OF wf] eq unfolding shared_ix_def by metis
  ultimately show ?thesis unfolding wf_tables_def by blast
qed

lemma mmu_leaf_child:
  assumes "0 < k"
  shows "mmu_leaf m (Suc k) t va = (case child m t (pt_index (Suc k) va) of
     Some c \<Rightarrow> mmu_leaf m k c va
   | None \<Rightarrow> (let e = rd64 m (slot t (pt_index (Suc k) va)) in
       if pte_present e \<and> k \<noteq> 3 then Some (Suc k, e) else None))"
  using assms by (auto simp: child_def Let_def split: option.splits)

text \<open>A write to entry \<^verbatim>\<open>i\<close> of the level-1 table \<^verbatim>\<open>p\<close> changes the translations through that entry and no other.\<close>

lemma leaf_child:
  "wf_tables lv m av \<Longrightarrow> lv p = 1 \<Longrightarrow> i < 512 \<Longrightarrow> 2 \<le> lv t \<Longrightarrow> j < 512 \<Longrightarrow>
     child (wr64 m (slot p i) v) t j = child m t j"
  using wf_frame(1) [of lv m av t] wf_frame(1) [of lv m av p] by (intro child_wr) auto

lemma leaf_wf:
  assumes "wf_tables lv m av" "lv p = 1" "i < 512"
  shows "wf_tables lv (wr64 m (slot p i) v) av"
  by (rule wf_same_children [OF assms(1) subset_refl leaf_child [OF assms]])

lemma leaf_mmu:
  assumes wf: "wf_tables lv m av" and p: "lv p = 1" and i: "i < 512"
  shows "lv t = k \<Longrightarrow> mmu_leaf (wr64 m (slot p i) v) k t va =
     (if pt_of m k t va = Some p \<and> pt_index 1 va = i
      then (if pte_present v then Some (1, v) else None) else mmu_leaf m k t va)"
proof (induction k arbitrary: t)
  case (Suc k)
  let ?m = "wr64 m (slot p i) v" and ?j = "pt_index (Suc k) va"
  have r: "rd64 ?m (slot t ?j) = (if t = p \<and> ?j = i then v else rd64 m (slot t ?j))"
    using wf_frame(1) [OF wf, of t] wf_frame(1) [OF wf, of p] p i Suc.prems by (simp add: rd_slot_wr)
  show ?case
  proof (cases "k = 0")
    case True
    then show ?thesis using r by (auto simp: Let_def)
  next
    case False
    then have t: "2 \<le> lv t" "t \<noteq> p" using Suc.prems p by auto
    have c: "child ?m t ?j = child m t ?j" by (rule leaf_child [OF wf p i t(1)]) simp
    have k: "0 < k" using False by simp
    show ?thesis
    proof (cases "child m t ?j")
      case None
      then show ?thesis using r t(2) False unfolding mmu_leaf_child [OF k] c by simp
    next
      case (Some d)
      then have "lv d = k" using wf_child [OF wf t(1) _ Some] Suc.prems by simp
      then show ?thesis using Suc.IH [of d] Some False unfolding mmu_leaf_child [OF k] c by simp
    qed
  qed
qed simp

section \<open>Adding a table\<close>

text \<open>An available frame, cleared and entered into the empty entry \<^verbatim>\<open>i\<close> of a table, translates nothing new.\<close>

definition new_table :: "u64 \<Rightarrow> u64 \<Rightarrow> u64 \<Rightarrow> bytes \<Rightarrow> bytes" where
  "new_table t i pa m = wr64 (zero_table pa m) (slot t i) (pa OR 3)"

lemma low_frame_mask: "pa AND 4095 = 0 \<Longrightarrow> pa < PMM_MAX_PHYS \<Longrightarrow> pte_frame pa = pa"
proof -
  assume "pa AND 4095 = 0" "pa < PMM_MAX_PHYS"
  then have pa: "pa AND 4095 = 0" "unat pa < 2 ^ 52" by (simp_all add: word_less_nat_alt PMM_MAX_PHYS_def)
  have "take_bit 52 pa = pa" using pa(2) by (simp add: word_unat_eq_iff unsigned_take_bit_eq take_bit_nat_eq_self)
  then have "pa AND mask 52 = pa" by (simp add: take_bit_eq_mask)
  moreover have "pa AND NOT (mask 12) = pa"
    using pa(1) by (auto simp: bit_eq_iff bit_simps mask_12_u64 [symmetric])
  moreover have c: "(0x000FFFFFFFFFF000 :: u64) = mask 52 AND NOT (mask 12)" by (simp add: mask_numeral)
  ultimately show ?thesis unfolding pte_frame_def c and.assoc [symmetric] by simp
qed

lemma frame_mask: "is_frame pa \<Longrightarrow> pte_frame pa = pa"
  by (rule low_frame_mask) (simp_all add: is_frame_def)

lemma frame_entry:
  assumes "pa AND 4095 = 0" "pa < PMM_MAX_PHYS" "pte_frame flags = 0"
  shows "pte_frame (pa OR flags) = pa" "pte_present (pa OR flags) = pte_present flags"
    "pte_huge (pa OR flags) = pte_huge flags"
proof -
  have z: "(pa AND 4095) AND k = 0" for k using assms(1) by simp
  have "pa AND 1 = 0" "pa AND 0x80 = 0" using z [of 1] z [of "0x80"] by (simp_all add: and.assoc)
  then show "pte_frame (pa OR flags) = pa" "pte_present (pa OR flags) = pte_present flags"
    "pte_huge (pa OR flags) = pte_huge flags"
    using assms(3) low_frame_mask [OF assms(1,2)]
    by (simp_all add: pte_frame_def pte_present_def pte_huge_def bit.conj_disj_distrib2)
qed

lemma table_entry:
  assumes "is_frame pa"
  shows "pte_frame (pa OR 3) = pa" "pte_present (pa OR 3)" "\<not> pte_huge (pa OR 3)"
  using frame_entry [of pa 3] assms unfolding is_frame_def by (simp_all add: pte_frame_def pte_present_def pte_huge_def)

lemma page_of_iff:
  assumes "t AND 4095 = 0"
  shows "x AND NOT 4095 = t \<longleftrightarrow> x - t < (4096 :: u64)"
proof -
  obtain k where k: "unat t = 4096 * k" using assms by (auto simp: aligned4096_iff elim: dvdE)
  have kb: "k < 2 ^ 52" using unat_u64_bound [of t] k by simp
  have p: "unat (x AND NOT 4095) = 4096 * (unat x div 4096)"
    using and_not_4095_nat [of x] by (simp add: minus_mod_eq_mult_div)
  show ?thesis
  proof (cases "unat t \<le> unat x")
    case True
    then have "unat (x - t) = unat x - 4096 * k" using unat_sub_if' [of x t] k by simp
    moreover have "unat x - 4096 * k < 4096 \<longleftrightarrow> unat x div 4096 = k" using True k by auto
    ultimately show ?thesis using p k by (simp add: word_unat_eq_iff word_less_nat_alt)
  next
    case False
    then have "unat (x - t) = unat x + 2 ^ 64 - 4096 * k" using unat_sub_if' [of x t] k by simp
    then have "\<not> x - t < 4096" using kb by (simp add: word_less_nat_alt)
    moreover have "unat x div 4096 \<noteq> k" using False k by auto
    ultimately show ?thesis using p k by (simp add: word_unat_eq_iff)
  qed
qed

lemma slot_outside: "t AND 4095 = 0 \<Longrightarrow> i < 512 \<Longrightarrow> x AND NOT 4095 \<noteq> t \<Longrightarrow> wr64 m (slot t i) v x = m x"
  using slot_inside [of i x t] page_of_iff [of t x] by (simp add: wr64_outside)

lemma zero_table_outside: "t AND 4095 = 0 \<Longrightarrow> x AND NOT 4095 \<noteq> t \<Longrightarrow> zero_table t m x = m x"
proof -
  assume t: "t AND 4095 = 0" "x AND NOT 4095 \<noteq> t"
  have "fold (\<lambda>i m. wr64 m (slot t (of_nat i)) 0) [0..<n] m x = m x" if "n \<le> 512" for n
    using that
  proof (induction n)
    case (Suc n)
    then have "(of_nat n :: u64) < 512" by (simp add: word_less_nat_alt unat_of_nat_u64)
    then show ?case using Suc slot_outside [OF t(1) _ t(2)] by simp
  qed simp
  then show ?thesis unfolding zero_table_def by blast
qed

lemma new_table_outside:
  "t AND 4095 = 0 \<Longrightarrow> i < 512 \<Longrightarrow> is_frame pa \<Longrightarrow> x AND NOT 4095 \<noteq> t \<Longrightarrow> x AND NOT 4095 \<noteq> pa \<Longrightarrow>
     new_table t i pa m x = m x"
  using slot_outside zero_table_outside unfolding new_table_def is_frame_def by metis

lemma new_table_rd:
  assumes "is_frame pa" "t AND 4095 = 0" "i < 512" "t' AND 4095 = 0" "i' < 512"
  shows "rd64 (new_table t i pa m) (slot t' i') =
    (if t' = t \<and> i' = i then pa OR 3 else if t' = pa then 0 else rd64 m (slot t' i'))"
  using assms by (simp add: new_table_def rd_slot_wr rd_zero_table is_frame_def)

lemma new_table_child:
  assumes "is_frame pa" "t AND 4095 = 0" "i < 512" "t' AND 4095 = 0" "i' < 512"
  shows "child (new_table t i pa m) t' i' =
    (if t' = t \<and> i' = i then Some pa else if t' = pa then None else child m t' i')"
  using new_table_rd [OF assms] table_entry [OF assms(1)] by (simp add: child_def Let_def pte_present_def)

lemma new_table_wf:
  assumes wf: "wf_tables lv m av" and t: "2 \<le> lv t" and i: "i < 512" and pa: "pa \<in> av" "is_frame pa"
    and e: "\<not> pte_present (rd64 m (slot t i))"
  shows "wf_tables (lv(pa := lv t - 1)) (new_table t i pa m) (av - {pa})"
proof -
  let ?lv = "lv(pa := lv t - 1)" and ?m = "new_table t i pa m"
  have lp: "lv pa = 0" using wf_frame(4) [OF wf, of pa] pa(1) by (cases "lv pa") auto
  have tp: "t \<noteq> pa" using lp t by auto
  have al: "?lv x \<noteq> 0 \<Longrightarrow> x AND 4095 = 0" for x
    using wf_frame(1) [OF wf, of x] pa(2) by (auto simp: is_frame_def split: if_splits)
  have ch: "?lv x \<noteq> 0 \<Longrightarrow> j < 512 \<Longrightarrow> child ?m x j =
      (if x = t \<and> j = i then Some pa else if x = pa then None else child m x j)" for x j
    using al [of t] al [of x] t tp by (intro new_table_child [OF pa(2) _ i]) auto
  have np: "child m x j \<noteq> Some pa" if "2 \<le> lv x" "j < 512" for x j
    using wf_child [OF wf that(1,2), of pa] lp that(1) by auto
  have "\<forall>x. 0 < ?lv x \<longrightarrow> ?lv x \<le> 4 \<and> is_frame x \<and> x \<notin> av - {pa}"
  proof (intro allI impI)
    fix x assume "0 < ?lv x"
    then show "?lv x \<le> 4 \<and> is_frame x \<and> x \<notin> av - {pa}"
      using wf_frame(3-5) [OF wf, of x] wf_frame(5) [OF wf, of t] pa(2) t by (cases "x = pa") auto
  qed
  moreover have "\<forall>x j c. 2 \<le> ?lv x \<longrightarrow> j < 512 \<longrightarrow> child ?m x j = Some c \<longrightarrow> ?lv c = ?lv x - 1"
    using ch np wf_child [OF wf] tp by (auto split: if_splits)
  moreover have "\<forall>x j x' j' c. 2 \<le> ?lv x \<longrightarrow> 2 \<le> ?lv x' \<longrightarrow> j < 512 \<longrightarrow> j' < 512 \<longrightarrow>
      child ?m x j = Some c \<longrightarrow> child ?m x' j' = Some c \<longrightarrow>
      j = j' \<and> (x = x' \<or> ?lv x = 4 \<and> (j = 0 \<or> 256 \<le> j))"
  proof (intro allI impI)
    fix x j x' j' c
    assume a: "2 \<le> ?lv x" "2 \<le> ?lv x'" "j < 512" "j' < 512" "child ?m x j = Some c" "child ?m x' j' = Some c"
    show "j = j' \<and> (x = x' \<or> ?lv x = 4 \<and> (j = 0 \<or> 256 \<le> j))"
    proof (cases "c = pa")
      case True
      then have "x = t \<and> j = i" "x' = t \<and> j' = i"
        using a ch [of x j] ch [of x' j'] np [of x j] np [of x' j'] by (auto split: if_splits)
      then show ?thesis by simp
    next
      case False
      then have "x \<noteq> pa" "x' \<noteq> pa" "child m x j = Some c" "child m x' j' = Some c"
        using a ch [of x j] ch [of x' j'] by (auto split: if_splits)
      then show ?thesis using wf_parent [OF wf, of x x' j j' c] a unfolding shared_ix_def by auto
    qed
  qed
  ultimately show ?thesis unfolding wf_tables_def by blast
qed

lemma new_table_mmu:
  assumes wf: "wf_tables lv m av" and t: "2 \<le> lv t" and i: "i < 512" and pa: "pa \<in> av" "is_frame pa"
    and e: "\<not> pte_present (rd64 m (slot t i))"
  shows "0 < lv x \<Longrightarrow> lv x = k \<Longrightarrow> mmu_leaf (new_table t i pa m) k x va = mmu_leaf m k x va"
proof (induction k arbitrary: x)
  case (Suc k)
  let ?m = "new_table t i pa m" and ?j = "pt_index (Suc k) va"
  have lp: "lv pa = 0" using wf_frame(4) [OF wf, of pa] pa(1) by (cases "lv pa") auto
  have al: "pa AND 4095 = 0" "t AND 4095 = 0" "x AND 4095 = 0"
    using pa(2) wf_frame(1) [OF wf] t Suc.prems by (auto simp: is_frame_def)
  have xp: "x \<noteq> pa" "t \<noteq> pa" using lp Suc.prems t by auto
  have zero: "mmu_leaf ?m k pa va = None" if pos: "0 < k"
  proof -
    obtain k' where k: "k = Suc k'" using pos by (cases k) auto
    have "rd64 ?m (slot pa (pt_index k va)) = 0"
      using xp(2) by (simp add: new_table_rd [OF pa(2) al(2) i al(1)])
    then show ?thesis unfolding k by (simp add: pte_present_def)
  qed
  have rd: "rd64 ?m (slot x ?j) = (if x = t \<and> ?j = i then pa OR 3 else rd64 m (slot x ?j))"
    using xp(1) by (simp add: new_table_rd [OF pa(2) al(2) i al(3)])
  have ch: "child ?m x ?j = (if x = t \<and> ?j = i then Some pa else child m x ?j)"
    using xp(1) by (simp add: new_table_child [OF pa(2) al(2) i al(3)])
  show ?case
  proof (cases "k = 0")
    case True
    then have "x \<noteq> t" using t Suc.prems by auto
    then show ?thesis using rd True by (simp add: Let_def)
  next
    case False
    then have k: "0 < k" by simp
    show ?thesis
    proof (cases "x = t \<and> ?j = i")
      case True
      then have "child m x ?j = None" "\<not> pte_present (rd64 m (slot x ?j))" using e by (simp_all add: child_def)
      then show ?thesis using True ch zero [OF k] unfolding mmu_leaf_child [OF k] by simp
    next
      case other: False
      show ?thesis
      proof (cases "child m x ?j")
        case None
        then show ?thesis using rd ch other unfolding mmu_leaf_child [OF k] by auto
      next
        case (Some c)
        then have "lv c = k" using wf_child [OF wf _ _ Some] Suc.prems k by simp
        then show ?thesis using Suc.IH [of c] k Some ch other unfolding mmu_leaf_child [OF k] by auto
      qed
    qed
  qed
qed simp

section \<open>The walker\<close>

definition vm_wf :: "(u64 \<Rightarrow> nat) \<Rightarrow> 'a sys_scheme \<Rightarrow> bool" where
  "vm_wf lv s \<longleftrightarrow> pmm_inv (pmm s) \<and> wf_tables lv (mem s) (pmm_avail (pmm s))"

text \<open>
  From \<^verbatim>\<open>s\<close> to \<^verbatim>\<open>s'\<close> no table was given up, new tables are frames that were available, and no byte outside the
  tables changed.
\<close>

definition tables_only :: "(u64 \<Rightarrow> nat) \<Rightarrow> 'a sys_scheme \<Rightarrow> (u64 \<Rightarrow> nat) \<Rightarrow> 'a sys_scheme \<Rightarrow> bool" where
  "tables_only lv s lv' s' \<longleftrightarrow> (\<forall>t. 0 < lv t \<longrightarrow> lv' t = lv t) \<and>
     (\<forall>t. 0 < lv' t \<longrightarrow> 0 < lv t \<or> t \<in> pmm_avail (pmm s)) \<and>
     pmm_avail (pmm s') \<subseteq> pmm_avail (pmm s) \<and> (\<forall>x. lv' (x AND NOT 4095) = 0 \<longrightarrow> mem s' x = mem s x)"

lemma tables_only_trans:
  assumes "tables_only lv s lv1 s1" "tables_only lv1 s1 lv2 s2"
  shows "tables_only lv s lv2 s2"
proof -
  have "lv1 t = 0" if "lv2 t = 0" for t using assms(2) that unfolding tables_only_def by (metis gr0I)
  then have "\<forall>x. lv2 (x AND NOT 4095) = 0 \<longrightarrow> mem s2 x = mem s x"
    using assms unfolding tables_only_def by metis
  moreover have "\<forall>t. 0 < lv2 t \<longrightarrow> 0 < lv t \<or> t \<in> pmm_avail (pmm s)"
    using assms unfolding tables_only_def by blast
  ultimately show ?thesis using assms unfolding tables_only_def by auto
qed

text \<open>
  \<^verbatim>\<open>vm_grown lv s lv' s'\<close>: from \<^verbatim>\<open>s\<close> to \<^verbatim>\<open>s'\<close> tables were added and frames taken for them, no table was given
  up, every translation is the same, and nothing else of the machine changed.
\<close>

definition vm_grown :: "(u64 \<Rightarrow> nat) \<Rightarrow> 'a sys_scheme \<Rightarrow> (u64 \<Rightarrow> nat) \<Rightarrow> 'a sys_scheme \<Rightarrow> bool" where
  "vm_grown lv s lv' s' \<longleftrightarrow> vm_wf lv' s' \<and> tables_only lv s lv' s' \<and>
     (\<forall>t va. 0 < lv t \<longrightarrow> mmu_leaf (mem s') (lv t) t va = mmu_leaf (mem s) (lv t) t va) \<and>
     (\<forall>t i c. 2 \<le> lv t \<longrightarrow> i < 512 \<longrightarrow> child (mem s) t i = Some c \<longrightarrow> child (mem s') t i = Some c) \<and>
     (\<exists>m p. s' = s\<lparr>mem := m, pmm := p\<rparr>)"

lemma vm_grown_refl: "vm_wf lv s \<Longrightarrow> vm_grown lv s lv s"
  unfolding vm_grown_def tables_only_def by (auto intro!: exI [of _ "mem s"] exI [of _ "pmm s"])

lemma vm_grown_trans:
  assumes "vm_grown lv s lv1 s1" "vm_grown lv1 s1 lv2 s2"
  shows "vm_grown lv s lv2 s2"
proof -
  obtain m p m' p' where "s1 = s\<lparr>mem := m, pmm := p\<rparr>" "s2 = s1\<lparr>mem := m', pmm := p'\<rparr>"
    using assms unfolding vm_grown_def tables_only_def by blast
  then have "s2 = s\<lparr>mem := m', pmm := p'\<rparr>" by simp
  then have "\<exists>m p. s2 = s\<lparr>mem := m, pmm := p\<rparr>" by blast
  moreover have "0 < lv t \<Longrightarrow> mmu_leaf (mem s2) (lv t) t va = mmu_leaf (mem s) (lv t) t va" for t va
    using assms unfolding vm_grown_def tables_only_def by metis
  moreover have "2 \<le> lv t \<Longrightarrow> i < 512 \<Longrightarrow> child (mem s) t i = Some c \<Longrightarrow> child (mem s2) t i = Some c" for t i c
  proof -
    assume a: "2 \<le> lv t" "i < 512" "child (mem s) t i = Some c"
    then have "lv1 t = lv t" "child (mem s1) t i = Some c" using assms(1) unfolding vm_grown_def tables_only_def by simp_all
    then show ?thesis using a assms(2) unfolding vm_grown_def tables_only_def by simp
  qed
  moreover have "tables_only lv s lv2 s2" "vm_wf lv2 s2"
    using assms tables_only_trans unfolding vm_grown_def by blast+
  ultimately show ?thesis unfolding vm_grown_def by blast
qed

lemma vm_mask: "e AND VM_PTE_PRESENT = 0 \<longleftrightarrow> \<not> pte_present e" "e AND VM_PTE_HUGE = 0 \<longleftrightarrow> \<not> pte_huge e"
  "e AND VM_ADDR_MASK = pte_frame e"
  by (simp_all add: vm_consts pte_present_def pte_huge_def pte_frame_def)

lemma alloc_frame_cases:
  assumes "pmm_inv (pmm s)"
  obtains (none) "pmm_avail (pmm s) = {}" "alloc_frame s = (0, s)"
  | (frame) pa p where "alloc_frame s = (pa, s\<lparr>pmm := p\<rparr>)" "pa \<in> pmm_avail (pmm s)" "is_frame pa" "pmm_inv p"
      "pmm_avail p = pmm_avail (pmm s) - {pa}"
proof (cases "pmm_avail (pmm s) = {}")
  case True
  then show ?thesis using none pmm.alloc_none [OF assms True] by (simp add: alloc_frame_def)
next
  case False
  obtain pa p where a: "pmm_alloc_frame (pmm s) = (pa, p)" by force
  then show ?thesis
    using frame [of pa p] pmm.alloc_some [OF assms False] pmm.alloc_ok [OF assms] pmm.avail_frames [OF assms]
    by (simp add: alloc_frame_def)
qed

lemma vm_next_no_create:
  "vm_next False (slot t i) s = (child (mem s) t i, s)"
  by (simp add: vm_next_def vm_mask child_def Let_def)

lemma vm_next_spec:
  assumes wf: "vm_wf lv s" and t: "2 \<le> lv t" and i: "i < 512" and n: "vm_next True (slot t i) s = (r, s')"
  shows "\<exists>lv'. vm_grown lv s lv' s' \<and> child (mem s') t i = r \<and>
    (r = None \<longrightarrow> s' = s \<and> (pte_present (rd64 (mem s) (slot t i)) \<or> pmm_avail (pmm s) = {}))"
proof (cases "pte_present (rd64 (mem s) (slot t i))")
  case True
  then have "r = child (mem s) t i" "s' = s" using n by (auto simp: vm_next_def vm_mask child_def Let_def split: if_splits)
  then show ?thesis using vm_grown_refl [OF wf] True by blast
next
  case False
  have inv: "pmm_inv (pmm s)" and w: "wf_tables lv (mem s) (pmm_avail (pmm s))" using wf by (simp_all add: vm_wf_def)
  from inv show ?thesis
  proof (cases rule: alloc_frame_cases)
    case none
    then have "r = None" "s' = s" using n False by (simp_all add: vm_next_def vm_mask)
    then show ?thesis using vm_grown_refl [OF wf] none(1) False by (auto simp: child_def)
  next
    case (frame pa p)
    have nz: "pa \<noteq> 0" using frame(3) by (simp add: is_frame_def)
    have entry: "pte_frame pa OR VM_PTE_PRESENT OR VM_PTE_WRITE = pa OR 3"
      using frame_mask [OF frame(3)] by (simp add: vm_consts or.assoc)
    let ?m = "new_table t i pa (mem s)"
    have r: "r = Some pa" and s': "s' = s\<lparr>mem := ?m, pmm := p\<rparr>"
      using n False frame(1) nz table_entry(1) [OF frame(3)] entry
      by (auto simp: vm_next_def vm_mask new_table_def Let_def or.assoc)
    let ?lv = "lv(pa := lv t - 1)"
    have lp: "lv pa = 0" using wf_frame(4) [OF w, of pa] frame(2) by (cases "lv pa") auto
    have "wf_tables ?lv ?m (pmm_avail p)" using new_table_wf [OF w t i frame(2,3) False] frame(5) by simp
    moreover have "child ?m x j = Some c" if "2 \<le> lv x" "j < 512" "child (mem s) x j = Some c" for x j c
      using new_table_child [OF frame(3) _ i _ that(2), of t x] wf_frame(1) [OF w] t that lp False
      by (auto simp: child_def)
    moreover have "?m x = mem s x" if "?lv (x AND NOT 4095) = 0" for x
      using that t wf_frame(1) [OF w, of t] frame(3) by (intro new_table_outside [OF _ i]) (auto split: if_splits)
    ultimately have "vm_grown lv s ?lv s'"
      using frame(2) new_table_mmu [OF w t i frame(2,3) False] frame(4,5) lp unfolding vm_grown_def tables_only_def vm_wf_def s' by auto
    moreover have "child ?m t i = Some pa"
      using new_table_child [OF frame(3) _ i _ i, of t t] wf_frame(1) [OF w, of t] t by simp
    ultimately show ?thesis using r s' by auto
  qed
qed

lemma pt_of_4:
  "pt_of m 4 t va = (case child m t (pt_index 4 va) of None \<Rightarrow> None | Some t3 \<Rightarrow>
     (case child m t3 (pt_index 3 va) of None \<Rightarrow> None | Some t2 \<Rightarrow> child m t2 (pt_index 2 va)))"
  by (simp add: eval_nat_numeral split: option.split)

lemma vm_indices:
  "drop_bit 39 va AND 0x1FF = pt_index 4 va" "drop_bit 30 va AND 0x1FF = pt_index 3 va"
  "drop_bit 21 va AND 0x1FF = pt_index 2 va" "drop_bit 12 va AND 0x1FF = pt_index 1 va"
  by (simp_all add: pt_index_def)

lemma vm_walk_lookup:
  "space \<noteq> 0 \<Longrightarrow> vm_walk space va False s =
     (map_option (\<lambda>p. slot p (pt_index 1 va)) (pt_of (mem s) 4 space va), s)"
  by (simp add: vm_walk_def vm_indices vm_next_no_create pt_of_4 split: option.split)

lemma vm_grown_keeps:
  assumes "vm_grown lv s lv' s'"
  shows "vm_wf lv' s'" "0 < lv t \<Longrightarrow> lv' t = lv t"
    "2 \<le> lv t \<Longrightarrow> i < 512 \<Longrightarrow> child (mem s) t i = Some c \<Longrightarrow> child (mem s') t i = Some c"
    "0 < lv t \<Longrightarrow> mmu_leaf (mem s') (lv t) t va = mmu_leaf (mem s) (lv t) t va"
  using assms unfolding vm_grown_def tables_only_def by simp_all

lemma vm_wf_child: "vm_wf lv s \<Longrightarrow> 2 \<le> lv t \<Longrightarrow> i < 512 \<Longrightarrow> child (mem s) t i = Some c \<Longrightarrow> lv c = lv t - 1"
  using wf_child unfolding vm_wf_def by blast

lemma vm_walk_spec:
  assumes wf: "vm_wf lv s" and sp: "lv space = 4" and w: "vm_walk space va True s = (r, s')"
  shows "\<exists>lv'. vm_grown lv s lv' s' \<and> r = map_option (\<lambda>p. slot p (pt_index 1 va)) (pt_of (mem s') 4 space va)"
proof -
  have nz: "space \<noteq> 0" using wf sp wf_frame(2) unfolding vm_wf_def by (metis zero_less_numeral)
  obtain r1 s1 where n1: "vm_next True (slot space (pt_index 4 va)) s = (r1, s1)" by force
  obtain lv1 where g1: "vm_grown lv s lv1 s1" "child (mem s1) space (pt_index 4 va) = r1"
    using vm_next_spec [OF wf _ _ n1] sp by auto
  have sp1: "lv1 space = 4" using vm_grown_keeps(2) [OF g1(1), of space] sp by simp
  show ?thesis
  proof (cases r1)
    case None
    then show ?thesis using g1 w n1 nz by (auto simp: vm_walk_def vm_indices pt_of_4)
  next
    case (Some pdpt)
    note wf1 = vm_grown_keeps(1) [OF g1(1)]
    have l3: "lv1 pdpt = 3" using vm_wf_child [OF wf1, of space "pt_index 4 va" pdpt] g1(2) Some sp1 by simp
    obtain r2 s2 where n2: "vm_next True (slot pdpt (pt_index 3 va)) s1 = (r2, s2)" by force
    obtain lv2 where g2: "vm_grown lv1 s1 lv2 s2" "child (mem s2) pdpt (pt_index 3 va) = r2"
      using vm_next_spec [OF wf1 _ _ n2] l3 by auto
    have c1: "child (mem s2) space (pt_index 4 va) = Some pdpt"
      using vm_grown_keeps(3) [OF g2(1), of space "pt_index 4 va" pdpt] sp1 g1(2) Some by simp
    note g12 = vm_grown_trans [OF g1(1) g2(1)]
    show ?thesis
    proof (cases r2)
      case None
      then show ?thesis using Some g12 g2(2) c1 w n1 n2 nz by (auto simp: vm_walk_def vm_indices pt_of_4)
    next
      case pd: (Some pd)
      note wf2 = vm_grown_keeps(1) [OF g2(1)]
      have l: "lv2 pdpt = 3" "lv2 space = 4" using vm_grown_keeps(2) [OF g2(1), of pdpt] vm_grown_keeps(2) [OF g2(1), of space] l3 sp1 by simp_all
      have l2: "lv2 pd = 2" using vm_wf_child [OF wf2, of pdpt "pt_index 3 va" pd] g2(2) pd l by simp
      obtain r3 s3 where n3: "vm_next True (slot pd (pt_index 2 va)) s2 = (r3, s3)" by force
      obtain lv3 where g3: "vm_grown lv2 s2 lv3 s3" "child (mem s3) pd (pt_index 2 va) = r3"
        using vm_next_spec [OF wf2 _ _ n3] l2 by auto
      have "child (mem s3) space (pt_index 4 va) = Some pdpt" "child (mem s3) pdpt (pt_index 3 va) = Some pd"
        using vm_grown_keeps(3) [OF g3(1), of space "pt_index 4 va" pdpt]
          vm_grown_keeps(3) [OF g3(1), of pdpt "pt_index 3 va" pd] l c1 g2(2) pd by simp_all
      then have "pt_of (mem s3) 4 space va = r3" using g3(2) by (simp add: pt_of_4)
      then show ?thesis using Some pd vm_grown_trans [OF g12 g3(1)] w n1 n2 n3 nz
        by (cases r3) (auto simp: vm_walk_def vm_indices)
    qed
  qed
qed

section \<open>Pages\<close>

lemma leaf_addr_1: "leaf_addr 1 e va = pte_frame e OR (va AND 4095)"
proof -
  have "(0x000FFFFFFFFFF000 :: u64) = mask 52 AND NOT (mask 12)" by (simp add: mask_numeral)
  then show ?thesis by (simp add: leaf_addr_def pte_frame_def and.assoc mask_12_u64)
qed

lemma pt_of_same_page: "same_page va va' \<Longrightarrow> pt_of m 4 t va = pt_of m 4 t va'"
  by (simp add: pt_of_4 same_page_def split: option.split)

lemma mmu_pt_of:
  "pt_of m k t va = Some p \<Longrightarrow> mmu_leaf m k t va =
     (if pte_present (rd64 m (slot p (pt_index 1 va))) then Some (1, rd64 m (slot p (pt_index 1 va))) else None)"
proof (induction k arbitrary: t)
  case (Suc k)
  show ?case
  proof (cases "k = 0")
    case False
    then obtain c where "child m t (pt_index (Suc k) va) = Some c" "pt_of m k c va = Some p"
      using Suc.prems by (auto split: option.splits)
    then show ?thesis using Suc.IH [of c] False unfolding mmu_leaf_child [OF neq0_conv [THEN iffD1, OF False]] by simp
  qed (use Suc.prems in \<open>simp add: Let_def\<close>)
qed simp

lemma leaf_effect:
  assumes wf: "vm_wf lv s" and sp: "lv space = 4" and p: "pt_of (mem s) 4 space va = Some p" and t: "lv t = 4"
  shows "mmu_leaf (wr64 (mem s) (slot p (pt_index 1 va)) v) 4 t va' =
     (if same_page va va' \<and> pt_of (mem s) 4 t va = Some p
      then (if pte_present v then Some (1, v) else None) else mmu_leaf (mem s) 4 t va')"
    "pt_of (mem s) 4 t va = Some p \<Longrightarrow> t \<noteq> space \<Longrightarrow> shared_ix (pt_index 4 va)"
proof -
  have w: "wf_tables lv (mem s) (pmm_avail (pmm s))" using wf by (simp add: vm_wf_def)
  have l1: "lv p = 1" using pt_of_level [OF w sp p] .
  have "pt_of (mem s) 4 t va' = Some p \<and> pt_index 1 va' = pt_index 1 va \<longleftrightarrow>
      same_page va va' \<and> pt_of (mem s) 4 t va = Some p"
  proof
    assume a: "pt_of (mem s) 4 t va' = Some p \<and> pt_index 1 va' = pt_index 1 va"
    then have "\<forall>j \<in> {2..4}. pt_index j va = pt_index j va'" using pt_of_inj [OF w sp t p] by blast
    then have "same_page va va'" using a by (simp add: same_page_def)
    then show "same_page va va' \<and> pt_of (mem s) 4 t va = Some p" using a pt_of_same_page by metis
  next
    assume a: "same_page va va' \<and> pt_of (mem s) 4 t va = Some p"
    then show "pt_of (mem s) 4 t va' = Some p \<and> pt_index 1 va' = pt_index 1 va"
      using pt_of_same_page [of va va'] by (simp add: same_page_def)
  qed
  then show "mmu_leaf (wr64 (mem s) (slot p (pt_index 1 va)) v) 4 t va' =
     (if same_page va va' \<and> pt_of (mem s) 4 t va = Some p
      then (if pte_present v then Some (1, v) else None) else mmu_leaf (mem s) 4 t va')"
    using leaf_mmu [OF w l1 _ t, of "pt_index 1 va" v va'] by simp
  show "pt_of (mem s) 4 t va = Some p \<Longrightarrow> t \<noteq> space \<Longrightarrow> shared_ix (pt_index 4 va)"
    using pt_of_inj [OF w t sp _ p, of va] by blast
qed

lemma leaf_vm_wf:
  assumes "vm_wf lv s" "lv space = 4" "pt_of (mem s) 4 space va = Some p"
  shows "vm_wf lv (s\<lparr>mem := wr64 (mem s) (slot p (pt_index 1 va)) v\<rparr>)"
  using assms pt_of_level leaf_wf unfolding vm_wf_def by (auto intro!: leaf_wf)

text \<open>What mapping and unmapping a page mean for the translations of all address spaces \<^verbatim>\<open>t\<close>.\<close>

definition page_update ::
  "(u64 \<Rightarrow> nat) \<Rightarrow> u64 \<Rightarrow> u64 \<Rightarrow> (nat \<times> u64) option \<Rightarrow> 'a sys_scheme \<Rightarrow> 'a sys_scheme \<Rightarrow> bool" where
  "page_update lv space va new s s' \<longleftrightarrow>
     (\<forall>va'. mmu_leaf (mem s') 4 space va' = (if same_page va va' then new else mmu_leaf (mem s) 4 space va')) \<and>
     (\<forall>t va'. lv t = 4 \<longrightarrow>
        mmu_leaf (mem s') 4 t va' = mmu_leaf (mem s) 4 t va' \<or>
        same_page va va' \<and> shared_ix (pt_index 4 va) \<and> mmu_leaf (mem s) 4 t va' = mmu_leaf (mem s) 4 space va' \<and>
        mmu_leaf (mem s') 4 t va' = new \<or> t = space)"

lemma leaf_update:
  assumes wf: "vm_wf lv s" and sp: "lv space = 4" and p: "pt_of (mem s) 4 space va = Some p"
  shows "page_update lv space va (if pte_present v then Some (1, v) else None)
    s (s\<lparr>mem := wr64 (mem s) (slot p (pt_index 1 va)) v\<rparr>)"
  unfolding page_update_def
proof (intro conjI allI impI)
  fix va'
  show "mmu_leaf (mem (s\<lparr>mem := wr64 (mem s) (slot p (pt_index 1 va)) v\<rparr>)) 4 space va' =
      (if same_page va va' then (if pte_present v then Some (1, v) else None)
       else mmu_leaf (mem s) 4 space va')"
    using leaf_effect(1) [OF wf sp p sp, of v va'] p by simp
next
  fix t va'
  assume t: "lv t = 4"
  have "mmu_leaf (mem s) 4 t va' = mmu_leaf (mem s) 4 space va'"
    if "same_page va va'" "pt_of (mem s) 4 t va = Some p"
    using mmu_pt_of [of "mem s" 4 t va' p] mmu_pt_of [of "mem s" 4 space va' p] that p
      pt_of_same_page [OF that(1)] by simp
  then show "mmu_leaf (mem (s\<lparr>mem := wr64 (mem s) (slot p (pt_index 1 va)) v\<rparr>)) 4 t va' = mmu_leaf (mem s) 4 t va' \<or>
      same_page va va' \<and> shared_ix (pt_index 4 va) \<and> mmu_leaf (mem s) 4 t va' = mmu_leaf (mem s) 4 space va' \<and>
      mmu_leaf (mem (s\<lparr>mem := wr64 (mem s) (slot p (pt_index 1 va)) v\<rparr>)) 4 t va' =
        (if pte_present v then Some (1, v) else None) \<or> t = space"
    using leaf_effect(1) [OF wf sp p t, of v va'] leaf_effect(2) [OF wf sp p t] by auto
qed

lemma mmu_leaf_grown:
  "vm_grown lv s lv' s' \<Longrightarrow> lv t = 4 \<Longrightarrow> mmu_leaf (mem s') 4 t va = mmu_leaf (mem s) 4 t va"
  using vm_grown_keeps(4) [of lv s lv' s' t va] by simp

lemma page_update_grown:
  assumes "vm_grown lv s lv' s1" "page_update lv' space va new s1 s2" "lv space = 4"
  shows "page_update lv space va new s s2"
proof -
  have "lv' t = 4" if "lv t = 4" for t using vm_grown_keeps(2) [OF assms(1), of t] that by simp
  then show ?thesis
    using assms(2) mmu_leaf_grown [OF assms(1)] assms(3) unfolding page_update_def by metis
qed

lemma invlpg_fields [simp]: "mem (invlpg va s) = mem s" "pmm (invlpg va s) = pmm s" "cr3 (invlpg va s) = cr3 s"
  "vm_wf lv (invlpg va s) = vm_wf lv s"
  by (simp_all add: invlpg_def vm_wf_def)

lemma page_update_invlpg [simp]: "page_update lv space va new s (invlpg a s') = page_update lv space va new s s'"
  by (simp add: page_update_def)

lemma vm_map_cases:
  assumes wf: "vm_wf lv s" and sp: "lv space = 4" and fl: "pte_frame flags = 0" "pte_present flags"
    and m: "vm_map space va pa flags s = (r, s')"
  obtains (refused) lv' where "r = -1" "vm_grown lv s lv' s'"
  | (mapped) lv' s1 p where "r = 0" "vm_grown lv s lv' s1" "pt_of (mem s1) 4 space va = Some p"
      "\<not> pte_present (rd64 (mem s1) (slot p (pt_index 1 va)))"
      "s' = invlpg va (s1\<lparr>mem := wr64 (mem s1) (slot p (pt_index 1 va)) (pa OR flags)\<rparr>)"
      "va AND 4095 = 0" "pa AND 4095 = 0" "pa < PMM_MAX_PHYS" "PMM_MAX_PHYS \<le> va"
proof (cases "va AND 4095 = 0 \<and> pa AND 4095 = 0 \<and> pa < PMM_MAX_PHYS \<and> PMM_MAX_PHYS \<le> va \<and> space \<noteq> 0")
  case False
  then have "r = -1" "s' = s" using m by (auto simp: vm_map_def VM_PAGE_SIZE_def split: if_splits)
  then show ?thesis using refused vm_grown_refl [OF wf] by simp
next
  case True
  obtain w s1 where w: "vm_walk space va True s = (w, s1)" by force
  obtain lv' where g: "vm_grown lv s lv' s1" "w = map_option (\<lambda>p. slot p (pt_index 1 va)) (pt_of (mem s1) 4 space va)"
    using vm_walk_spec [OF wf sp w] by blast
  have guards: "space \<noteq> 0" "va AND (VM_PAGE_SIZE - 1) = 0" "pa AND (VM_PAGE_SIZE - 1) = 0" "\<not> pa \<ge> PMM_MAX_PHYS"
    "\<not> va < PMM_MAX_PHYS"
    using True by (auto simp: VM_PAGE_SIZE_def)
  show ?thesis
  proof (cases "pt_of (mem s1) 4 space va")
    case None
    then have "r = -1" "s' = s1" using m guards w g(2) by (simp_all add: vm_map_def)
    then show ?thesis using refused g(1) by blast
  next
    case (Some p)
    let ?pte = "slot p (pt_index 1 va)"
    have pf: "pte_frame pa = pa" using low_frame_mask True by blast
    have eq: "vm_map space va pa flags s = (if pte_present (rd64 (mem s1) ?pte) then (-1, s1)
        else (0, invlpg va (s1\<lparr>mem := wr64 (mem s1) ?pte (pa OR flags)\<rparr>)))"
      using guards w g(2) Some by (simp add: vm_map_def vm_mask pf)
    show ?thesis
    proof (cases "pte_present (rd64 (mem s1) ?pte)")
      case True
      then have "r = -1" "s' = s1" using m eq by simp_all
      then show ?thesis using refused g(1) by blast
    next
      case False
      then show ?thesis using mapped [OF _ g(1) Some False] m eq True by simp
    qed
  qed
qed

lemma vm_unmap_cases:
  assumes wf: "vm_wf lv s" and sp: "lv space = 4"
  obtains (absent) "vm_unmap space va s = (0, s)"
      "\<And>p. pt_of (mem s) 4 space va = Some p \<Longrightarrow> \<not> pte_present (rd64 (mem s) (slot p (pt_index 1 va)))"
  | (unmapped) p where "pt_of (mem s) 4 space va = Some p" "pte_present (rd64 (mem s) (slot p (pt_index 1 va)))"
      "vm_unmap space va s = (pte_frame (rd64 (mem s) (slot p (pt_index 1 va))),
         invlpg va (s\<lparr>mem := wr64 (mem s) (slot p (pt_index 1 va)) 0\<rparr>))"
proof -
  have nz: "space \<noteq> 0" using wf sp wf_frame(2) unfolding vm_wf_def by (metis zero_less_numeral)
  show ?thesis
  proof (cases "pt_of (mem s) 4 space va")
    case None
    then show ?thesis using absent nz by (simp add: vm_unmap_def vm_walk_lookup)
  next
    case (Some p)
    show ?thesis
    proof (cases "pte_present (rd64 (mem s) (slot p (pt_index 1 va)))")
      case True
      then show ?thesis using unmapped [OF Some True] nz Some by (simp add: vm_unmap_def vm_walk_lookup vm_mask)
    next
      case False
      then show ?thesis using absent nz Some by (simp add: vm_unmap_def vm_walk_lookup vm_mask)
    qed
  qed
qed

section \<open>The translation buffer\<close>

definition canonical :: "u64 \<Rightarrow> bool" where
  "canonical va \<longleftrightarrow> (\<forall>n. 47 \<le> n \<and> n < 64 \<longrightarrow> bit va n = bit va 47)"

definition is_page :: "u64 \<Rightarrow> bool" where
  "is_page va \<longleftrightarrow> canonical va \<and> va AND 4095 = 0"

lemma pt_index_bit: "j < 9 \<Longrightarrow> bit (pt_index k va) j = bit va (12 + 9 * (k - 1) + j)"
proof -
  assume j: "j < 9"
  have m: "(0x1FF :: u64) = mask 9" by (simp add: mask_numeral)
  show ?thesis unfolding pt_index_def m using j by (simp add: bit_and_iff bit_drop_bit_eq bit_mask_iff add.commute)
qed

lemma same_page_eq:
  assumes "same_page va va'" "is_page va" "is_page va'"
  shows "va = va'"
proof (rule bit_word_eqI)
  fix n assume n: "n < LENGTH(64)"
  have low: "\<not> bit x n" if "x AND 4095 = 0" "n < 12" for x :: u64
  proof -
    have "bit (x AND mask 12) n = bit x n" using that(2) by (simp add: bit_and_iff bit_mask_iff)
    then show ?thesis using that(1) by (simp add: mask_12_u64)
  qed
  have idx: "bit va j = bit va' j" if "12 \<le> j" "j < 48" for j
  proof -
    let ?k = "Suc ((j - 12) div 9)" and ?r = "(j - 12) mod 9"
    have "12 + 9 * (?k - 1) + ?r = j" using that(1) by simp
    moreover have "?k \<in> {1, 2, 3, 4}" using that by auto
    ultimately show ?thesis
      using pt_index_bit [of ?r ?k va] pt_index_bit [of ?r ?k va'] assms(1) unfolding same_page_def by (metis mod_less_divisor zero_less_numeral)
  qed
  consider "n < 12" | "12 \<le> n" "n < 48" | "48 \<le> n" by linarith
  then show "bit va n = bit va' n"
  proof cases
    case 1
    then show ?thesis using low assms(2,3) by (simp add: is_page_def)
  next
    case 2
    then show ?thesis by (rule idx)
  next
    case 3
    have n64: "47 \<le> n \<and> n < 64" using 3 n by simp
    have "canonical va" "canonical va'" using assms(2,3) by (simp_all add: is_page_def)
    then have "bit va n = bit va 47" "bit va' n = bit va' 47"
      using n64 unfolding canonical_def by blast+
    then show ?thesis using idx [of 47] by simp
  qed
qed

text \<open>The buffer caches translations of pages only, and only those that the tables of CR3 give.\<close>

definition tlb_ok :: "'a sys_scheme \<Rightarrow> bool" where
  "tlb_ok s \<longleftrightarrow> (\<forall>page f. tlb s page = Some f \<longrightarrow> is_page page \<and> mmu (mem s) (cr3 s) page = Some f)"

lemma mmu_leaf_cong: "\<forall>j \<in> {1..k}. pt_index j va = pt_index j va' \<Longrightarrow> mmu_leaf m k t va = mmu_leaf m k t va'"
proof (induction k arbitrary: t)
  case (Suc k)
  have "mmu_leaf m k c va = mmu_leaf m k c va'" for c using Suc by simp
  then show ?case using Suc.prems by (simp add: Let_def)
qed simp

lemma mmu_leaf_same_page: "same_page va va' \<Longrightarrow> mmu_leaf m 4 t va = mmu_leaf m 4 t va'"
proof -
  assume "same_page va va'"
  moreover have "{1..4 :: nat} = {1, 2, 3, 4}" by auto
  ultimately show ?thesis by (intro mmu_leaf_cong) (simp only: same_page_def)
qed

lemma mmu_leaf_page:
  "pt_of m 4 t va = Some p \<Longrightarrow> mmu_leaf m 4 t va =
     (let e = rd64 m (slot p (pt_index 1 va)) in if pte_present e then Some (1, e) else None)"
  using mmu_pt_of [of m 4 t va p] by (simp add: Let_def)

text \<open>An entry of level 1 at the end of a walk sits in the page table that the walk reaches.\<close>

lemma mmu_leaf_pt_of:
  "mmu_leaf m k t va = Some (1, e) \<Longrightarrow> \<exists>p. pt_of m k t va = Some p \<and> e = rd64 m (slot p (pt_index 1 va)) \<and> pte_present e"
proof (induction k arbitrary: t)
  case (Suc k)
  show ?case
  proof (cases "k = 0")
    case True
    then show ?thesis using Suc.prems by (auto simp: Let_def split: if_splits)
  next
    case False
    then have "0 < k" by simp
    then show ?thesis
      using Suc.prems Suc.IH False unfolding mmu_leaf_child [OF \<open>0 < k\<close>]
      by (auto simp: Let_def split: option.splits if_splits)
  qed
qed simp

section \<open>Address spaces as page maps\<close>

text \<open>
  What clients of an address space rely on: mapping adds one page that was absent or changes no
  translation, unmapping removes a 4KB page and reports its frame or does nothing.
\<close>

locale page_mapper =
  fixes map_page :: "u64 \<Rightarrow> u64 \<Rightarrow> 's \<Rightarrow> int \<times> 's"
    and unmap_page :: "u64 \<Rightarrow> 's \<Rightarrow> u64 \<times> 's"
    and look :: "'s \<Rightarrow> u64 \<Rightarrow> (nat \<times> u64) option"
    and entry :: "u64 \<Rightarrow> u64"
    and ok :: "'s \<Rightarrow> bool"
  assumes map_ok: "ok s \<Longrightarrow> ok (snd (map_page va pa s))"
    and unmap_ok: "ok s \<Longrightarrow> ok (snd (unmap_page va s))"
    and map_done: "ok s \<Longrightarrow> map_page va pa s = (0, s') \<Longrightarrow> look s va = None \<and> pte_frame (entry pa) = pa \<and>
      (\<forall>va'. look s' va' = (if same_page va va' then Some (1, entry pa) else look s va'))"
    and map_refused: "ok s \<Longrightarrow> map_page va pa s = (r, s') \<Longrightarrow> r \<noteq> 0 \<Longrightarrow> look s' va' = look s va'"
    and unmap_done: "ok s \<Longrightarrow> look s va = Some (1, e) \<Longrightarrow> \<exists>s'. unmap_page va s = (pte_frame e, s') \<and>
      (\<forall>va'. look s' va' = (if same_page va va' then None else look s va'))"
    and unmap_absent: "ok s \<Longrightarrow> (\<And>e. look s va \<noteq> Some (1, e)) \<Longrightarrow> unmap_page va s = (0, s)"
    and look_page: "same_page va va' \<Longrightarrow> look s va = look s va'"
begin

lemma same_page_refl: "same_page va va"
  by (simp add: same_page_def)

lemma map_unmap:
  assumes "ok s" "map_page va pa s = (0, s1)"
  shows "\<exists>s2. unmap_page va s1 = (pa, s2) \<and> look s2 = look s \<and> ok s2"
proof -
  note d = map_done [OF assms]
  have ok1: "ok s1" using map_ok [OF assms(1), of va pa] assms(2) by simp
  have "look s1 va = Some (1, entry pa)" using d same_page_refl by simp
  from unmap_done [OF ok1 this] obtain s2 where s2: "unmap_page va s1 = (pa, s2)"
    "\<And>va'. look s2 va' = (if same_page va va' then None else look s1 va')" using d by auto
  have "look s2 va' = look s va'" for va'
    using s2(2) [of va'] d look_page [of va va' s] by auto
  then show ?thesis using s2(1) unmap_ok [OF ok1, of va] by auto
qed

lemma double_map:
  assumes "ok s" "map_page va pa s = (0, s1)" "same_page va va'"
  shows "fst (map_page va' pa' s1) \<noteq> 0"
proof
  assume f: "fst (map_page va' pa' s1) = 0"
  have ok1: "ok s1" using map_ok [OF assms(1), of va pa] assms(2) by simp
  have "map_page va' pa' s1 = (0, snd (map_page va' pa' s1))" using f by (metis prod.collapse)
  from map_done [OF ok1 this] have "look s1 va' = None" by simp
  then show False using map_done [OF assms(1,2)] assms(3) by simp
qed

lemma unmap_twice: "ok s \<Longrightarrow> unmap_page va (snd (unmap_page va s)) = (0, snd (unmap_page va s))"
proof (cases "\<exists>e. look s va = Some (1, e)")
  case True
  assume ok: "ok s"
  obtain e where "look s va = Some (1, e)" using True by blast
  from unmap_done [OF ok this] obtain s' where "unmap_page va s = (pte_frame e, s')" "look s' va = None"
    using same_page_refl by auto
  then show ?thesis using unmap_absent [of s' va] unmap_ok [OF ok, of va] by simp
next
  case False
  assume ok: "ok s"
  then show ?thesis using unmap_absent [OF ok] False by simp
qed

end

definition vm_ok :: "u64 \<Rightarrow> 'a sys_scheme \<Rightarrow> bool" where
  "vm_ok space s \<longleftrightarrow> (\<exists>lv. vm_wf lv s \<and> lv space = 4)"

lemma vm_map_done:
  assumes wf: "vm_wf lv s" and sp: "lv space = 4" and fl: "pte_frame flags = 0" "pte_present flags"
    and m: "vm_map space va pa flags s = (0, s')"
  shows "\<exists>lv'. vm_wf lv' s' \<and> tables_only lv s lv' s'" "mmu_leaf (mem s) 4 space va = None"
    "page_update lv space va (Some (1, pa OR flags)) s s'" "pte_frame (pa OR flags) = pa"
    "va AND 4095 = 0" "PMM_MAX_PHYS \<le> va"
    "\<exists>m p. s' = s\<lparr>mem := m, pmm := p, tlb := (tlb s)(va := None)\<rparr>"
    "pmm_avail (pmm s') \<subseteq> pmm_avail (pmm s)"
proof -
  from wf sp fl m have "(\<exists>lv'. vm_wf lv' s' \<and> tables_only lv s lv' s') \<and> mmu_leaf (mem s) 4 space va = None \<and>
    page_update lv space va (Some (1, pa OR flags)) s s' \<and> pte_frame (pa OR flags) = pa \<and>
    va AND 4095 = 0 \<and> PMM_MAX_PHYS \<le> va \<and> (\<exists>m p. s' = s\<lparr>mem := m, pmm := p, tlb := (tlb s)(va := None)\<rparr>) \<and>
    pmm_avail (pmm s') \<subseteq> pmm_avail (pmm s)"
  proof (cases rule: vm_map_cases)
    case (mapped lv' s1 p)
    note wf1 = vm_grown_keeps(1) [OF mapped(2)]
    have sp1: "lv' space = 4" using vm_grown_keeps(2) [OF mapped(2), of space] sp by simp
    have e: "pte_present (pa OR flags)" "pte_frame (pa OR flags) = pa"
      using frame_entry [OF mapped(7,8) fl(1)] fl(2) by simp_all
    have upd: "page_update lv space va (Some (1, pa OR flags)) s s'"
      using page_update_grown [OF mapped(2) leaf_update [OF wf1 sp1 mapped(3), of "pa OR flags"] sp] e(1) mapped(5) by simp
    have none: "mmu_leaf (mem s) 4 space va = None"
      using mmu_leaf_grown [OF mapped(2) sp, of va] mmu_leaf_page [OF mapped(3)] mapped(4) by simp
    have wf': "vm_wf lv' s'" using leaf_vm_wf [OF wf1 sp1 mapped(3)] mapped(5) by simp
    have w1: "wf_tables lv' (mem s1) (pmm_avail (pmm s1))" using wf1 by (simp add: vm_wf_def)
    have l1: "lv' p = 1" by (rule pt_of_level [OF w1 sp1 mapped(3)])
    have "mem s' x = mem s1 x" if x: "lv' (x AND NOT 4095) = 0" for x
    proof -
      have "x AND NOT 4095 \<noteq> p" using x l1 by auto
      then show ?thesis using slot_outside [OF wf_frame(1) [OF w1] pt_index_bound] l1 mapped(5) by simp
    qed
    then have kept: "tables_only lv s lv' s'" using mapped(2,5) unfolding vm_grown_def tables_only_def by simp
    have "va AND NOT 4095 = va"
      using mapped(6) and_not_4095_nat [of va] and_4095_nat [of va] by (simp add: word_unat_eq_iff)
    moreover obtain m0 p0 where s1: "s1 = s\<lparr>mem := m0, pmm := p0\<rparr>" "pmm_avail (pmm s1) \<subseteq> pmm_avail (pmm s)"
      using mapped(2) unfolding vm_grown_def tables_only_def by blast
    ultimately have "s' = s\<lparr>mem := wr64 m0 (slot p (pt_index 1 va)) (pa OR flags), pmm := p0, tlb := (tlb s)(va := None)\<rparr>"
      using mapped(5) by (simp add: invlpg_def)
    then have "\<exists>m p. s' = s\<lparr>mem := m, pmm := p, tlb := (tlb s)(va := None)\<rparr>" by blast
    moreover have "pmm_avail (pmm s') \<subseteq> pmm_avail (pmm s)" using s1 mapped(5) by simp
    ultimately show ?thesis using upd none wf' kept mapped(6,9) e(2) by blast
  qed simp
  then show "\<exists>lv'. vm_wf lv' s' \<and> tables_only lv s lv' s'" "mmu_leaf (mem s) 4 space va = None"
    "page_update lv space va (Some (1, pa OR flags)) s s'" "pte_frame (pa OR flags) = pa"
    "va AND 4095 = 0" "PMM_MAX_PHYS \<le> va" "\<exists>m p. s' = s\<lparr>mem := m, pmm := p, tlb := (tlb s)(va := None)\<rparr>"
    "pmm_avail (pmm s') \<subseteq> pmm_avail (pmm s)" by blast+
qed

lemma vm_map_refused:
  assumes wf: "vm_wf lv s" and sp: "lv space = 4" and fl: "pte_frame flags = 0" "pte_present flags"
    and m: "vm_map space va pa flags s = (r, s')" and r: "r \<noteq> 0"
  shows "r = -1 \<and> (\<exists>lv'. vm_grown lv s lv' s')"
  using wf sp fl m r by (cases rule: vm_map_cases) auto

lemma vm_unmap_done:
  assumes wf: "vm_wf lv s" and sp: "lv space = 4" and e: "mmu_leaf (mem s) 4 space va = Some (1, e)"
  shows "\<exists>s'. vm_unmap space va s = (pte_frame e, s') \<and> vm_wf lv s' \<and> page_update lv space va None s s' \<and>
    tlb s' = (tlb s)(va AND NOT 4095 := None) \<and> cr3 s' = cr3 s"
  using wf sp
proof (cases rule: vm_unmap_cases [where va = va])
  case absent
  then show ?thesis using mmu_leaf_pt_of [OF e] by auto
next
  case (unmapped p)
  have "e = rd64 (mem s) (slot p (pt_index 1 va))" using mmu_leaf_page [OF unmapped(1)] e unmapped(2) by simp
  moreover have "\<not> pte_present 0" by (simp add: pte_present_def)
  ultimately show ?thesis
    using unmapped(3) leaf_update [OF wf sp unmapped(1), of 0] leaf_vm_wf [OF wf sp unmapped(1), of 0]
    by (simp add: invlpg_def page_update_def vm_wf_def)
qed

lemma vm_unmap_absent:
  assumes wf: "vm_wf lv s" and sp: "lv space = 4" and e: "\<And>e. mmu_leaf (mem s) 4 space va \<noteq> Some (1, e)"
  shows "vm_unmap space va s = (0, s)"
  using wf sp
proof (cases rule: vm_unmap_cases [where va = va])
  case (unmapped p)
  then show ?thesis using mmu_leaf_page [OF unmapped(1)] e by auto
qed

lemma vm_unmap_wf: "vm_wf lv s \<Longrightarrow> lv space = 4 \<Longrightarrow> vm_wf lv (snd (vm_unmap space va s))"
  using vm_unmap_done [of lv s space va] vm_unmap_absent [of lv s space va] by fastforce

lemma vm_ok_kept: "vm_wf lv' s' \<Longrightarrow> tables_only lv s lv' s' \<Longrightarrow> lv space = 4 \<Longrightarrow> vm_ok space s'"
  unfolding vm_ok_def tables_only_def by (metis zero_less_numeral)

lemma vm_grown_kept: "vm_grown lv s lv' s' \<Longrightarrow> tables_only lv s lv' s'"
  by (simp add: vm_grown_def)

lemma vm_map_wf:
  assumes wf: "vm_wf lv s" and sp: "lv space = 4" and fl: "pte_frame flags = 0" "pte_present flags"
  shows "\<exists>lv'. vm_wf lv' (snd (vm_map space va pa flags s)) \<and>
    tables_only lv s lv' (snd (vm_map space va pa flags s))"
proof (cases "vm_map space va pa flags s")
  case (Pair r s1)
  show ?thesis
  proof (cases "r = 0")
    case True
    then show ?thesis using vm_map_done(1) [OF wf sp fl] Pair by simp
  next
    case False
    then obtain lv' where "vm_grown lv s lv' s1" using vm_map_refused [OF wf sp fl Pair] by blast
    then show ?thesis using vm_grown_keeps(1) vm_grown_kept Pair by (metis snd_conv)
  qed
qed

lemma rw_flags: "pte_frame (VM_PTE_PRESENT OR VM_PTE_WRITE) = 0" "pte_present (VM_PTE_PRESENT OR VM_PTE_WRITE)"
  "VM_PTE_PRESENT OR VM_PTE_WRITE = 3"
  by (simp_all add: vm_consts pte_frame_def pte_present_def)

interpretation vm: page_mapper "\<lambda>va pa. vm_map space va pa (VM_PTE_PRESENT OR VM_PTE_WRITE)" "vm_unmap space"
  "\<lambda>s va. mmu_leaf (mem s) 4 space va" "\<lambda>pa. pa OR 3" "vm_ok space" for space
proof
  fix s :: "'a sys_scheme" and s' va va' pa r e
  show "same_page va va' \<Longrightarrow> mmu_leaf (mem s) 4 space va = mmu_leaf (mem s) 4 space va'"
    by (rule mmu_leaf_same_page)
  assume "vm_ok space s"
  then obtain lv where wf: "vm_wf lv s" "lv space = 4" unfolding vm_ok_def by blast
  note mapd = vm_map_done [OF wf rw_flags(1,2), unfolded rw_flags(3)]
  note refused = vm_map_refused [OF wf rw_flags(1,2), unfolded rw_flags(3)]
  show "vm_ok space (snd (vm_map space va pa (VM_PTE_PRESENT OR VM_PTE_WRITE) s))"
    using vm_map_wf [OF wf rw_flags(1,2)] vm_ok_kept wf(2) by blast
  show "vm_map space va pa (VM_PTE_PRESENT OR VM_PTE_WRITE) s = (0, s') \<Longrightarrow>
      mmu_leaf (mem s) 4 space va = None \<and> pte_frame (pa OR 3) = pa \<and>
      (\<forall>va'. mmu_leaf (mem s') 4 space va' = (if same_page va va' then Some (1, pa OR 3) else mmu_leaf (mem s) 4 space va'))"
    using mapd(2-4) [of va pa s'] unfolding rw_flags(3) page_update_def by blast
  show "vm_map space va pa (VM_PTE_PRESENT OR VM_PTE_WRITE) s = (r, s') \<Longrightarrow> r \<noteq> 0 \<Longrightarrow>
      mmu_leaf (mem s') 4 space va' = mmu_leaf (mem s) 4 space va'"
    using refused [of va pa r s'] mmu_leaf_grown wf(2) unfolding rw_flags(3) by blast
  show "vm_ok space (snd (vm_unmap space va s))"
    using vm_unmap_wf [OF wf, of va] wf(2) unfolding vm_ok_def by blast
  show "mmu_leaf (mem s) 4 space va = Some (1, e) \<Longrightarrow> \<exists>s'. vm_unmap space va s = (pte_frame e, s') \<and>
      (\<forall>va'. mmu_leaf (mem s') 4 space va' = (if same_page va va' then None else mmu_leaf (mem s) 4 space va'))"
    using vm_unmap_done [OF wf, of va e] unfolding page_update_def by blast
  show "(\<And>e. mmu_leaf (mem s) 4 space va \<noteq> Some (1, e)) \<Longrightarrow> vm_unmap space va s = (0, s)"
    by (rule vm_unmap_absent [OF wf])
qed

end
