(* ===== verification/Vm_Space.thy ===== *)
theory Vm_Space
  imports Vm
begin

text \<open>
  The theorems on virtual memory (\<^verbatim>\<open>src/src/vm.c\<close>): success of mappings, coherence of the translation buffer,
  creation of address spaces, and the page-fault handler.  The definitions are in theory \<^verbatim>\<open>Vm\<close>.
\<close>

section \<open>Mapping succeeds when frames are available\<close>

definition pml4_ok :: "bytes \<Rightarrow> u64 \<Rightarrow> u64 \<Rightarrow> bool" where
  "pml4_ok m space va \<longleftrightarrow> \<not> (pte_present (rd64 m (slot space (pt_index 4 va))) \<and> pte_huge (rd64 m (slot space (pt_index 4 va))))"

lemma mmu_leaf_None_child:
  "mmu_leaf m (Suc k) t va = None \<Longrightarrow> 0 < k \<Longrightarrow> child m t (pt_index (Suc k) va) = Some c \<Longrightarrow> mmu_leaf m k c va = None"
  by (simp only: mmu_leaf_child option.case)

lemma mmu_leaf_None_step:
  assumes "mmu_leaf m (Suc k) t va = None" "0 < k" "k = 3 \<Longrightarrow> pml4_ok m t va"
  shows "child m t (pt_index (Suc k) va) = None \<Longrightarrow> \<not> pte_present (rd64 m (slot t (pt_index (Suc k) va)))"
proof -
  note u = assms(1) [unfolded mmu_leaf_child [OF assms(2)]]
  assume n: "child m t (pt_index (Suc k) va) = None"
  show "\<not> pte_present (rd64 m (slot t (pt_index (Suc k) va)))"
  proof (cases "k = 3")
    case True
    then have "pt_index (Suc k) va = pt_index 4 va" by simp
    then show ?thesis using n assms(3) [OF True] by (auto simp: child_def pml4_ok_def Let_def split: if_splits)
  next
    case False
    then show ?thesis using u n by (simp add: Let_def split: if_splits)
  qed
qed

lemma vm_next_some:
  assumes wf: "vm_wf lv s" and t: "2 \<le> lv t" and i: "i < 512"
    and n: "child (mem s) t i = None \<Longrightarrow> \<not> pte_present (rd64 (mem s) (slot t i))" and av: "0 < card (pmm_avail (pmm s))"
  shows "\<exists>c s'. vm_next True (slot t i) s = (Some c, s') \<and> card (pmm_avail (pmm s)) \<le> card (pmm_avail (pmm s')) + 1"
proof (cases "child (mem s) t i")
  case (Some c)
  then have "pte_present (rd64 (mem s) (slot t i))" "\<not> pte_huge (rd64 (mem s) (slot t i))"
    by (auto simp: child_def Let_def split: if_splits)
  then show ?thesis by (simp add: vm_next_def vm_mask)
next
  case None
  have inv: "pmm_inv (pmm s)" using wf by (simp add: vm_wf_def)
  from inv show ?thesis
  proof (cases rule: alloc_frame_cases)
    case none
    then show ?thesis using av by simp
  next
    case (frame pa p)
    then have "pa \<noteq> 0" "card (pmm_avail p) + 1 = card (pmm_avail (pmm s))"
      using av by (simp_all add: is_frame_def card_Diff_singleton)
    then show ?thesis using frame(1) n [OF None] by (simp add: vm_next_def vm_mask Let_def)
  qed
qed

lemma vm_walk_some:
  assumes wf: "vm_wf lv s" and sp: "lv space = 4" and none: "mmu_leaf (mem s) 4 space va = None"
    and p4: "pml4_ok (mem s) space va" and av: "3 \<le> card (pmm_avail (pmm s))"
  shows "\<exists>pte s'. vm_walk space va True s = (Some pte, s')"
proof -
  have nz: "space \<noteq> 0" using wf sp wf_frame(2) unfolding vm_wf_def by (metis zero_less_numeral)
  have four: "(4 :: nat) = Suc 3" "(3 :: nat) = Suc 2" "(2 :: nat) = Suc 1" by simp_all
  have e4: "child (mem s) space (pt_index 4 va) = None \<Longrightarrow> \<not> pte_present (rd64 (mem s) (slot space (pt_index 4 va)))"
    using mmu_leaf_None_step [of "mem s" 3 space va] none p4 by simp
  obtain t3 s1 where n1: "vm_next True (slot space (pt_index 4 va)) s = (Some t3, s1)"
    "card (pmm_avail (pmm s)) \<le> card (pmm_avail (pmm s1)) + 1"
    using vm_next_some [OF wf _ pt_index_bound e4] sp av by auto
  obtain lv1 where g1: "vm_grown lv s lv1 s1" "child (mem s1) space (pt_index 4 va) = Some t3"
    using vm_next_spec [OF wf _ _ n1(1)] sp by auto
  note wf1 = vm_grown_keeps(1) [OF g1(1)]
  have l4: "lv1 space = 4" using vm_grown_keeps(2) [OF g1(1), of space] sp by simp
  have l3: "lv1 t3 = 3" using vm_wf_child [OF wf1 _ _ g1(2)] l4 by simp
  have none1: "mmu_leaf (mem s1) (Suc 3) space va = None" using mmu_leaf_grown [OF g1(1) sp, of va] none by simp
  have "mmu_leaf (mem s1) 3 t3 va = None"
    by (rule mmu_leaf_None_child [OF none1]) (simp_all add: g1(2))
  note none3 = this
  have e3: "child (mem s1) t3 (pt_index 3 va) = None \<Longrightarrow> \<not> pte_present (rd64 (mem s1) (slot t3 (pt_index 3 va)))"
    using mmu_leaf_None_step [of "mem s1" 2 t3 va] none3 by simp
  obtain t2 s2 where n2: "vm_next True (slot t3 (pt_index 3 va)) s1 = (Some t2, s2)"
    "card (pmm_avail (pmm s1)) \<le> card (pmm_avail (pmm s2)) + 1"
    using vm_next_some [OF wf1 _ pt_index_bound e3] l3 av n1(2) by auto
  obtain lv2 where g2: "vm_grown lv1 s1 lv2 s2" "child (mem s2) t3 (pt_index 3 va) = Some t2"
    using vm_next_spec [OF wf1 _ _ n2(1)] l3 by auto
  note wf2 = vm_grown_keeps(1) [OF g2(1)]
  have l3': "lv2 t3 = 3" using vm_grown_keeps(2) [OF g2(1), of t3] l3 by simp
  have l2: "lv2 t2 = 2" using vm_wf_child [OF wf2 _ _ g2(2)] l3' by simp
  have "mmu_leaf (mem s2) 3 t3 va = None" using vm_grown_keeps(4) [OF g2(1), of t3 va] l3 none3 by simp
  then have none2: "mmu_leaf (mem s2) 2 t2 va = None"
    using mmu_leaf_None_child [of "mem s2" 2 t3 va t2] g2(2) by simp
  have e2: "child (mem s2) t2 (pt_index 2 va) = None \<Longrightarrow> \<not> pte_present (rd64 (mem s2) (slot t2 (pt_index 2 va)))"
    using mmu_leaf_None_step [of "mem s2" 1 t2 va] none2 by (simp add: four(3))
  obtain t1 s3 where n3: "vm_next True (slot t2 (pt_index 2 va)) s2 = (Some t1, s3)"
    using vm_next_some [OF wf2 _ pt_index_bound e2] l2 av n1(2) n2(2) by auto
  show ?thesis using n1(1) n2(1) n3 nz by (simp add: vm_walk_def vm_indices)
qed

lemma vm_map_succeeds:
  assumes wf: "vm_wf lv s" and sp: "lv space = 4" and fl: "pte_frame flags = 0" "pte_present flags"
    and none: "mmu_leaf (mem s) 4 space va = None" and p4: "pml4_ok (mem s) space va"
    and av: "3 \<le> card (pmm_avail (pmm s))"
    and args: "va AND 4095 = 0" "pa AND 4095 = 0" "pa < PMM_MAX_PHYS" "PMM_MAX_PHYS \<le> va"
  shows "fst (vm_map space va pa flags s) = 0"
proof -
  have nz: "space \<noteq> 0" using wf sp wf_frame(2) unfolding vm_wf_def by (metis zero_less_numeral)
  obtain pte s1 where w: "vm_walk space va True s = (Some pte, s1)" using vm_walk_some [OF wf sp none p4 av] by blast
  obtain lv' where g: "vm_grown lv s lv' s1" "Some pte = map_option (\<lambda>p. slot p (pt_index 1 va)) (pt_of (mem s1) 4 space va)"
    using vm_walk_spec [OF wf sp w] by blast
  then obtain p where p: "pt_of (mem s1) 4 space va = Some p" "pte = slot p (pt_index 1 va)"
    by (cases "pt_of (mem s1) 4 space va") auto
  have "mmu_leaf (mem s1) 4 space va = None" using mmu_leaf_grown [OF g(1) sp] none by simp
  then have "\<not> pte_present (rd64 (mem s1) pte)" using mmu_leaf_page [OF p(1)] p(2) by (simp add: Let_def split: if_splits)
  moreover have "va AND (VM_PAGE_SIZE - 1) = 0" "pa AND (VM_PAGE_SIZE - 1) = 0" "\<not> pa \<ge> PMM_MAX_PHYS" "\<not> va < PMM_MAX_PHYS"
    using args by (auto simp: VM_PAGE_SIZE_def)
  ultimately show ?thesis using nz w by (simp add: vm_map_def vm_mask)
qed

text \<open>A mapping takes at most one frame for each of the three lower levels.\<close>

lemma vm_next_cost:
  assumes "pmm_inv (pmm s)" "vm_next create pte s = (r, s')"
  shows "pmm_inv (pmm s') \<and> card (pmm_avail (pmm s)) \<le> card (pmm_avail (pmm s')) + 1"
  using assms(1)
proof (cases rule: alloc_frame_cases)
  case none
  then show ?thesis using assms by (auto simp: vm_next_def split: if_splits)
next
  case (frame pa p)
  have "card (pmm_avail (pmm s)) \<le> card (pmm_avail p) + 1" using frame(2,5) by (simp add: card_Diff_singleton)
  then show ?thesis using assms frame(1,4) by (auto simp: vm_next_def Let_def split: if_splits)
qed

lemma vm_map_cost:
  assumes "pmm_inv (pmm s)"
  shows "card (pmm_avail (pmm s)) \<le> card (pmm_avail (pmm (snd (vm_map space va pa flags s)))) + 3"
proof -
  obtain r s' where w: "vm_walk space va True s = (r, s')" by force
  obtain r1 s1 where n1: "vm_next True (slot space (drop_bit 39 va AND 0x1FF)) s = (r1, s1)" by force
  obtain r2 s2 where n2: "vm_next True (slot (the r1) (drop_bit 30 va AND 0x1FF)) s1 = (r2, s2)" by force
  obtain r3 s3 where n3: "vm_next True (slot (the r2) (drop_bit 21 va AND 0x1FF)) s2 = (r3, s3)" by force
  note c1 = vm_next_cost [OF assms n1]
  note c2 = vm_next_cost [OF conjunct1 [OF c1] n2]
  note c3 = vm_next_cost [OF conjunct1 [OF c2] n3]
  have "s' \<in> {s, s1, s2, s3}"
    using w n1 n2 n3 by (cases r1; cases r2; cases r3; cases "space = 0") (simp_all add: vm_walk_def)
  then have "card (pmm_avail (pmm s)) \<le> card (pmm_avail (pmm s')) + 3" using c1 c2 c3 by auto
  then show ?thesis using w by (auto simp: vm_map_def split: option.splits)
qed

text \<open>The allocator's fixed fields stay.\<close>

lemma vm_next_static: "vm_next create pte s = (r, s') \<Longrightarrow> pmm_static (pmm s') = pmm_static (pmm s)"
proof -
  obtain pa p where a: "pmm_alloc_frame (pmm s) = (pa, p)" by force
  show "vm_next create pte s = (r, s') \<Longrightarrow> pmm_static (pmm s') = pmm_static (pmm s)"
    using pmm_static_alloc [OF a] by (auto simp: vm_next_def alloc_frame_def a Let_def split: if_splits)
qed

lemma vm_map_static: "pmm_static (pmm (snd (vm_map space va pa flags s))) = pmm_static (pmm s)"
proof -
  obtain r s' where w: "vm_walk space va True s = (r, s')" by force
  obtain r1 s1 where n1: "vm_next True (slot space (drop_bit 39 va AND 0x1FF)) s = (r1, s1)" by force
  obtain r2 s2 where n2: "vm_next True (slot (the r1) (drop_bit 30 va AND 0x1FF)) s1 = (r2, s2)" by force
  obtain r3 s3 where n3: "vm_next True (slot (the r2) (drop_bit 21 va AND 0x1FF)) s2 = (r3, s3)" by force
  have "s' \<in> {s, s1, s2, s3}"
    using w n1 n2 n3 by (cases r1; cases r2; cases r3; cases "space = 0") (simp_all add: vm_walk_def)
  then have "pmm_static (pmm s') = pmm_static (pmm s)"
    using vm_next_static [OF n1] vm_next_static [OF n2] vm_next_static [OF n3] by auto
  then show ?thesis using w by (auto simp: vm_map_def split: option.splits)
qed

section \<open>The translation buffer stays coherent\<close>

lemma mmu_eq_leaf: "mmu m root va = map_option (\<lambda>(k, e). leaf_addr k e va) (mmu_leaf m 4 (pte_frame root) va)"
  by (rule mmu_def)

lemma tlb_ok_leaf:
  assumes "tlb_ok s" "cr3 s' = cr3 s"
    and keep: "\<And>page f. is_page page \<Longrightarrow> tlb s' page = Some f \<Longrightarrow> tlb s page = Some f \<and>
      (mmu_leaf (mem s) 4 (pte_frame (cr3 s)) page \<noteq> None \<longrightarrow>
       mmu_leaf (mem s') 4 (pte_frame (cr3 s)) page = mmu_leaf (mem s) 4 (pte_frame (cr3 s)) page)"
    and sub: "\<And>page f. tlb s' page = Some f \<Longrightarrow> tlb s page = Some f"
  shows "tlb_ok s'"
  unfolding tlb_ok_def
proof (intro allI impI)
  fix page f
  assume t: "tlb s' page = Some f"
  then have old: "is_page page" "mmu (mem s) (cr3 s) page = Some f"
    using assms(1) sub unfolding tlb_ok_def by blast+
  then have "mmu_leaf (mem s) 4 (pte_frame (cr3 s)) page \<noteq> None" by (auto simp: mmu_eq_leaf)
  then have "mmu_leaf (mem s') 4 (pte_frame (cr3 s)) page = mmu_leaf (mem s) 4 (pte_frame (cr3 s)) page"
    using keep [OF old(1) t] by blast
  then show "is_page page \<and> mmu (mem s') (cr3 s') page = Some f" using old assms(2) by (simp add: mmu_eq_leaf)
qed

lemma vm_map_tlb:
  assumes wf: "vm_wf lv s" and sp: "lv space = 4" and cur: "lv (pte_frame (cr3 s)) = 4"
    and fl: "pte_frame flags = 0" "pte_present flags" and ok: "tlb_ok s"
  shows "tlb_ok (snd (vm_map space va pa flags s))"
proof (cases "vm_map space va pa flags s")
  case (Pair r s')
  show ?thesis
  proof (cases "r = 0")
    case True
    note d = vm_map_done [OF wf sp fl, of va pa s']
    have m: "vm_map space va pa flags s = (0, s')" using Pair True by simp
    obtain m1 p1 where s': "s' = s\<lparr>mem := m1, pmm := p1, tlb := (tlb s)(va := None)\<rparr>" using d(7) [OF m] by blast
    have keep: "mmu_leaf (mem s') 4 (pte_frame (cr3 s)) page = mmu_leaf (mem s) 4 (pte_frame (cr3 s)) page"
      if "mmu_leaf (mem s) 4 (pte_frame (cr3 s)) page \<noteq> None" for page
    proof -
      have none: "mmu_leaf (mem s) 4 space page = None" if "same_page va page"
        using mmu_leaf_same_page [OF that] d(2) [OF m] by simp
      have u: "mmu_leaf (mem s') 4 space page = (if same_page va page then Some (1, pa OR flags) else mmu_leaf (mem s) 4 space page)"
        using d(3) [OF m] unfolding page_update_def by blast
      show ?thesis
      proof (cases "pte_frame (cr3 s) = space")
        case True
        then show ?thesis using u none that by auto
      next
        case False
        then show ?thesis using d(3) [OF m] cur none that unfolding page_update_def by (metis (no_types))
      qed
    qed
    have "tlb_ok s'"
      by (rule tlb_ok_leaf [OF ok]) (auto simp: s' keep [unfolded s', simplified] split: if_splits)
    then show ?thesis using Pair by simp
  next
    case False
    then obtain lv' where g: "vm_grown lv s lv' s'" using vm_map_refused [OF wf sp fl Pair] by blast
    then obtain m1 p1 where s': "s' = s\<lparr>mem := m1, pmm := p1\<rparr>" unfolding vm_grown_def by blast
    have "mmu (mem s') (cr3 s') page = mmu (mem s) (cr3 s) page" for page
      using mmu_leaf_grown [OF g cur, of page] s' by (simp add: mmu_eq_leaf)
    then show ?thesis using ok Pair s' by (simp add: tlb_ok_def)
  qed
qed

lemma page_of_page: "canonical va \<Longrightarrow> is_page (va AND NOT 4095) \<and> same_page va (va AND NOT 4095)"
proof -
  assume c: "canonical va"
  have b: "bit (va AND NOT 4095) n = (bit va n \<and> 12 \<le> n)" if "n < 64" for n
    using that unfolding mask_12_u64 [symmetric] by (simp add: bit_and_iff bit_not_iff bit_mask_iff not_less)
  have "canonical (va AND NOT 4095)"
    unfolding canonical_def
  proof (intro allI impI)
    fix n :: nat assume n: "47 \<le> n \<and> n < 64"
    then have "bit va n = bit va 47" using c unfolding canonical_def by blast
    then show "bit (va AND NOT 4095) n = bit (va AND NOT 4095) 47" using n by (simp only: b) simp
  qed
  moreover have "(va AND NOT 4095) AND 4095 = 0" by (simp add: and.assoc)
  moreover have "pt_index k va = pt_index k (va AND NOT 4095)" if "k \<in> {1, 2, 3, 4}" for k
  proof (rule bit_word_eqI)
    fix j assume "j < LENGTH(64)"
    show "bit (pt_index k va) j = bit (pt_index k (va AND NOT 4095)) j"
    proof (cases "j < 9")
      case True
      then have "12 + 9 * (k - 1) + j < 64" using that by auto
      then show ?thesis unfolding pt_index_bit [OF True] b [OF \<open>_ < 64\<close>] by simp
    next
      case False
      have m: "(0x1FF :: u64) = mask 9" by (simp add: mask_numeral)
      show ?thesis using False unfolding pt_index_def m by (simp add: bit_and_iff bit_mask_iff)
    qed
  qed
  ultimately show ?thesis unfolding is_page_def same_page_def by blast
qed

lemma vm_unmap_tlb:
  assumes wf: "vm_wf lv s" and sp: "lv space = 4" and cur: "lv (pte_frame (cr3 s)) = 4"
    and va: "canonical va" and ok: "tlb_ok s"
  shows "tlb_ok (snd (vm_unmap space va s))"
proof (cases "\<exists>e. mmu_leaf (mem s) 4 space va = Some (1, e)")
  case False
  then show ?thesis using vm_unmap_absent [OF wf sp, of va] ok by simp
next
  case True
  then obtain e s' where u: "vm_unmap space va s = (pte_frame e, s')" "page_update lv space va None s s'"
    "tlb s' = (tlb s)(va AND NOT 4095 := None)" "cr3 s' = cr3 s"
    using vm_unmap_done [OF wf sp] by blast
  have "mmu_leaf (mem s') 4 (pte_frame (cr3 s)) page = mmu_leaf (mem s) 4 (pte_frame (cr3 s)) page"
    if "is_page page" "page \<noteq> va AND NOT 4095" for page
  proof -
    have "\<not> same_page va page"
    proof
      assume "same_page va page"
      then have "same_page (va AND NOT 4095) page" using page_of_page [OF va] by (simp add: same_page_def)
      then show False using same_page_eq that page_of_page [OF va] by blast
    qed
    then show ?thesis using u(2) cur unfolding page_update_def by metis
  qed
  then have "tlb_ok s'"
    using u(3,4) by (intro tlb_ok_leaf [OF ok u(4)]) (auto split: if_splits)
  then show ?thesis using u(1) by simp
qed

section \<open>Creating an address space\<close>

lemma copy_prefix:
  assumes pa: "pa AND 4095 = 0" and ks: "ks AND 4095 = 0" and ne: "ks \<noteq> pa" and t: "t AND 4095 = 0" "j < 512" and n: "n \<le> 512"
  shows "rd64 (fold (\<lambda>i m. wr64 m (slot pa (of_nat i)) (rd64 m (slot ks (of_nat i)))) [256..<n] m) (slot t j) =
    (if t = pa \<and> 256 \<le> unat j \<and> unat j < n then rd64 m (slot ks j) else rd64 m (slot t j))"
  using n t
proof (induction n arbitrary: t j)
  case (Suc n)
  show ?case
  proof (cases "256 \<le> n")
    case True
    let ?f = "fold (\<lambda>i m. wr64 m (slot pa (of_nat i)) (rd64 m (slot ks (of_nat i)))) [256..<n] m"
    have u: "unat (of_nat n :: u64) = n" using Suc.prems by (simp add: unat_of_nat_u64)
    then have b: "(of_nat n :: u64) < 512" using Suc.prems by (simp add: word_less_nat_alt)
    have jn: "j = of_nat n \<longleftrightarrow> unat j = n" using u by (auto simp: word_unat_eq_iff)
    have k: "rd64 ?f (slot ks (of_nat n)) = rd64 m (slot ks (of_nat n))" using Suc.IH [OF _ ks b] Suc.prems(1) ne by simp
    show ?thesis
      using True Suc.IH [OF _ Suc.prems(2,3)] Suc.prems(1) k rd_slot_wr [OF pa b Suc.prems(2,3)] jn by auto
  next
    case False
    then show ?thesis by auto
  qed
qed simp

definition space_mem :: "u64 \<Rightarrow> u64 \<Rightarrow> bytes \<Rightarrow> bytes" where
  "space_mem pa ks m =
     (let m1 = zero_table pa m; m2 = wr64 m1 (slot pa 0) (rd64 m1 (slot ks 0))
      in fold (\<lambda>i m. wr64 m (slot pa (of_nat i)) (rd64 m (slot ks (of_nat i)))) [256..<512] m2)"

lemma space_mem_rd:
  assumes pa: "pa AND 4095 = 0" and ks: "ks AND 4095 = 0" "ks \<noteq> pa" and t: "t AND 4095 = 0" "j < 512"
  shows "rd64 (space_mem pa ks m) (slot t j) =
    (if t = pa then (if shared_ix j then rd64 m (slot ks j) else 0) else rd64 m (slot t j))"
proof -
  let ?m1 = "zero_table pa m"
  let ?m2 = "wr64 ?m1 (slot pa 0) (rd64 ?m1 (slot ks 0))"
  have z: "rd64 ?m1 (slot t' j') = (if t' = pa then 0 else rd64 m (slot t' j'))" if "t' AND 4095 = 0" "j' < 512" for t' j'
    using rd_zero_table [OF pa that] .
  have two: "rd64 ?m2 (slot t' j') = (if t' = pa then (if j' = 0 then rd64 m (slot ks 0) else 0) else rd64 m (slot t' j'))"
    if "t' AND 4095 = 0" "j' < 512" for t' j'
    using rd_slot_wr [OF pa _ that, of 0 ?m1 "rd64 ?m1 (slot ks 0)"] z [OF that] z [OF ks(1), of 0] ks(2) by auto
  have sh: "shared_ix j \<longleftrightarrow> j = 0 \<or> 256 \<le> unat j" by (simp add: shared_ix_def word_le_nat_alt)
  have jb: "unat j < 512" using t(2) by (simp add: word_less_nat_alt)
  have cp: "rd64 (space_mem pa ks m) (slot t j) =
      (if t = pa \<and> 256 \<le> unat j then rd64 ?m2 (slot ks j) else rd64 ?m2 (slot t j))"
    unfolding space_mem_def Let_def using copy_prefix [OF pa ks t le_refl, of ?m2] jb by argo
  show ?thesis unfolding cp two [OF t] two [OF ks(1) t(2)] sh using ks(2) by auto
qed

lemma mmu_leaf_tables:
  assumes wf: "wf_tables lv m av" and eq: "\<And>t j. 0 < lv t \<Longrightarrow> j < 512 \<Longrightarrow> rd64 m' (slot t j) = rd64 m (slot t j)"
  shows "0 < lv t \<Longrightarrow> lv t = k \<Longrightarrow> mmu_leaf m' k t va = mmu_leaf m k t va"
proof (induction k arbitrary: t)
  case (Suc k)
  have e: "rd64 m' (slot t (pt_index (Suc k) va)) = rd64 m (slot t (pt_index (Suc k) va))" by (rule eq [OF Suc.prems(1)]) simp
  show ?case
  proof (cases "k = 0")
    case False
    have c: "child m' t (pt_index (Suc k) va) = child m t (pt_index (Suc k) va)" using e by (simp add: child_def)
    have k: "0 < k" using False by simp
    show ?thesis
    proof (cases "child m t (pt_index (Suc k) va)")
      case None
      then show ?thesis unfolding mmu_leaf_child [OF k] c e by simp
    next
      case (Some d)
      then have "lv d = k" using wf_child [OF wf _ _ Some] Suc.prems k by simp
      then show ?thesis using Some Suc.IH [of d] k unfolding mmu_leaf_child [OF k] c by simp
    qed
  qed (use e in \<open>simp add: Let_def\<close>)
qed simp

lemma space_child:
  assumes "pa AND 4095 = 0" "ks AND 4095 = 0" "ks \<noteq> pa" "t AND 4095 = 0" "j < 512"
  shows "child (space_mem pa ks m) t j =
    (if t = pa then (if shared_ix j then child m ks j else None) else child m t j)"
  using space_mem_rd [OF assms] by (simp add: child_def Let_def pte_present_def)

lemma space_wf:
  assumes wf: "wf_tables lv m av" and ks: "lv ks = 4" and pa: "pa \<in> av" "is_frame pa"
  shows "wf_tables (lv(pa := 4)) (space_mem pa ks m) (av - {pa})"
proof -
  let ?lv = "lv(pa := 4)" and ?m = "space_mem pa ks m"
  have lp: "lv pa = 0" using wf_frame(4) [OF wf, of pa] pa(1) by (cases "lv pa") auto
  have al: "?lv t \<noteq> 0 \<Longrightarrow> t AND 4095 = 0" for t
    using wf_frame(1) [OF wf, of t] pa(2) by (auto simp: is_frame_def split: if_splits)
  have kp: "ks \<noteq> pa" using lp ks by auto
  have ch: "child ?m t j = (if t = pa then (if shared_ix j then child m ks j else None) else child m t j)"
    if "2 \<le> ?lv t" "j < 512" for t j
    using al [of pa] al [of ks] al [of t] ks that by (intro space_child) (auto simp: kp)
  have np: "child m t j \<noteq> Some pa" if "2 \<le> lv t" "j < 512" for t j
    using wf_child [OF wf that, of pa] lp that(1) by auto
  have "\<forall>t. 0 < ?lv t \<longrightarrow> ?lv t \<le> 4 \<and> is_frame t \<and> t \<notin> av - {pa}"
    using wf_frame(3-5) [OF wf] pa(2) by auto
  moreover have "\<forall>t j c. 2 \<le> ?lv t \<longrightarrow> j < 512 \<longrightarrow> child ?m t j = Some c \<longrightarrow> ?lv c = ?lv t - 1"
  proof (intro allI impI)
    fix t j c
    assume a: "2 \<le> ?lv t" "j < 512" "child ?m t j = Some c"
    then show "?lv c = ?lv t - 1"
      using ch [OF a(1,2)] wf_child [OF wf, of ks j c] wf_child [OF wf, of t j c] ks np [of ks j] np [of t j]
      by (auto split: if_splits)
  qed
  moreover have "\<forall>t j t' j' c. 2 \<le> ?lv t \<longrightarrow> 2 \<le> ?lv t' \<longrightarrow> j < 512 \<longrightarrow> j' < 512 \<longrightarrow>
      child ?m t j = Some c \<longrightarrow> child ?m t' j' = Some c \<longrightarrow>
      j = j' \<and> (t = t' \<or> ?lv t = 4 \<and> (j = 0 \<or> 256 \<le> j))"
  proof (intro allI impI)
    fix t j t' j' c
    assume a: "2 \<le> ?lv t" "2 \<le> ?lv t'" "j < 512" "j' < 512" "child ?m t j = Some c" "child ?m t' j' = Some c"
    let ?u = "if t = pa then ks else t" and ?u' = "if t' = pa then ks else t'"
    have u: "child m ?u j = Some c" "child m ?u' j' = Some c" "2 \<le> lv ?u" "2 \<le> lv ?u'"
      "t = pa \<Longrightarrow> shared_ix j" "t' = pa \<Longrightarrow> shared_ix j'"
      using a ch [OF a(1,3)] ch [OF a(2,4)] ks by (auto split: if_splits)
    have p: "j = j' \<and> (?u = ?u' \<or> lv ?u = 4 \<and> shared_ix j)" by (rule wf_parent [OF wf u(3,4) a(3,4) u(1,2)])
    then show "j = j' \<and> (t = t' \<or> ?lv t = 4 \<and> (j = 0 \<or> 256 \<le> j))"
      using u(5,6) ks unfolding shared_ix_def [symmetric] by (auto split: if_splits)
  qed
  ultimately show ?thesis unfolding wf_tables_def by blast
qed

lemma space_mmu:
  assumes wf: "wf_tables lv m av" and ks: "lv ks = 4" and pa: "pa \<in> av" "is_frame pa"
  shows "0 < lv t \<Longrightarrow> mmu_leaf (space_mem pa ks m) (lv t) t va = mmu_leaf m (lv t) t va"
    "mmu_leaf (space_mem pa ks m) 4 pa va = (if shared_ix (pt_index 4 va) then mmu_leaf m 4 ks va else None)"
proof -
  let ?m = "space_mem pa ks m"
  have lp: "lv pa = 0" using wf_frame(4) [OF wf, of pa] pa(1) by (cases "lv pa") auto
  have al: "pa AND 4095 = 0" "ks AND 4095 = 0" "ks \<noteq> pa"
    using pa(2) wf_frame(1) [OF wf, of ks] ks lp by (auto simp: is_frame_def)
  have eq: "rd64 ?m (slot t j) = rd64 m (slot t j)" if "0 < lv t" "j < 512" for t j
    using space_mem_rd [OF al wf_frame(1) [OF wf that(1)] that(2)] lp that(1) by auto
  show same: "mmu_leaf ?m (lv t) t va = mmu_leaf m (lv t) t va" if "0 < lv t" for t
    by (rule mmu_leaf_tables [OF wf eq that refl])
  let ?j = "pt_index (Suc 3) va"
  have r: "rd64 ?m (slot pa ?j) = (if shared_ix ?j then rd64 m (slot ks ?j) else 0)"
    using space_mem_rd [OF al al(1)] by simp
  have c: "child ?m pa ?j = (if shared_ix ?j then child m ks ?j else None)"
    using space_child [OF al al(1)] by simp
  have "mmu_leaf ?m (Suc 3) pa va = (if shared_ix ?j then mmu_leaf m (Suc 3) ks va else None)"
  proof (cases "shared_ix ?j")
    case True
    show ?thesis
    proof (cases "child m ks ?j")
      case None
      then show ?thesis using True r c by (simp only: mmu_leaf_child [of 3, OF zero_less_numeral]) simp
    next
      case (Some d)
      then have "lv d = 3" using wf_child [OF wf _ _ Some] ks by simp
      then show ?thesis using True c Some same [of d] by (simp only: mmu_leaf_child [of 3, OF zero_less_numeral]) simp
    qed
  next
    case False
    then show ?thesis using r c by (simp only: mmu_leaf_child [of 3, OF zero_less_numeral]) (simp add: pte_present_def)
  qed
  then show "mmu_leaf ?m 4 pa va = (if shared_ix (pt_index 4 va) then mmu_leaf m 4 ks va else None)" by simp
qed

lemma vm_create_space_spec:
  assumes wf: "vm_wf lv s" and ks: "lv (vm_kernel_space_ptr s) = 4" and c: "vm_create_space s = (pa, s')"
  shows "(pa = 0 \<and> s' = s \<and> pmm_avail (pmm s) = {}) \<or>
    (pa \<in> pmm_avail (pmm s) \<and> vm_wf (lv(pa := 4)) s' \<and> lv pa = 0 \<and>
     mem s' = space_mem pa (vm_kernel_space_ptr s) (mem s) \<and> cr3 s' = cr3 s \<and> tlb s' = tlb s \<and>
     vm_kernel_space_ptr s' = vm_kernel_space_ptr s)"
proof -
  have inv: "pmm_inv (pmm s)" and w: "wf_tables lv (mem s) (pmm_avail (pmm s))" using wf by (simp_all add: vm_wf_def)
  have nz: "vm_kernel_space_ptr s \<noteq> 0" using wf_frame(2) [OF w, of "vm_kernel_space_ptr s"] ks by simp
  from inv show ?thesis
  proof (cases rule: alloc_frame_cases)
    case none
    then show ?thesis using c nz by (simp add: vm_create_space_def)
  next
    case (frame p q)
    have lp: "lv p = 0" using wf_frame(4) [OF w, of p] frame(2) by (cases "lv p") auto
    have e: "pa = p" "s' = s\<lparr>pmm := q, mem := space_mem p (vm_kernel_space_ptr s) (mem s)\<rparr>"
      using c nz frame(1,3) by (auto simp: vm_create_space_def space_mem_def Let_def is_frame_def simp del: upt_rec_numeral)
    then show ?thesis using space_wf [OF w ks frame(2,3)] frame(2,4,5) lp by (simp add: vm_wf_def)
  qed
qed

section \<open>The page-fault handler\<close>

text \<open>Clearing a frame that is not a table disturbs no translation.\<close>

lemma zero_table_wf:
  assumes w: "wf_tables lv m av" and f: "is_frame fr" "lv fr = 0"
  shows "wf_tables lv (zero_table fr m) (av - {fr})" "0 < lv t \<Longrightarrow> mmu_leaf (zero_table fr m) (lv t) t va = mmu_leaf m (lv t) t va"
proof -
  have eq: "rd64 (zero_table fr m) (slot t j) = rd64 m (slot t j)" if "0 < lv t" "j < 512" for t j
    using rd_zero_table [OF _ wf_frame(1) [OF w that(1)] that(2), of fr] f that(1) by (auto simp: is_frame_def)
  then show "wf_tables lv (zero_table fr m) (av - {fr})"
    by (intro wf_same_children [OF w]) (auto simp: child_def)
  show "0 < lv t \<Longrightarrow> mmu_leaf (zero_table fr m) (lv t) t va = mmu_leaf m (lv t) t va"
    by (rule mmu_leaf_tables [OF w eq _ refl])
qed

lemma wf_tables_avail:
  assumes w: "wf_tables lv m av" and n: "\<And>t. 0 < lv t \<Longrightarrow> t \<notin> av'"
  shows "wf_tables lv m av'"
proof -
  have "\<forall>t. 0 < lv t \<longrightarrow> lv t \<le> 4 \<and> is_frame t \<and> t \<notin> av'" using wf_frame [OF w] n by blast
  then show ?thesis using w unfolding wf_tables_def by (elim conjE) (intro conjI)
qed

text \<open>Giving a frame back that is not a table keeps the tables well formed.\<close>

lemma free_frame_wf:
  assumes "vm_wf lv s" "is_frame fr" "lv fr = 0"
  shows "vm_wf lv (free_frame fr s)"
proof -
  have inv: "pmm_inv (pmm s)" and w: "wf_tables lv (mem s) (pmm_avail (pmm s))" using assms by (simp_all add: vm_wf_def)
  have "wf_tables lv (mem s) (insert fr (pmm_avail (pmm s)))"
    using assms(3) wf_frame(4) [OF w] by (intro wf_tables_avail [OF w]) auto
  then show ?thesis
    using pmm.release_avail [OF inv assms(2)] pmm.release_ok [OF inv] by (simp add: vm_wf_def free_frame_def)
qed

definition heap_addr :: "u64 \<Rightarrow> bool" where
  "heap_addr va \<longleftrightarrow> VM_HEAP_BASE \<le> va \<and> va < VM_HEAP_BASE + VM_HEAP_SIZE"

text \<open>The faults the handler may repair: a page of the heap that is not present, outside the handler itself.\<close>

definition fault_in_scope :: "regs_t \<Rightarrow> 'a vm_sys_scheme \<Rightarrow> bool" where
  "fault_in_scope r s \<longleftrightarrow> \<not> vm_in_fault s \<and> error_code r AND 1 = 0 \<and> error_code r AND 8 = 0 \<and>
     error_code r AND 16 = 0 \<and> heap_addr (cr2 s)"

lemma out_of_scope: "\<not> fault_in_scope r s \<Longrightarrow> vm_handle_page_fault r s = (0, s)"
  by (auto simp: fault_in_scope_def vm_handle_page_fault_def Let_def heap_addr_def not_le not_less)

lemma heap_page_guards:
  assumes "heap_addr va"
  shows "PMM_MAX_PHYS \<le> va AND NOT 4095" "(va AND NOT 4095) AND 4095 = 0" "canonical va" "shared_ix (pt_index 4 va)"
proof -
  have u: "0xFFFF800000000000 \<le> unat va" "unat va < 0xFFFF800001000000"
    using assms by (simp_all add: heap_addr_def VM_HEAP_BASE_def VM_HEAP_SIZE_def word_le_nat_alt word_less_nat_alt)
  have "unat va mod 4096 < 4096" by simp
  then have "1073741824 \<le> unat va - unat va mod 4096" using u(1) by linarith
  then show "PMM_MAX_PHYS \<le> va AND NOT 4095"
    using and_not_4095_nat [of va] by (simp add: word_le_nat_alt PMM_MAX_PHYS_def)
  show "(va AND NOT 4095) AND 4095 = 0" by (simp add: and.assoc)
  have d: "unat va div 2 ^ 39 = 0x1FFFF00" using u by simp
  have "unat (drop_bit 39 va) = 0x1FFFF00" using d by (simp add: drop_bit_eq_div unat_div_distrib)
  then have e: "drop_bit 39 va = 0x1FFFF00" by (simp add: word_unat_eq_iff)
  then show "shared_ix (pt_index 4 va)" by (simp add: pt_index_def shared_ix_def)
  show "canonical va" unfolding canonical_def
  proof (intro allI impI)
    fix n :: nat assume n: "47 \<le> n \<and> n < 64"
    have b: "bit va k = bit (0x1FFFF00 :: u64) (k - 39)" if "39 \<le> k" for k
      using that unfolding e [symmetric] by (simp add: bit_drop_bit_eq)
    have "(0x1FFFF00 :: u64) = push_bit 8 (mask 17)" by (simp add: mask_numeral)
    then have nb: "bit (0x1FFFF00 :: u64) j = (8 \<le> j \<and> j < 25)" if "j < 64" for j
      using that by (simp only: bit_push_bit_iff bit_mask_iff) auto
    have j: "39 \<le> n" "n - 39 < 64" "8 \<le> n - 39 \<and> n - 39 < 25" using n by auto
    have "bit va n" unfolding b [OF j(1)] nb [OF j(2)] by (rule j(3))
    moreover have "bit va 47" using b [of 47] nb [of 8] by simp
    ultimately show "bit va n = bit va 47" by simp
  qed
qed

lemma vm_fault_fields:
  "vm_wf lv (s\<lparr>vm_in_fault := b\<rparr>) = vm_wf lv s" "vm_wf lv (s\<lparr>vm_faults := n\<rparr>) = vm_wf lv s"
  for s :: "'a vm_sys_scheme"
  by (simp_all add: vm_wf_def)

text \<open>The state after the handler has taken the frame \<^verbatim>\<open>fr\<close> and cleared it.\<close>

definition fault_frame :: "u64 \<Rightarrow> pmm_st \<Rightarrow> 'a vm_sys_scheme \<Rightarrow> 'a vm_sys_scheme" where
  "fault_frame fr p s = s\<lparr>vm_in_fault := True, pmm := p, mem := zero_table fr (mem s)\<rparr>"

lemma handle_fault_step:
  assumes sc: "fault_in_scope r s" and a: "pmm_alloc_frame (pmm s) = (fr, p)"
  shows "vm_handle_page_fault r s =
    (if fr = 0 then (0, s\<lparr>pmm := p\<rparr>)
     else case vm_map (pte_frame (cr3 s)) (cr2 s AND NOT 4095) fr 3 (fault_frame fr p s) of (r1, s4) \<Rightarrow>
       if r1 \<noteq> 0 then (0, (free_frame fr s4)\<lparr>vm_in_fault := False\<rparr>)
       else (1, s4\<lparr>vm_faults := vm_faults s4 + 1, vm_in_fault := False\<rparr>))"
proof -
  have "\<not> vm_in_fault s" "error_code r AND 1 = 0" "error_code r AND 8 = 0" "error_code r AND 16 = 0"
    "\<not> (cr2 s < VM_HEAP_BASE \<or> VM_HEAP_BASE + VM_HEAP_SIZE \<le> cr2 s)"
    using sc by (auto simp: fault_in_scope_def heap_addr_def)
  note g = this
  have same: "s\<lparr>vm_in_fault := False\<rparr> = s" using g(1) by simp
  have "s\<lparr>vm_in_fault := True, pmm := p, vm_in_fault := False\<rparr> = s\<lparr>pmm := p\<rparr>"
    by (subst (2) same [symmetric]) simp
  then show ?thesis
    using g a rw_flags(3)
    by (simp add: vm_handle_page_fault_def alloc_frame_def fault_frame_def vm_current_space_def read_cr3_def vm_mask
      VM_PAGE_SIZE_def Let_def)
qed

lemma fault_frame_wf:
  assumes wf: "vm_wf lv s" and a: "pmm_alloc_frame (pmm s) = (fr, p)" and nz: "fr \<noteq> 0"
  shows "vm_wf lv (fault_frame fr p s)" "is_frame fr" "lv fr = 0" "fr \<in> pmm_avail (pmm s)" "pmm_avail p = pmm_avail (pmm s) - {fr}"
    "0 < lv t \<Longrightarrow> mmu_leaf (mem (fault_frame fr p s)) (lv t) t va = mmu_leaf (mem s) (lv t) t va"
    "cr3 (fault_frame fr p s) = cr3 s" "pmm (fault_frame fr p s) = p" "i < 512 \<Longrightarrow> rd64 (mem (fault_frame fr p s)) (slot fr i) = 0"
    "pmm_inv (pmm s)" "pmm_inv p"
proof -
  show inv: "pmm_inv (pmm s)" using wf by (simp add: vm_wf_def)
  have w: "wf_tables lv (mem s) (pmm_avail (pmm s))" using wf by (simp add: vm_wf_def)
  have ne: "pmm_avail (pmm s) \<noteq> {}" using pmm.alloc_none [OF inv] a nz by auto
  show fa: "fr \<in> pmm_avail (pmm s)" and pa: "pmm_avail p = pmm_avail (pmm s) - {fr}" and pi: "pmm_inv p"
    using pmm.alloc_some [OF inv ne] pmm.alloc_ok [OF inv] a by simp_all
  show fr: "is_frame fr" by (rule pmm.avail_frames [OF inv fa])
  show l0: "lv fr = 0" using wf_frame(4) [OF w, of fr] fa by (cases "lv fr") auto
  show "vm_wf lv (fault_frame fr p s)"
    using zero_table_wf(1) [OF w fr l0] pi pa by (simp add: vm_wf_def fault_frame_def)
  show "0 < lv t \<Longrightarrow> mmu_leaf (mem (fault_frame fr p s)) (lv t) t va = mmu_leaf (mem s) (lv t) t va"
    using zero_table_wf(2) [OF w fr l0] by (simp add: fault_frame_def)
  show "cr3 (fault_frame fr p s) = cr3 s" "pmm (fault_frame fr p s) = p" by (simp_all add: fault_frame_def)
  show "i < 512 \<Longrightarrow> rd64 (mem (fault_frame fr p s)) (slot fr i) = 0"
    using fr by (simp add: fault_frame_def rd_zero_table is_frame_def)
qed

section \<open>Tables as the boot code leaves them\<close>

lemma wf_chain:
  assumes f: "is_frame a" "is_frame b" "is_frame c" "a \<notin> av" "b \<notin> av" "c \<notin> av" and ne: "a \<noteq> b" "a \<noteq> c" "b \<noteq> c"
    and ch: "\<And>i. i < 512 \<Longrightarrow> child m a i = (if i = 0 then Some b else None)" "\<And>i. i < 512 \<Longrightarrow> child m b i = (if i = 0 then Some c else None)"
      "\<And>i. i < 512 \<Longrightarrow> child m c i = None"
  shows "wf_tables (\<lambda>t. if t = a then 4 else if t = b then 3 else if t = c then 2 else 0) m av"
proof -
  let ?lv = "\<lambda>t. if t = a then 4 else if t = b then 3 else if t = c then 2 else (0 :: nat)"
  have k: "t = a \<and> i = 0 \<and> d = b \<or> t = b \<and> i = 0 \<and> d = c" if "2 \<le> ?lv t" "i < 512" "child m t i = Some d" for t i d
    using that ch [OF that(2)] by (auto split: if_splits)
  have "\<forall>t. 0 < ?lv t \<longrightarrow> ?lv t \<le> 4 \<and> is_frame t \<and> t \<notin> av" using f by (auto split: if_splits)
  moreover have "\<forall>t i d. 2 \<le> ?lv t \<longrightarrow> i < 512 \<longrightarrow> child m t i = Some d \<longrightarrow> ?lv d = ?lv t - 1"
  proof (intro allI impI)
    fix t i d
    assume a: "2 \<le> ?lv t" "i < 512" "child m t i = Some d"
    show "?lv d = ?lv t - 1" using k [OF a] ne by auto
  qed
  moreover have "\<forall>t i t' i' d. 2 \<le> ?lv t \<longrightarrow> 2 \<le> ?lv t' \<longrightarrow> i < 512 \<longrightarrow> i' < 512 \<longrightarrow> child m t i = Some d \<longrightarrow> child m t' i' = Some d \<longrightarrow>
      i = i' \<and> (t = t' \<or> ?lv t = 4 \<and> (i = 0 \<or> 256 \<le> i))"
  proof (intro allI impI)
    fix t i t' i' d
    assume a: "2 \<le> ?lv t" "2 \<le> ?lv t'" "i < 512" "i' < 512" "child m t i = Some d" "child m t' i' = Some d"
    show "i = i' \<and> (t = t' \<or> ?lv t = 4 \<and> (i = 0 \<or> 256 \<le> i))"
      using k [OF a(1,3,5)] k [OF a(2,4,6)] ne by auto
  qed
  ultimately show ?thesis unfolding wf_tables_def by (intro conjI)
qed

section \<open>Properties\<close>

text \<open>The boot tables with a frame pool, for the witnesses.\<close>

definition boot_lv :: "u64 \<Rightarrow> nat" where
  "boot_lv t = (if t = 0x1000 then 4 else if t = 0x2000 then 3 else if t = 0x3000 then 2 else 0)"

definition boot_vm :: vm_sys where
  "boot_vm = \<lparr>con = vga_boot, mem = boot_mem, cr3 = 0x1000, cr2 = 0xFFFF800000000008, tlb = \<lambda>_. None, pmm = demo_pmm,
     vm_kernel_space_ptr = 0x1000, vm_faults = 0, vm_in_fault = False\<rparr>"

lemma boot_vm_fields [simp]:
  "mem boot_vm = boot_mem" "cr3 boot_vm = 0x1000" "pmm boot_vm = demo_pmm" "vm_kernel_space_ptr boot_vm = 0x1000"
  "cr2 boot_vm = 0xFFFF800000000008" "tlb boot_vm = (\<lambda>_. None)" "\<not> vm_in_fault boot_vm" "vm_faults boot_vm = 0"
  by (simp_all add: boot_vm_def)

lemma boot_child:
  assumes "0 < boot_lv t" "i < 512"
  shows "child boot_mem t i = (if t = 0x1000 \<and> i = 0 then Some 0x2000 else if t = 0x2000 \<and> i = 0 then Some 0x3000 else None)"
proof -
  have t: "t = 0x1000 \<or> t = 0x2000 \<or> t = 0x3000" using assms(1) by (auto simp: boot_lv_def split: if_splits)
  then have "t AND 4095 = 0" "unat t \<le> 0x3000" by auto
  note r = boot_mem_slot [OF this assms(2)]
  have e: "pte_present 0x2003" "\<not> pte_huge 0x2003" "pte_frame 0x2003 = 0x2000" "pte_present 0x3003" "\<not> pte_huge 0x3003"
    "pte_frame 0x3003 = 0x3000" "pte_huge 0x83" "\<not> pte_present 0"
    by (simp_all add: pte_present_def pte_huge_def pte_frame_def)
  show ?thesis unfolding child_def Let_def r using t e by (cases "i = 0") auto
qed

lemma boot_vm_wf: "vm_wf boot_lv boot_vm" "boot_lv 0x1000 = 4" "boot_lv (pte_frame 0x1000) = 4"
proof -
  have na: "t \<notin> pmm_avail demo_pmm" if "unat t \<le> 0x3000" for t
  proof
    assume "t \<in> pmm_avail demo_pmm"
    then have "t AND 4095 = 0" "t < PMM_MAX_PHYS" "\<not> pmm_bit_test (t div PMM_FRAME_SIZE) demo_pmm"
      by (simp_all add: pmm_avail_iff)
    then have "0x110 \<le> unat (t div PMM_FRAME_SIZE)" using demo_pmm_bits frame_of_addr(1) by blast
    then show False using that by (simp add: unat_div_distrib PMM_FRAME_SIZE_def)
  qed
  have lv: "boot_lv = (\<lambda>t. if t = 0x1000 then 4 else if t = 0x2000 then 3 else if t = 0x3000 then 2 else 0)" by (simp add: boot_lv_def fun_eq_iff)
  have "wf_tables boot_lv boot_mem (pmm_avail demo_pmm)" unfolding lv
    by (rule wf_chain) (simp_all add: is_frame_def PMM_MAX_PHYS_def na boot_child boot_lv_def)
  then show "vm_wf boot_lv boot_vm" by (simp add: vm_wf_def demo_pmm_ok)
  show "boot_lv 0x1000 = 4" "boot_lv (pte_frame 0x1000) = 4" by (simp_all add: boot_lv_def pte_frame_def)
qed

lemma mmu_space: "vm_wf lv s \<Longrightarrow> lv space = 4 \<Longrightarrow>
  mmu m space va = map_option (\<lambda>(k, e). leaf_addr k e va) (mmu_leaf m 4 space va)"
  using frame_mask wf_frame(3) unfolding vm_wf_def mmu_def by (metis zero_less_numeral)

text \<open>
  (C4) \<^verbatim>\<open>vm_map\<close> on well-formed tables: when it returns 0 the page was not mapped before, now it translates to
  the given frame, and no other page of the space changes; when it returns -1 no translation changes.  In
  both cases the tables stay well formed and no byte outside page tables is written.
\<close>

theorem vm_map_adds_page:
  assumes "vm_wf lv s" and "lv space = 4" and "pte_frame flags = 0" and "pte_present flags"
  shows "case vm_map space va pa flags s of (r, s') \<Rightarrow>
    (\<exists>lv'. vm_wf lv' s' \<and> tables_only lv s lv' s') \<and>
    (if r = 0 then mmu (mem s) space va = None \<and>
       (\<forall>va'. mmu (mem s') space va' =
          (if same_page va va' then Some (pa OR (va' AND 4095)) else mmu (mem s) space va'))
     else r = -1 \<and> (\<forall>va'. mmu (mem s') space va' = mmu (mem s) space va'))"
proof (cases "vm_map space va pa flags s")
  case (Pair r s')
  have w: "\<exists>lv'. vm_wf lv' s' \<and> tables_only lv s lv' s'" using vm_map_wf [OF assms, of va pa] Pair by simp
  show ?thesis
  proof (cases "r = 0")
    case True
    note d = vm_map_done [OF assms, of va pa s']
    have m: "vm_map space va pa flags s = (0, s')" using Pair True by simp
    have "mmu_leaf (mem s') 4 space va' = (if same_page va va' then Some (1, pa OR flags) else mmu_leaf (mem s) 4 space va')" for va'
      using d(3) [OF m] unfolding page_update_def by blast
    then show ?thesis using w Pair True d(2,4) [OF m] by (simp add: mmu_space [OF assms(1,2)] leaf_addr_1 [unfolded One_nat_def])
  next
    case False
    then obtain lv' where "r = -1" and g: "vm_grown lv s lv' s'" using vm_map_refused [OF assms Pair] by blast
    then show ?thesis using w Pair mmu_leaf_grown [OF g assms(2)] by (simp add: mmu_space [OF assms(1,2)])
  qed
qed

theorem vm_map_adds_page_witness:
  "case vm_map 0x1000 VM_HEAP_BASE 0x110000 3 boot_vm of (r, s') \<Rightarrow> r = 0 \<or> r = -1"
  using vm_map_adds_page [OF boot_vm_wf(1,2), of 3 VM_HEAP_BASE "0x110000"]
  by (auto simp: pte_frame_def pte_present_def split: prod.splits if_splits)

text \<open>
  What \<^verbatim>\<open>vm_map\<close> refuses: a null space, unaligned addresses, a frame at or above 1GB and a page in the
  identity-mapped first gigabyte are refused without any change, and a page that is mapped already (by a
  4KB or a large page) is refused, too.
\<close>

lemma vm_map_refuses:
  assumes "space = 0 \<or> va AND 4095 \<noteq> 0 \<or> pa AND 4095 \<noteq> 0 \<or> PMM_MAX_PHYS \<le> pa \<or> va < PMM_MAX_PHYS \<or>
    (vm_wf lv s \<and> lv space = 4 \<and> pte_frame flags = 0 \<and> pte_present flags \<and> mmu (mem s) space va \<noteq> None)"
  shows "fst (vm_map space va pa flags s) = -1 \<and> mmu (mem (snd (vm_map space va pa flags s))) space va = mmu (mem s) space va"
proof (cases "space = 0 \<or> va AND 4095 \<noteq> 0 \<or> pa AND 4095 \<noteq> 0 \<or> PMM_MAX_PHYS \<le> pa \<or> va < PMM_MAX_PHYS")
  case True
  then have "vm_map space va pa flags s = (-1, s)" by (auto simp: vm_map_def VM_PAGE_SIZE_def)
  then show ?thesis by simp
next
  case False
  then have a: "vm_wf lv s" "lv space = 4" "pte_frame flags = 0" "pte_present flags" "mmu (mem s) space va \<noteq> None"
    using assms by simp_all
  obtain r s' where m: "vm_map space va pa flags s = (r, s')" by force
  have "r \<noteq> 0"
  proof
    assume "r = 0"
    then have "mmu_leaf (mem s) 4 space va = None" using vm_map_done(2) [OF a(1-4)] m by simp
    then show False using a(5) by (simp add: mmu_space [OF a(1,2)])
  qed
  then obtain lv' where "r = -1" and g: "vm_grown lv s lv' s'" using vm_map_refused [OF a(1-4) m] by blast
  then show ?thesis using m mmu_leaf_grown [OF g a(2)] by (simp add: mmu_space [OF a(1,2)])
qed

lemma boot_heap_unmapped:
  "mmu_leaf boot_mem 4 0x1000 VM_HEAP_BASE = None" "pml4_ok boot_mem 0x1000 VM_HEAP_BASE"
  "mmu_leaf boot_mem 4 0x1000 0xFFFF800000000000 = None" "pml4_ok boot_mem 0x1000 0xFFFF800000000000"
proof -
  have i: "pt_index 4 0xFFFF800000000000 = 256" by (simp add: pt_index_def)
  have "rd64 boot_mem (slot 0x1000 256) = 0" using boot_mem_slot [of "0x1000" 256] by simp
  then show "mmu_leaf boot_mem 4 0x1000 0xFFFF800000000000 = None" "pml4_ok boot_mem 0x1000 0xFFFF800000000000"
    "mmu_leaf boot_mem 4 0x1000 VM_HEAP_BASE = None" "pml4_ok boot_mem 0x1000 VM_HEAP_BASE"
    using i by (simp_all add: eval_nat_numeral pml4_ok_def pte_present_def VM_HEAP_BASE_def)
qed

lemma demo_pmm_many: "4 \<le> card (pmm_avail demo_pmm)"
  using demo_pmm_card by simp

text \<open>
  \<^verbatim>\<open>vm_map\<close> does not fail without reason: valid arguments, an unmapped page and three available frames (for
  the tables of the three lower levels) make it succeed.
\<close>

lemma vm_map_succeeds_with_frames:
  assumes "vm_wf lv s" and "lv space = 4" and "pte_frame flags = 0" and "pte_present flags"
    and "mmu_leaf (mem s) 4 space va = None" and "pml4_ok (mem s) space va" and "3 \<le> card (pmm_avail (pmm s))"
    and "va AND 4095 = 0" and "pa AND 4095 = 0" and "pa < PMM_MAX_PHYS" and "PMM_MAX_PHYS \<le> va"
  shows "fst (vm_map space va pa flags s) = 0"
  using assms by (rule vm_map_succeeds)

text \<open>
  (C20) \<^verbatim>\<open>vm_unmap\<close>: a 4KB page is removed, its frame address is returned and no other page of the space changes;
  a page that is absent or part of a large page gives 0 and no change at all.
\<close>

theorem vm_unmap_removes_page:
  assumes "vm_wf lv s" and "lv space = 4"
  shows "case mmu_leaf (mem s) 4 space va of
      Some (k, e) \<Rightarrow>
        if k = 1 then (\<exists>s'. vm_unmap space va s = (pte_frame e, s') \<and> vm_wf lv s' \<and>
          (\<forall>va'. mmu (mem s') space va' = (if same_page va va' then None else mmu (mem s) space va')))
        else vm_unmap space va s = (0, s)
    | None \<Rightarrow> vm_unmap space va s = (0, s)"
proof (cases "mmu_leaf (mem s) 4 space va")
  case None
  then show ?thesis using vm_unmap_absent [OF assms] by simp
next
  case (Some ke)
  obtain k e where ke: "ke = (k, e)" by force
  show ?thesis
  proof (cases "k = 1")
    case True
    obtain s' where s': "vm_unmap space va s = (pte_frame e, s')" "vm_wf lv s'" "page_update lv space va None s s'"
      using vm_unmap_done [OF assms] Some ke True by blast
    have "mmu_leaf (mem s') 4 space va' = (if same_page va va' then None else mmu_leaf (mem s) 4 space va')" for va'
      using s'(3) unfolding page_update_def by blast
    then show ?thesis using s' Some ke True by (simp add: mmu_space [OF assms])
  next
    case False
    then show ?thesis using vm_unmap_absent [OF assms] Some ke by simp
  qed
qed

theorem vm_unmap_removes_page_witness: "vm_unmap 0x1000 VM_HEAP_BASE boot_vm = (0, boot_vm)"
  using vm_unmap_removes_page [OF boot_vm_wf(1,2), of VM_HEAP_BASE] boot_heap_unmapped(1) by simp

text \<open>
  (C36) Mapping and unmapping are inverse, through the page-map interface: after a successful \<^verbatim>\<open>vm_map\<close> of a page,
  mapping it again fails, and \<^verbatim>\<open>vm_unmap\<close> returns the frame and restores every translation of the space.
\<close>

theorem vm_map_unmap_roundtrip:
  assumes "vm_ok space s" and "vm_map space va pa (VM_PTE_PRESENT OR VM_PTE_WRITE) s = (0, s1)"
  shows "fst (vm_map space va pa' (VM_PTE_PRESENT OR VM_PTE_WRITE) s1) \<noteq> 0 \<and>
    (\<exists>s2. vm_unmap space va s1 = (pa, s2) \<and> mmu_leaf (mem s2) 4 space = mmu_leaf (mem s) 4 space \<and> vm_ok space s2)"
  using vm.double_map [OF assms vm.same_page_refl] vm.map_unmap [OF assms] by blast

theorem vm_map_unmap_roundtrip_witness:
  "fst (vm_unmap 0x1000 VM_HEAP_BASE (snd (vm_map 0x1000 VM_HEAP_BASE 0x110000 (VM_PTE_PRESENT OR VM_PTE_WRITE) boot_vm))) = 0x110000"
proof -
  let ?m = "vm_map 0x1000 VM_HEAP_BASE 0x110000 (VM_PTE_PRESENT OR VM_PTE_WRITE) boot_vm"
  have "fst ?m = 0"
    using demo_pmm_many boot_heap_unmapped(1,2) rw_flags
    by (intro vm_map_succeeds [OF boot_vm_wf(1,2)])
      (simp_all add: VM_HEAP_BASE_def PMM_MAX_PHYS_def pte_frame_def pte_present_def)
  then have "?m = (0, snd ?m)" by (metis prod.collapse)
  moreover have "vm_ok 0x1000 boot_vm" using boot_vm_wf unfolding vm_ok_def by blast
  ultimately show ?thesis using vm_map_unmap_roundtrip by fastforce
qed

text \<open>
  (C19) Isolation of address spaces: mapping or unmapping a page in one space changes no translation of another
  space, unless the page lies under a root entry that the kernel shares (entry 0 or 256 to 511); and
  there the other space either keeps its translation or gets the very one of the changed space.
\<close>

theorem vm_spaces_isolated:
  assumes "vm_wf lv s" and "lv space = 4" and "lv other = 4" and "other \<noteq> space"
    and "pte_frame flags = 0" and "pte_present flags"
    and "s' = snd (vm_map space va pa flags s) \<or> s' = snd (vm_unmap space va s)"
  shows "mmu_leaf (mem s') 4 other va' = mmu_leaf (mem s) 4 other va' \<or>
    same_page va va' \<and> shared_ix (pt_index 4 va) \<and> mmu_leaf (mem s') 4 other va' = mmu_leaf (mem s') 4 space va'"
proof -
  have upd: "?thesis" if "page_update lv space va new s s'" for new
    using that assms(3,4) unfolding page_update_def by metis
  from assms(7) show ?thesis
  proof
    assume m: "s' = snd (vm_map space va pa flags s)"
    obtain r where r: "vm_map space va pa flags s = (r, s')" using m by (metis prod.collapse)
    show ?thesis
    proof (cases "r = 0")
      case True
      then have "vm_map space va pa flags s = (0, s')" using r by simp
      then show ?thesis by (rule upd [OF vm_map_done(3) [OF assms(1,2,5,6)]])
    next
      case False
      then show ?thesis using vm_map_refused [OF assms(1,2,5,6) r] mmu_leaf_grown assms(3) by metis
    qed
  next
    assume u: "s' = snd (vm_unmap space va s)"
    show ?thesis
    proof (cases "\<exists>e. mmu_leaf (mem s) 4 space va = Some (1, e)")
      case True
      then show ?thesis using upd vm_unmap_done [OF assms(1,2)] u by fastforce
    next
      case False
      then show ?thesis using vm_unmap_absent [OF assms(1,2), of va] u by simp
    qed
  qed
qed

theorem vm_spaces_isolated_witness:
  "case vm_create_space boot_vm of (pa, s1) \<Rightarrow>
     mmu_leaf (mem (snd (vm_map pa 0x400000000000 0x110000 3 s1))) 4 0x1000 0x400000000000 =
     mmu_leaf (mem s1) 4 0x1000 0x400000000000"
proof (cases "vm_create_space boot_vm")
  case (Pair pa s1)
  have w: "vm_wf (boot_lv(pa := 4)) s1" "boot_lv pa = 0"
    using vm_create_space_spec [OF boot_vm_wf(1) _ Pair] boot_vm_wf(2) demo_pmm_nonempty by auto
  then have "pa \<noteq> 0x1000" using boot_vm_wf(2) by auto
  moreover have "\<not> shared_ix (pt_index 4 0x400000000000)" by (simp add: pt_index_def shared_ix_def)
  ultimately show ?thesis
    using vm_spaces_isolated [OF w(1), of pa "0x1000" 3 _ "0x400000000000" "0x110000" "0x400000000000"] boot_vm_wf(2) Pair
    by (simp add: pte_frame_def pte_present_def)
qed

text \<open>
  (C8) The translation buffer never becomes stale: if it is coherent with the tables of CR3, it is coherent after
  \<^verbatim>\<open>vm_map\<close> and \<^verbatim>\<open>vm_unmap\<close> on any space (their \<^verbatim>\<open>invlpg\<close> suffices, also for shared tables) and after \<^verbatim>\<open>vm_switch\<close>.
\<close>

theorem vm_tlb_stays_coherent:
  assumes "vm_wf lv s" and "lv space = 4" and "lv (pte_frame (cr3 s)) = 4" and "tlb_ok s"
    and "pte_frame flags = 0" and "pte_present flags" and "canonical va"
  shows "tlb_ok (snd (vm_map space va pa flags s)) \<and> tlb_ok (snd (vm_unmap space va s)) \<and> tlb_ok (vm_switch space s)"
proof -
  have "tlb_ok (vm_switch space s)" using assms(4) by (simp add: vm_switch_def write_cr3_def tlb_ok_def)
  then show ?thesis using vm_map_tlb [OF assms(1-3,5,6,4)] vm_unmap_tlb [OF assms(1-3,7,4)] by blast
qed

theorem vm_tlb_stays_coherent_witness: "tlb_ok (snd (vm_unmap 0x1000 VM_HEAP_BASE boot_vm))"
proof -
  have "tlb_ok boot_vm" by (simp add: tlb_ok_def)
  moreover have "canonical VM_HEAP_BASE"
    by (rule heap_page_guards(3)) (simp add: heap_addr_def VM_HEAP_BASE_def VM_HEAP_SIZE_def)
  ultimately show ?thesis
    using vm_tlb_stays_coherent [OF boot_vm_wf(1,2), of 3 VM_HEAP_BASE] boot_vm_wf(3)
    by (simp add: pte_frame_def pte_present_def)
qed

text \<open>
  (C21) A new address space: \<^verbatim>\<open>vm_create_space\<close> returns 0 only when no frame is left; otherwise the new root shares
  the kernel's translations under entries 0 and 256 to 511 and maps nothing else, all existing spaces
  translate as before, and the tables stay well formed with one more root.
\<close>

theorem vm_create_space_shares_kernel:
  assumes "vm_wf lv s" and "lv (vm_kernel_space_ptr s) = 4"
  shows "case vm_create_space s of (pa, s') \<Rightarrow>
    if pa = 0 then pmm_avail (pmm s) = {} \<and> s' = s
    else vm_wf (lv(pa := 4)) s' \<and> lv pa = 0 \<and>
      (\<forall>va. mmu_leaf (mem s') 4 pa va =
         (if shared_ix (pt_index 4 va) then mmu_leaf (mem s) 4 (vm_kernel_space_ptr s) va else None)) \<and>
      (\<forall>t va. lv t = 4 \<longrightarrow> mmu_leaf (mem s') 4 t va = mmu_leaf (mem s) 4 t va)"
proof (cases "vm_create_space s")
  case (Pair pa s')
  have inv: "pmm_inv (pmm s)" and w: "wf_tables lv (mem s) (pmm_avail (pmm s))" using assms(1) by (simp_all add: vm_wf_def)
  show ?thesis
  proof (cases "pa = 0 \<and> s' = s \<and> pmm_avail (pmm s) = {}")
    case True
    then show ?thesis using Pair by simp
  next
    case False
    then have n: "pa \<in> pmm_avail (pmm s)" "vm_wf (lv(pa := 4)) s'" "lv pa = 0"
      "mem s' = space_mem pa (vm_kernel_space_ptr s) (mem s)"
      using vm_create_space_spec [OF assms Pair] by auto
    have f: "is_frame pa" by (rule pmm.avail_frames [OF inv n(1)])
    have "mmu_leaf (mem s') 4 t va = mmu_leaf (mem s) 4 t va" if "lv t = 4" for t va
      using space_mmu(1) [OF w assms(2) n(1) f, of t va] that n(4) by simp
    then show ?thesis
      using Pair n f space_mmu(2) [OF w assms(2) n(1) f] by (simp add: is_frame_def)
  qed
qed

theorem vm_create_space_shares_kernel_witness:
  "case vm_create_space boot_vm of (pa, s') \<Rightarrow> pa \<noteq> 0 \<and> mmu_leaf (mem s') 4 pa 0x400000000000 = None"
proof -
  have "\<not> shared_ix (pt_index 4 0x400000000000)" by (simp add: pt_index_def shared_ix_def)
  then show ?thesis
    using vm_create_space_shares_kernel [OF boot_vm_wf(1)] boot_vm_wf(2) demo_pmm_nonempty
    by (auto split: prod.splits if_splits)
qed

text \<open>
  The page-fault handler on faults it must leave alone: while it is active itself, for protection faults,
  reserved-bit faults, instruction fetches and addresses outside the heap it returns 0 and changes
  nothing, so the exception path prints and halts.
\<close>

lemma vm_fault_out_of_scope:
  assumes "vm_in_fault s \<or> error_code r AND 1 \<noteq> 0 \<or> error_code r AND 8 \<noteq> 0 \<or> error_code r AND 16 \<noteq> 0 \<or>
    cr2 s < VM_HEAP_BASE \<or> VM_HEAP_BASE + VM_HEAP_SIZE \<le> cr2 s"
  shows "vm_handle_page_fault r s = (0, s)"
  using assms by (intro out_of_scope) (auto simp: fault_in_scope_def heap_addr_def)

definition demo_regs :: "u64 \<Rightarrow> u64 \<Rightarrow> regs_t" where
  "demo_regs v e = \<lparr>r15 = 0, r14 = 0, r13 = 0, r12 = 0, r11 = 0, r10 = 0, r9 = 0, r8 = 0, rbp = 0, rdi = 0, rsi = 0,
     rdx = 0, rcx = 0, rbx = 0, rax = 0, vector = v, error_code = e, rip = 0, seg_cs = 8, rflags = 2\<rparr>"

lemma table_bytes_zero:
  assumes "lv' fr = 0" "is_frame fr" "tables_only lv s lv' s'" "i < 512"
  shows "rd64 (mem s') (slot fr i) = rd64 (mem s) (slot fr i)"
proof (rule rd64_cong)
  fix k :: u64 assume k: "k < 8"
  have al: "fr AND 4095 = 0" using assms(2) by (simp add: is_frame_def)
  have "unat (8 * i + k) = 8 * unat i + unat k"
    using assms(4) k by (simp add: unat_word_ariths word_less_nat_alt)
  then have "(slot fr i + k) - fr < 4096"
    using assms(4) k by (simp add: slot_def word_less_nat_alt)
  then have "(slot fr i + k) AND NOT 4095 = fr" using page_of_iff [OF al] by blast
  then show "mem s' (slot fr i + k) = mem s (slot fr i + k)"
    using assms(1,3) unfolding tables_only_def by metis
qed

text \<open>
  Demand paging: a fault in scope on an unmapped heap page, with four frames available, is repaired.  The
  handler returns 1 and the faulting page is mapped to a frame that was available and is cleared; the frames that
  became page tables were available too, and no other byte of memory changes.
\<close>

text \<open>The mapping of the new frame in the handler goes through: four frames are enough for it.\<close>

lemma fault_map_runs:
  fixes s :: "'a vm_sys_scheme"
  defines "root \<equiv> pte_frame (cr3 s)" and "page \<equiv> cr2 s AND NOT 4095"
  assumes wf: "vm_wf lv s" and r4: "lv root = 4" and hp: "heap_addr (cr2 s)" and a: "pmm_alloc_frame (pmm s) = (fr, p)"
    and un: "mmu_leaf (mem s) 4 root page = None" and p4: "pml4_ok (mem s) root page" and av: "4 \<le> card (pmm_avail (pmm s))"
  obtains m1 p1 where "fr \<noteq> 0" "vm_map root page fr 3 (fault_frame fr p s) =
    (0, (fault_frame fr p s)\<lparr>mem := m1, pmm := p1, tlb := (tlb (fault_frame fr p s))(page := None)\<rparr>)"
proof -
  note hg = heap_page_guards [OF hp, folded page_def]
  have inv: "pmm_inv (pmm s)" using wf by (simp add: vm_wf_def)
  have "pmm_avail (pmm s) \<noteq> {}" using av by auto
  then have nz: "fr \<noteq> 0" using pmm.alloc_zero_iff [OF inv] a by simp
  note F = fault_frame_wf [OF wf a nz]
  let ?s3 = "fault_frame fr p s"
  have rt: "root AND 4095 = 0" "root \<noteq> fr" using F(3) r4 by (auto simp: root_def)
  have "rd64 (mem ?s3) (slot root (pt_index 4 page)) = rd64 (mem s) (slot root (pt_index 4 page))"
    using rt F(2) by (simp add: fault_frame_def rd_zero_table is_frame_def)
  then have p43: "pml4_ok (mem ?s3) root page" using p4 by (simp add: pml4_ok_def)
  have none: "mmu_leaf (mem ?s3) 4 root page = None" using F(6) [of root page] r4 un by simp
  have av3: "3 \<le> card (pmm_avail (pmm ?s3))" using av F(4,5,8) by (simp add: card_Diff_singleton)
  have fr: "fr AND 4095 = 0" "fr < PMM_MAX_PHYS" using F(2) by (simp_all add: is_frame_def)
  have fl: "pte_frame 3 = 0" "pte_present 3" by (simp_all add: pte_frame_def pte_present_def)
  have "fst (vm_map root page fr 3 ?s3) = 0"
    by (rule vm_map_succeeds [OF F(1) r4 fl none p43 av3 hg(2) fr hg(1)])
  then obtain s4 where m: "vm_map root page fr 3 ?s3 = (0, s4)" by (metis prod.collapse)
  then show thesis using that [OF nz] vm_map_done(7) [OF F(1) r4 fl m] by blast
qed

lemma vm_fault_repair:
  assumes wf: "vm_wf lv s" and r4: "lv (pte_frame (cr3 s)) = 4" and sc: "fault_in_scope r s"
    and un: "mmu_leaf (mem s) 4 (pte_frame (cr3 s)) (cr2 s AND NOT 4095) = None"
    and p4: "pml4_ok (mem s) (pte_frame (cr3 s)) (cr2 s AND NOT 4095)" and av: "4 \<le> card (pmm_avail (pmm s))"
  obtains fr lv' m p t where
    "vm_handle_page_fault r s = (1, s\<lparr>mem := m, pmm := p, tlb := t, vm_faults := vm_faults s + 1\<rparr>)"
    "fr \<in> pmm_avail (pmm s)" "is_frame fr" "fr \<notin> pmm_avail p" "pmm_avail p \<subseteq> pmm_avail (pmm s)" "lv' fr = 0" "pte_frame (fr OR 3) = fr"
    "vm_wf lv' (s\<lparr>mem := m, pmm := p\<rparr>)" "\<forall>t. 0 < lv t \<longrightarrow> lv' t = lv t" "\<forall>t. 0 < lv' t \<longrightarrow> 0 < lv t \<or> t \<in> pmm_avail (pmm s)"
    "\<forall>va. mmu_leaf m 4 (pte_frame (cr3 s)) va =
       (if same_page (cr2 s) va then Some (1, fr OR 3) else mmu_leaf (mem s) 4 (pte_frame (cr3 s)) va)"
    "\<forall>x. lv' (x AND NOT 4095) = 0 \<longrightarrow> m x = zero_table fr (mem s) x" "\<forall>i < 512. rd64 m (slot fr i) = 0"
    "card (pmm_avail (pmm s)) \<le> card (pmm_avail p) + 4" "pmm_static p = pmm_static (pmm s)" "t = (tlb s)(cr2 s AND NOT 4095 := None)"
proof -
  let ?root = "pte_frame (cr3 s)" and ?page = "cr2 s AND NOT 4095"
  have hp: "heap_addr (cr2 s)" using sc by (simp add: fault_in_scope_def)
  note hg = heap_page_guards [OF hp]
  have sp: "same_page (cr2 s) ?page" using page_of_page [OF hg(3)] by blast
  obtain fr p where a: "pmm_alloc_frame (pmm s) = (fr, p)" by force
  let ?s3 = "fault_frame fr p s"
  obtain m1 p1 where nz: "fr \<noteq> 0" and m: "vm_map ?root ?page fr 3 ?s3 = (0, ?s3\<lparr>mem := m1, pmm := p1, tlb := (tlb ?s3)(?page := None)\<rparr>)"
    by (rule fault_map_runs [OF wf r4 hp a un p4 av])
  define s4 where "s4 = ?s3\<lparr>mem := m1, pmm := p1, tlb := (tlb ?s3)(?page := None)\<rparr>"
  note s4 = s4_def and m = m [folded s4_def] and F = fault_frame_wf [OF wf a nz]
  have fl: "pte_frame 3 = 0" "pte_present 3" by (simp_all add: pte_frame_def pte_present_def)
  note d = vm_map_done [OF F(1) r4 fl m]
  obtain lv' where lv': "vm_wf lv' s4" "tables_only lv ?s3 lv' s4" using d(1) by blast
  have fr0: "lv' fr = 0" using lv'(2) F(3,5,8) unfolding tables_only_def by (metis Diff_iff gr0I singletonI)
  have zero: "\<forall>i < 512. rd64 m1 (slot fr i) = 0"
    using table_bytes_zero [OF fr0 F(2) lv'(2)] F(9) by (simp add: s4)
  have out: "\<not> vm_in_fault s" using sc by (simp add: fault_in_scope_def)
  have "s\<lparr>vm_in_fault := False\<rparr> = s" using out by simp
  then have fin: "s4\<lparr>vm_faults := vm_faults s4 + 1, vm_in_fault := False\<rparr> =
      s\<lparr>mem := m1, pmm := p1, tlb := (tlb s)(?page := None), vm_faults := vm_faults s + 1\<rparr>"
    using out by (simp add: s4 fault_frame_def)
  have h: "vm_handle_page_fault r s = (1, s\<lparr>mem := m1, pmm := p1, tlb := (tlb s)(?page := None), vm_faults := vm_faults s + 1\<rparr>)"
    using handle_fault_step [OF sc a] nz m fin by simp
  have pages: "same_page ?page va = same_page (cr2 s) va" for va using sp by (simp add: same_page_def)
  have leaf: "\<forall>va. mmu_leaf m1 4 ?root va = (if same_page (cr2 s) va then Some (1, fr OR 3) else mmu_leaf (mem s) 4 ?root va)"
    using d(3) F(6) [of ?root] r4 unfolding page_update_def pages by (simp add: s4)
  have wf1: "vm_wf lv' (s\<lparr>mem := m1, pmm := p1\<rparr>)" using lv'(1) by (simp add: vm_wf_def s4)
  have tab: "\<forall>t. 0 < lv t \<longrightarrow> lv' t = lv t" "\<forall>t. 0 < lv' t \<longrightarrow> 0 < lv t \<or> t \<in> pmm_avail (pmm s)"
    "\<forall>x. lv' (x AND NOT 4095) = 0 \<longrightarrow> m1 x = zero_table fr (mem s) x"
    using lv'(2) F(5,8) by (auto simp: tables_only_def s4 fault_frame_def)
  have av1: "fr \<notin> pmm_avail p1" "pmm_avail p1 \<subseteq> pmm_avail (pmm s)" using d(8) F(5,8) by (auto simp: s4)
  have "card (pmm_avail (pmm ?s3)) \<le> card (pmm_avail p1) + 3" using vm_map_cost [of ?s3 ?root ?page fr 3] F(8,11) m by (simp add: s4)
  then have cost: "card (pmm_avail (pmm s)) \<le> card (pmm_avail p1) + 4" using F(4,5,8) by (simp add: card_Diff_singleton)
  have "pmm_static p1 = pmm_static (pmm s)"
    using vm_map_static [of ?root ?page fr 3 ?s3] pmm_static_alloc [OF a] F(8) m by (simp add: s4)
  then show thesis by (rule that [OF h F(4,2) av1 fr0 d(4) wf1 tab(1,2) leaf tab(3) zero cost _ refl])
qed

text \<open>The repair leaves a coherent translation buffer coherent: the page it maps was not mapped before.\<close>

lemma vm_fault_tlb:
  assumes wf: "vm_wf lv s" "lv (pte_frame (cr3 s)) = 4" "fault_in_scope r s"
    and un: "mmu_leaf (mem s) 4 (pte_frame (cr3 s)) (cr2 s AND NOT 4095) = None"
    and room: "pml4_ok (mem s) (pte_frame (cr3 s)) (cr2 s AND NOT 4095)" "4 \<le> card (pmm_avail (pmm s))"
    and ok: "tlb_ok s"
  shows "tlb_ok (snd (vm_handle_page_fault r s))"
proof -
  obtain fr m p t where h: "vm_handle_page_fault r s = (1, s\<lparr>mem := m, pmm := p, tlb := t, vm_faults := vm_faults s + 1\<rparr>)"
    and l: "\<forall>va. mmu_leaf m 4 (pte_frame (cr3 s)) va =
       (if same_page (cr2 s) va then Some (1, fr OR 3) else mmu_leaf (mem s) 4 (pte_frame (cr3 s)) va)"
    and t: "t = (tlb s)(cr2 s AND NOT 4095 := None)"
    by (rule vm_fault_repair [OF wf un room]) blast
  have "heap_addr (cr2 s)" using wf(3) by (simp add: fault_in_scope_def)
  then have sp: "same_page (cr2 s) (cr2 s AND NOT 4095)" using page_of_page heap_page_guards(3) by blast
  have "mmu_leaf (mem s) 4 (pte_frame (cr3 s)) page = None" if "same_page (cr2 s) page" for page
    using mmu_leaf_same_page [OF that] mmu_leaf_same_page [OF sp] un by metis
  then show ?thesis unfolding h snd_conv
    by (intro tlb_ok_leaf [OF ok]) (auto simp: l t split: if_splits)
qed

lemma boot_vm_fault:
  "boot_lv (pte_frame (cr3 boot_vm)) = 4" "mmu_leaf (mem boot_vm) 4 (pte_frame (cr3 boot_vm)) (cr2 boot_vm AND NOT 4095) = None"
  "pml4_ok (mem boot_vm) (pte_frame (cr3 boot_vm)) (cr2 boot_vm AND NOT 4095)" "4 \<le> card (pmm_avail (pmm boot_vm))"
proof -
  have "cr2 boot_vm AND NOT 4095 = 0xFFFF800000000000" "pte_frame (cr3 boot_vm) = 0x1000"
    by (simp_all add: pte_frame_def)
  then show "boot_lv (pte_frame (cr3 boot_vm)) = 4"
    "mmu_leaf (mem boot_vm) 4 (pte_frame (cr3 boot_vm)) (cr2 boot_vm AND NOT 4095) = None"
    "pml4_ok (mem boot_vm) (pte_frame (cr3 boot_vm)) (cr2 boot_vm AND NOT 4095)" "4 \<le> card (pmm_avail (pmm boot_vm))"
    using boot_vm_wf(2) boot_heap_unmapped(3,4) demo_pmm_many by simp_all
qed

end
