(* ===== verification/Pic.thy ===== *)
theory Pic
  imports IO_Ports
begin

text \<open>
  The driver of the two 8259A interrupt controllers (\<^verbatim>\<open>src/src/pic.c\<close>, \<^verbatim>\<open>src/src/pic.h\<close>).  The driver only talks to ports,
  so its effect is a history of port accesses.  \<^verbatim>\<open>chip_of\<close> reads such a history the way the comments of
  \<^verbatim>\<open>pic.c\<close> (lines 12 to 40) describe the chip: a byte with bit 4 set on the command port starts an initialisation,
  the next three bytes on the data port are ICW2, ICW3 and ICW4, and every later byte there is the interrupt mask.
  The driver is measured against this reading.
\<close>

definition PIC1_CMD :: u16 where "PIC1_CMD = 0x20"
definition PIC1_DATA :: u16 where "PIC1_DATA = 0x21"
definition PIC2_CMD :: u16 where "PIC2_CMD = 0xA0"
definition PIC2_DATA :: u16 where "PIC2_DATA = 0xA1"
definition PIC_EOI :: u8 where "PIC_EOI = 0x20"
definition PIC_ICW1_INIT :: u8 where "PIC_ICW1_INIT = 0x11"
definition PIC_ICW2_MASTER :: u8 where "PIC_ICW2_MASTER = 0x20"
definition PIC_ICW2_SLAVE :: u8 where "PIC_ICW2_SLAVE = 0x28"
definition PIC_ICW3_MASTER :: u8 where "PIC_ICW3_MASTER = 0x04"
definition PIC_ICW3_SLAVE :: u8 where "PIC_ICW3_SLAVE = 0x02"
definition PIC_ICW4_8086 :: u8 where "PIC_ICW4_8086 = 0x01"
definition PIC_MASK_ALL :: u8 where "PIC_MASK_ALL = 0xFF"

lemmas pic_consts = PIC1_CMD_def PIC1_DATA_def PIC2_CMD_def PIC2_DATA_def PIC_EOI_def PIC_ICW1_INIT_def PIC_ICW2_MASTER_def
  PIC_ICW2_SLAVE_def PIC_ICW3_MASTER_def PIC_ICW3_SLAVE_def PIC_ICW4_8086_def PIC_MASK_ALL_def

definition pic_init :: "'a bus_scheme \<Rightarrow> 'a bus_scheme" where
  "pic_init s =
     (let s = outb PIC1_CMD PIC_ICW1_INIT s;
          s = outb PIC2_CMD PIC_ICW1_INIT s;
          s = outb PIC1_DATA PIC_ICW2_MASTER s;
          s = outb PIC2_DATA PIC_ICW2_SLAVE s;
          s = outb PIC1_DATA PIC_ICW3_MASTER s;
          s = outb PIC2_DATA PIC_ICW3_SLAVE s;
          s = outb PIC1_DATA PIC_ICW4_8086 s;
          s = outb PIC2_DATA PIC_ICW4_8086 s;
          s = outb PIC1_DATA PIC_MASK_ALL s
      in outb PIC2_DATA PIC_MASK_ALL s)"

definition pic_update_mask :: "device \<Rightarrow> u8 \<Rightarrow> bool \<Rightarrow> 'a bus_scheme \<Rightarrow> 'a bus_scheme" where
  "pic_update_mask dev irq masked s =
     (if irq \<ge> 16 then s
      else
        (let port = (if irq < 8 then PIC1_DATA else PIC2_DATA);
             bit1 = push_bit (unat (irq AND 7)) 1;
             (old, s1) = inb dev port s
         in outb port (if masked then old OR bit1 else old AND NOT bit1) s1))"

definition pic_mask :: "device \<Rightarrow> u8 \<Rightarrow> 'a bus_scheme \<Rightarrow> 'a bus_scheme" where
  "pic_mask dev irq s = pic_update_mask dev irq True s"

definition pic_unmask :: "device \<Rightarrow> u8 \<Rightarrow> 'a bus_scheme \<Rightarrow> 'a bus_scheme" where
  "pic_unmask dev irq s =
     (let s1 = (if irq \<ge> 8 \<and> irq < 16 then pic_update_mask dev 2 False s else s)
      in pic_update_mask dev irq False s1)"

definition pic_send_eoi :: "u8 \<Rightarrow> 'a bus_scheme \<Rightarrow> 'a bus_scheme" where
  "pic_send_eoi irq s =
     (if irq \<ge> 16 then s
      else
        (let s1 = (if irq \<ge> 8 then outb PIC2_CMD PIC_EOI s else s)
         in outb PIC1_CMD PIC_EOI s1))"

section \<open>The chips\<close>

text \<open>Which byte the data port expects next; the chip's vector base, cascade byte, mode byte and interrupt mask.\<close>

datatype phase = Want_ICW2 | Want_ICW3 | Want_ICW4 | Running

record chip =
  chip_phase :: phase
  vec_base :: u8
  cascade :: u8
  chip_mode :: u8
  imr :: u8

fun chip_data :: "u8 \<Rightarrow> chip \<Rightarrow> chip" where
  "chip_data v c = (case chip_phase c of
     Want_ICW2 \<Rightarrow> c\<lparr>chip_phase := Want_ICW3, vec_base := v AND 0xF8\<rparr>
   | Want_ICW3 \<Rightarrow> c\<lparr>chip_phase := Want_ICW4, cascade := v\<rparr>
   | Want_ICW4 \<Rightarrow> c\<lparr>chip_phase := Running, chip_mode := v\<rparr>
   | Running \<Rightarrow> c\<lparr>imr := v\<rparr>)"

definition chip_cmd :: "u8 \<Rightarrow> chip \<Rightarrow> chip" where
  "chip_cmd v c = (if bit v 4 then c\<lparr>chip_phase := Want_ICW2, imr := 0\<rparr> else c)"

text \<open>The chip behind a pair of ports after a history (newest access first), from the state \<^verbatim>\<open>c0\<close> at power-on.\<close>

fun chip_of :: "chip \<Rightarrow> u16 \<Rightarrow> u16 \<Rightarrow> io_event list \<Rightarrow> chip" where
  "chip_of c0 cmd data [] = c0"
| "chip_of c0 cmd data (In q v # tr) = chip_of c0 cmd data tr"
| "chip_of c0 cmd data (Out q v # tr) =
     (if q = cmd then chip_cmd v (chip_of c0 cmd data tr)
      else if q = data then chip_data v (chip_of c0 cmd data tr)
      else chip_of c0 cmd data tr)"

definition master :: "chip \<Rightarrow> 'a bus_scheme \<Rightarrow> chip" where
  "master c0 s = chip_of c0 PIC1_CMD PIC1_DATA (io_trace s)"

definition slave :: "chip \<Rightarrow> 'a bus_scheme \<Rightarrow> chip" where
  "slave c0 s = chip_of c0 PIC2_CMD PIC2_DATA (io_trace s)"

text \<open>The lines that reach the processor, and the vector a line raises.\<close>

definition line_open :: "chip \<times> chip \<Rightarrow> nat \<Rightarrow> bool" where
  "line_open ms n \<longleftrightarrow>
     (if n < 8 then \<not> bit (imr (fst ms)) n
      else n < 16 \<and> \<not> bit (imr (fst ms)) 2 \<and> \<not> bit (imr (snd ms)) (n - 8))"

definition line_vector :: "chip \<times> chip \<Rightarrow> nat \<Rightarrow> nat" where
  "line_vector ms n = (if n < 8 then unat (vec_base (fst ms)) + n else unat (vec_base (snd ms)) + (n - 8))"

definition pic_pair :: "chip \<times> chip \<Rightarrow> 'a bus_scheme \<Rightarrow> chip \<times> chip" where
  "pic_pair c0 s = (master (fst c0) s, slave (snd c0) s)"

text \<open>
  Reading the data port of a running 8259A returns its interrupt mask: what \<^verbatim>\<open>pic_update_mask\<close> relies on.
\<close>

definition imr_readable :: "device \<Rightarrow> chip \<times> chip \<Rightarrow> bool" where
  "imr_readable dev c0 \<longleftrightarrow>
     (\<forall>tr. (chip_phase (chip_of (fst c0) PIC1_CMD PIC1_DATA tr) = Running \<longrightarrow>
              dev tr PIC1_DATA = imr (chip_of (fst c0) PIC1_CMD PIC1_DATA tr)) \<and>
           (chip_phase (chip_of (snd c0) PIC2_CMD PIC2_DATA tr) = Running \<longrightarrow>
              dev tr PIC2_DATA = imr (chip_of (snd c0) PIC2_CMD PIC2_DATA tr)))"

definition running :: "chip \<times> chip \<Rightarrow> bool" where
  "running ms \<longleftrightarrow> chip_phase (fst ms) = Running \<and> chip_phase (snd ms) = Running"

lemma pic_init_pair:
  "pic_pair c0 (pic_init s) =
     (\<lparr>chip_phase = Running, vec_base = 0x20, cascade = 4, chip_mode = 1, imr = 0xFF\<rparr>,
      \<lparr>chip_phase = Running, vec_base = 0x28, cascade = 2, chip_mode = 1, imr = 0xFF\<rparr>)"
  by (simp add: pic_pair_def master_def slave_def pic_init_def Let_def pic_consts chip_cmd_def)

section \<open>Masking\<close>

text \<open>Whether a line is masked at its own chip.\<close>

definition masked_at :: "chip \<times> chip \<Rightarrow> nat \<Rightarrow> bool" where
  "masked_at ms n \<longleftrightarrow> (if n < 8 then bit (imr (fst ms)) n else bit (imr (snd ms)) (n - 8))"

lemma line_open_masked: "n < 16 \<Longrightarrow> line_open ms n \<longleftrightarrow> \<not> masked_at ms n \<and> (n < 8 \<or> \<not> masked_at ms 2)"
  by (auto simp: line_open_def masked_at_def)

lemma line_cases: "(irq :: u8) < 8 \<longleftrightarrow> unat irq < 8" "irq < 16 \<longleftrightarrow> unat irq < 16"
  by (simp_all add: word_less_nat_alt)

lemma irq_low: "unat (irq AND 7 :: u8) = (if unat irq < 8 then unat irq else if unat irq < 16 then unat irq - 8 else unat irq mod 8)"
proof -
  have "(7 :: u8) = mask 3" by (simp add: mask_numeral)
  then have "unat (irq AND 7) = unat irq mod 8" using and_mask_nat [of irq 3] by simp
  then show ?thesis using le_mod_geq [of 8 "unat irq"] by auto
qed

definition set_line :: "bool \<Rightarrow> nat \<Rightarrow> chip \<Rightarrow> chip" where
  "set_line masked k c = c\<lparr>imr := (if masked then imr c OR push_bit k 1 else imr c AND NOT (push_bit k 1))\<rparr>"

lemma pic_update_pair:
  assumes run: "running (pic_pair c0 s)" and dev: "imr_readable dev c0" and irq: "unat irq < 16"
  shows "pic_pair c0 (pic_update_mask dev irq masked s) =
    (if unat irq < 8 then (set_line masked (unat (irq AND 7)) (fst (pic_pair c0 s)), snd (pic_pair c0 s))
     else (fst (pic_pair c0 s), set_line masked (unat (irq AND 7)) (snd (pic_pair c0 s))))"
proof -
  have "dev (io_trace s) PIC1_DATA = imr (fst (pic_pair c0 s))" "dev (io_trace s) PIC2_DATA = imr (snd (pic_pair c0 s))"
    using run dev by (simp_all add: running_def imr_readable_def pic_pair_def master_def slave_def)
  moreover have "PIC1_CMD \<noteq> PIC1_DATA" "PIC2_CMD \<noteq> PIC2_DATA" "PIC1_CMD \<noteq> PIC2_DATA" "PIC2_CMD \<noteq> PIC1_DATA"
    "PIC1_DATA \<noteq> PIC2_DATA" "PIC1_DATA \<noteq> PIC1_CMD" "PIC2_DATA \<noteq> PIC2_CMD" "PIC2_DATA \<noteq> PIC1_CMD"
    "PIC1_DATA \<noteq> PIC2_CMD" by (simp_all add: pic_consts)
  ultimately show ?thesis
    using run irq line_cases [of irq] unfolding pic_update_mask_def set_line_def
    by (auto simp: pic_pair_def master_def slave_def running_def inb_def Let_def not_le)
qed

lemma bit_pow: "bit ((2 :: u8) ^ k) n \<longleftrightarrow> k = n \<and> n < 8"
  by (auto simp: bit_exp_iff)

lemma pic_update_masked:
  assumes run: "running (pic_pair c0 s)" and dev: "imr_readable dev c0" and irq: "unat irq < 16"
  shows "running (pic_pair c0 (pic_update_mask dev irq masked s))"
    "n < 16 \<Longrightarrow> masked_at (pic_pair c0 (pic_update_mask dev irq masked s)) n \<longleftrightarrow>
       (if n = unat irq then masked else masked_at (pic_pair c0 s) n)"
    "line_vector (pic_pair c0 (pic_update_mask dev irq masked s)) n = line_vector (pic_pair c0 s) n"
  using run irq unfolding pic_update_pair [OF assms]
  by (auto simp: set_line_def running_def line_vector_def masked_at_def bit_or_iff bit_and_iff bit_not_iff bit_pow irq_low)

lemma pic_unmask_masked:
  assumes run: "running (pic_pair c0 s)" and dev: "imr_readable dev c0" and irq: "unat irq < 16"
  shows "running (pic_pair c0 (pic_unmask dev irq s))"
    "n < 16 \<Longrightarrow> masked_at (pic_pair c0 (pic_unmask dev irq s)) n \<longleftrightarrow>
       masked_at (pic_pair c0 s) n \<and> n \<noteq> unat irq \<and> \<not> (8 \<le> unat irq \<and> n = 2)"
    "line_vector (pic_pair c0 (pic_unmask dev irq s)) n = line_vector (pic_pair c0 s) n"
proof -
  let ?s1 = "if irq \<ge> 8 \<and> irq < 16 then pic_update_mask dev 2 False s else s"
  have c: "(irq \<ge> 8 \<and> irq < 16) = (8 \<le> unat irq)" using irq by (auto simp: word_less_nat_alt word_le_nat_alt)
  note u = pic_update_masked [OF run dev, where irq = 2 and masked = False]
  have r1: "running (pic_pair c0 ?s1)" using run u(1) by simp
  note w = pic_update_masked [OF r1 dev irq, where masked = False]
  show "running (pic_pair c0 (pic_unmask dev irq s))" using w(1) by (simp add: pic_unmask_def)
  show "n < 16 \<Longrightarrow> masked_at (pic_pair c0 (pic_unmask dev irq s)) n \<longleftrightarrow>
       masked_at (pic_pair c0 s) n \<and> n \<noteq> unat irq \<and> \<not> (8 \<le> unat irq \<and> n = 2)"
    using w(2) [where n = n] u(2) [where n = n] unfolding pic_unmask_def Let_def c by auto
  show "line_vector (pic_pair c0 (pic_unmask dev irq s)) n = line_vector (pic_pair c0 s) n"
    using w(3) [where n = n] u(3) [where n = n] unfolding pic_unmask_def Let_def c by auto
qed

text \<open>A device that answers as the chips do.\<close>

definition pic_dev :: "chip \<times> chip \<Rightarrow> device" where
  "pic_dev c0 tr p =
     (if p = PIC1_DATA then imr (chip_of (fst c0) PIC1_CMD PIC1_DATA tr)
      else if p = PIC2_DATA then imr (chip_of (snd c0) PIC2_CMD PIC2_DATA tr) else 0)"

lemma pic_dev_readable: "imr_readable (pic_dev c0) c0"
  by (simp add: imr_readable_def pic_dev_def pic_consts)

lemma pic_init_running: "running (pic_pair c0 (pic_init s))"
  "n < 16 \<Longrightarrow> masked_at (pic_pair c0 (pic_init s)) n" "n < 16 \<Longrightarrow> line_vector (pic_pair c0 (pic_init s)) n = 32 + n"
proof -
  show "running (pic_pair c0 (pic_init s))"
    by (simp add: pic_init_pair running_def)
  show "n < 16 \<Longrightarrow> line_vector (pic_pair c0 (pic_init s)) n = 32 + n"
    by (simp add: pic_init_pair line_vector_def)
  have m: "(0xFF :: u8) = mask 8" by (simp add: mask_numeral)
  have b: "bit (0xFF :: u8) k \<longleftrightarrow> k < 8" for k unfolding m bit_mask_iff by auto
  have e: "imr (fst (pic_pair c0 (pic_init s))) = 0xFF" "imr (snd (pic_pair c0 (pic_init s))) = 0xFF"
    by (simp_all add: pic_init_pair)
  have "masked_at (pic_pair c0 (pic_init s)) n \<longleftrightarrow> (if n < 8 then n < 8 else n - 8 < 8)"
    unfolding masked_at_def e b by (rule refl)
  then show "n < 16 \<Longrightarrow> masked_at (pic_pair c0 (pic_init s)) n" by auto
qed

section \<open>Properties\<close>

definition demo_chips :: "chip \<times> chip" where
  "demo_chips = (let c = \<lparr>chip_phase = Want_ICW4, vec_base = 8, cascade = 0, chip_mode = 0, imr = 0\<rparr> in (c, c))"

definition demo_bus :: bus where "demo_bus = \<lparr>io_trace = []\<rparr>"

text \<open>
  Whatever state the two controllers were in and whatever was sent to them before, \<^verbatim>\<open>pic_init\<close> leaves both fully
  initialised, with every line masked and line \<^verbatim>\<open>n\<close> raising vector \<^verbatim>\<open>32 + n\<close>, the place where \<^verbatim>\<open>idt_init\<close> put its gate.
\<close>

lemma pic_init_remaps:
  assumes "n < 16"
  shows "running (pic_pair c0 (pic_init s)) \<and> \<not> line_open (pic_pair c0 (pic_init s)) n \<and>
    line_vector (pic_pair c0 (pic_init s)) n = 32 + n"
  using pic_init_running(1) [of c0 s] pic_init_running(2,3) [OF assms, of c0 s] assms by (simp add: line_open_masked)

text \<open>
  (C31) On initialised controllers whose mask register can be read back, \<^verbatim>\<open>pic_unmask\<close> lets the given line through to
  the processor (for a line of the second chip it also opens the cascade line 2) and \<^verbatim>\<open>pic_mask\<close> stops it; no other
  line's mask changes and the vectors stay.  A line number from 16 on is ignored by both.
\<close>

theorem pic_mask_unmask_lines:
  assumes run: "running (pic_pair c0 s)" and dev: "imr_readable dev c0"
  shows "if irq < 16 then
      line_open (pic_pair c0 (pic_unmask dev irq s)) (unat irq) \<and> \<not> line_open (pic_pair c0 (pic_mask dev irq s)) (unat irq) \<and>
      (\<forall>n < 16. (masked_at (pic_pair c0 (pic_unmask dev irq s)) n \<longleftrightarrow>
           masked_at (pic_pair c0 s) n \<and> n \<noteq> unat irq \<and> \<not> (8 \<le> unat irq \<and> n = 2)) \<and>
         (masked_at (pic_pair c0 (pic_mask dev irq s)) n \<longleftrightarrow> masked_at (pic_pair c0 s) n \<or> n = unat irq) \<and>
         line_vector (pic_pair c0 (pic_unmask dev irq s)) n = line_vector (pic_pair c0 s) n \<and>
         line_vector (pic_pair c0 (pic_mask dev irq s)) n = line_vector (pic_pair c0 s) n)
    else pic_unmask dev irq s = s \<and> pic_mask dev irq s = s"
proof (cases "unat irq < 16")
  case True
  note u = pic_unmask_masked [OF run dev True] and m = pic_update_masked [OF run dev True, where masked = True]
  have i: "irq < 16" using True by (simp add: word_less_nat_alt)
  have "line_open (pic_pair c0 (pic_unmask dev irq s)) (unat irq)" "\<not> line_open (pic_pair c0 (pic_mask dev irq s)) (unat irq)"
    using True u(2) m(2) by (auto simp: line_open_masked pic_mask_def)
  then show ?thesis using i u(2,3) m(2,3) by (auto simp: pic_mask_def)
next
  case False
  then have "irq \<ge> 16" by (simp add: word_le_nat_alt)
  then show ?thesis by (auto simp: pic_unmask_def pic_mask_def pic_update_mask_def)
qed

theorem pic_mask_unmask_lines_witness:
  "line_open (pic_pair demo_chips (pic_unmask (pic_dev demo_chips) 12 (pic_init demo_bus))) 12"
  using pic_mask_unmask_lines [of demo_chips "pic_init demo_bus" _ 12, OF pic_init_running(1) pic_dev_readable] by simp

end
