(* ===== verification/Irq.thy ===== *)
theory Irq
  imports Vm_Space Pic
begin

text \<open>
  The table of interrupt handlers and the dispatcher (\<^verbatim>\<open>src/src/irq.c\<close>, \<^verbatim>\<open>src/src/irq.h\<close>).  A handler is a code
  address, 0 is \<^verbatim>\<open>NULL\<close>; what the code at an address does is the parameter \<^verbatim>\<open>code\<close>, which the kernel instantiates
  with the handlers it registers.  \<^verbatim>\<open>irq_handlers\<close> holds the words from the address of the table on: the table is the first
  sixteen of them, and a write with a larger index would hit what lies behind it.
\<close>

definition IDT_IRQ_BASE :: u64 where "IDT_IRQ_BASE = 32"
definition IDT_IRQ_LAST :: u64 where "IDT_IRQ_LAST = 47"
definition IDT_IRQ_COUNT :: u64 where "IDT_IRQ_COUNT = IDT_IRQ_LAST - IDT_IRQ_BASE + 1"

type_synonym isr_reg_t = u64

record irq_sys = vm_sys +
  irq_handlers :: "nat \<Rightarrow> isr_reg_t"

definition irq_register :: "u8 \<Rightarrow> isr_reg_t \<Rightarrow> 'a irq_sys_scheme \<Rightarrow> 'a irq_sys_scheme" where
  "irq_register irq fn s =
     (if ucast irq \<ge> IDT_IRQ_COUNT then s else s\<lparr>irq_handlers := (irq_handlers s)(unat irq := fn)\<rparr>)"

definition send_eoi :: "u8 \<Rightarrow> 'a sys_scheme \<Rightarrow> 'a sys_scheme" where
  "send_eoi irq s = s\<lparr>con := pic_send_eoi irq (con s)\<rparr>"

definition irq_dispatch ::
  "(isr_reg_t \<Rightarrow> regs_t \<Rightarrow> 'a irq_sys_scheme \<Rightarrow> 'a irq_sys_scheme) \<Rightarrow> regs_t \<Rightarrow> 'a irq_sys_scheme \<Rightarrow> 'a irq_sys_scheme" where
  "irq_dispatch code r s =
     (let irq = vector r - IDT_IRQ_BASE in
      if irq \<ge> IDT_IRQ_COUNT then s
      else
        (let fn = irq_handlers s (unat irq);
             s1 = (if fn \<noteq> 0 then code fn r s else kprintf (''unhandled IRQ %lu'' @ nl) [VInt irq] s)
         in send_eoi (ucast irq) s1))"

lemma irq_count: "IDT_IRQ_COUNT = 16"
  by (simp add: IDT_IRQ_COUNT_def IDT_IRQ_LAST_def IDT_IRQ_BASE_def)

lemma irq_index: "ucast (irq :: u8) \<ge> IDT_IRQ_COUNT \<longleftrightarrow> 16 \<le> unat irq"
proof -
  have "unat irq < 2 ^ LENGTH(8)" by (rule unsigned_less)
  then have "unat (ucast irq :: u64) = unat irq" by (simp add: unsigned_ucast_eq take_bit_nat_eq_self)
  then show ?thesis by (simp add: irq_count word_le_nat_alt)
qed

text \<open>A vector from 32 to 47 is a line; every other vector, those below 32 by wrap-around, is out of the table.\<close>

lemma irq_of_vector:
  "vector r - IDT_IRQ_BASE \<ge> IDT_IRQ_COUNT \<longleftrightarrow> \<not> (32 \<le> unat (vector r) \<and> unat (vector r) < 48)"
  "32 \<le> unat (vector r) \<Longrightarrow> unat (vector r - IDT_IRQ_BASE) = unat (vector r) - 32"
proof -
  have u: "unat (vector r - 32) = (if 32 \<le> unat (vector r) then unat (vector r) - 32 else unat (vector r) + 2 ^ 64 - 32)"
    by (simp add: unat_sub_if')
  then show "vector r - IDT_IRQ_BASE \<ge> IDT_IRQ_COUNT \<longleftrightarrow> \<not> (32 \<le> unat (vector r) \<and> unat (vector r) < 48)"
    unfolding irq_count by (auto simp: word_le_nat_alt IDT_IRQ_BASE_def)
  show "32 \<le> unat (vector r) \<Longrightarrow> unat (vector r - IDT_IRQ_BASE) = unat (vector r) - 32"
    using u by (simp add: IDT_IRQ_BASE_def)
qed

text \<open>The end-of-interrupt commands for a line, newest first.\<close>

definition eoi_events :: "nat \<Rightarrow> io_event list" where
  "eoi_events n = (if n < 8 then [Out PIC1_CMD PIC_EOI] else [Out PIC1_CMD PIC_EOI, Out PIC2_CMD PIC_EOI])"

lemma send_eoi_trace:
  assumes "unat irq < 16"
  shows "send_eoi irq s = s\<lparr>con := (con s)\<lparr>io_trace := eoi_events (unat irq) @ io_trace (con s)\<rparr>\<rparr>"
  using assms by (auto simp: send_eoi_def pic_send_eoi_def eoi_events_def outb_def Let_def word_le_nat_alt)

section \<open>Properties\<close>

definition demo_irq :: irq_sys where
  "demo_irq = vm_sys.extend boot_vm \<lparr>irq_handlers = (\<lambda>_. 0)\<rparr>"

text \<open>
  (C30) Registering a handler for one of the sixteen lines makes that line's vector call exactly this handler, once,
  with the interrupt frame, and only when it has returned is the end of the interrupt signalled: to the second
  controller first, for a line from 8 on, then to the first.  Nothing else in or behind the table changes.  Registering a
  line number from 16 on changes nothing, and neither does a vector that belongs to no line, be it too small or too large.
\<close>

theorem irq_register_dispatch:
  assumes fn: "fn \<noteq> 0"
  shows "(if unat irq < 16 then
      (\<forall>r. unat (vector r) = 32 + unat irq \<longrightarrow>
         (let s1 = code fn r (irq_register irq fn s)
          in irq_dispatch code r (irq_register irq fn s) =
               s1\<lparr>con := (con s1)\<lparr>io_trace := eoi_events (unat irq) @ io_trace (con s1)\<rparr>\<rparr>)) \<and>
      (\<forall>j. j \<noteq> unat irq \<longrightarrow> irq_handlers (irq_register irq fn s) j = irq_handlers s j)
    else irq_register irq fn s = s) \<and>
    (\<forall>r. unat (vector r) \<notin> {32..<48} \<longrightarrow> irq_dispatch code r s = s)"
proof (intro conjI allI impI)
  show "irq_dispatch code r s = s" if "unat (vector r) \<notin> {32..<48}" for r
    using that irq_of_vector(1) [of r] by (simp add: irq_dispatch_def not_le)
next
  show "if unat irq < 16 then
      (\<forall>r. unat (vector r) = 32 + unat irq \<longrightarrow>
         (let s1 = code fn r (irq_register irq fn s)
          in irq_dispatch code r (irq_register irq fn s) =
               s1\<lparr>con := (con s1)\<lparr>io_trace := eoi_events (unat irq) @ io_trace (con s1)\<rparr>\<rparr>)) \<and>
      (\<forall>j. j \<noteq> unat irq \<longrightarrow> irq_handlers (irq_register irq fn s) j = irq_handlers s j)
    else irq_register irq fn s = s"
  proof (cases "unat irq < 16")
  case True
  then have reg: "irq_register irq fn s = s\<lparr>irq_handlers := (irq_handlers s)(unat irq := fn)\<rparr>"
    by (simp add: irq_register_def irq_index)
  have "irq_dispatch code r (irq_register irq fn s) =
      (let s1 = code fn r (irq_register irq fn s) in
       s1\<lparr>con := (con s1)\<lparr>io_trace := eoi_events (unat irq) @ io_trace (con s1)\<rparr>\<rparr>)"
    if v: "unat (vector r) = 32 + unat irq" for r
  proof -
    let ?i = "vector r - IDT_IRQ_BASE"
    have i: "\<not> ?i \<ge> IDT_IRQ_COUNT" "unat ?i = unat irq" using irq_of_vector [of r] v True by simp_all
    have e: "unat (ucast ?i :: u8) = unat irq"
      using i(2) True by (simp add: unsigned_ucast_eq take_bit_nat_eq_self)
    have h: "irq_handlers (irq_register irq fn s) (unat ?i) = fn" using reg i(2) by simp
    show ?thesis unfolding irq_dispatch_def Let_def h
      using i(1) fn send_eoi_trace [of "ucast ?i :: u8" "code fn r (irq_register irq fn s)"] e True by simp
  qed
  then show ?thesis using True reg by (simp add: Let_def)
next
  case False
  then show ?thesis by (simp add: irq_register_def irq_index)
  qed
qed

theorem irq_register_dispatch_witness:
  "irq_dispatch (\<lambda>_ _ s. s\<lparr>vm_faults := 7\<rparr>) (demo_regs 42 0) (irq_register 10 0x5000 demo_irq) =
     (let s1 = (irq_register 10 0x5000 demo_irq)\<lparr>vm_faults := 7\<rparr>
      in s1\<lparr>con := (con s1)\<lparr>io_trace := [Out 0x20 0x20, Out 0xA0 0x20] @ io_trace (con s1)\<rparr>\<rparr>)"
proof -
  have "eoi_events 10 = [Out 0x20 0x20, Out 0xA0 0x20]" by (simp add: eoi_events_def pic_consts)
  moreover have "unat (vector (demo_regs 42 0)) = 32 + unat (10 :: u8)" by (simp add: demo_regs_def)
  ultimately show ?thesis
    using irq_register_dispatch [of "0x5000" 10 "\<lambda>_ _ s. s\<lparr>vm_faults := 7\<rparr>" demo_irq] by (simp add: Let_def)
qed

end
