(* ===== verification/Idt.thy ===== *)
theory Idt
  imports Irq Vga_Format
begin

text \<open>
  The interrupt descriptor table and the common C entry of all interrupts (\<^verbatim>\<open>src/src/idt.c\<close>, \<^verbatim>\<open>src/src/idt.h\<close>).
  The addresses of the 48 entry stubs and of the table itself are fixed by the assembler and the linker: they are the
  parameters \<^verbatim>\<open>isr_stub_table\<close> and \<^verbatim>\<open>idt_addr\<close>.  \<^verbatim>\<open>isr_handler\<close> either returns to the stub, which resumes the interrupted
  code, or stops in its final loop: \<^verbatim>\<open>Return\<close> and \<^verbatim>\<open>Halt\<close>.
\<close>

record idt_entry_t =
  offset_low :: u16
  selector :: u16
  ist :: u8
  type_attr :: u8
  offset_mid :: u16
  offset_high :: u32
  zero_field :: u32

definition IDT_SELECTOR :: u16 where "IDT_SELECTOR = 0x08"
definition IDT_TYPE_ATTR :: u8 where "IDT_TYPE_ATTR = 0x8E"
definition IDT_ENTRIES :: nat where "IDT_ENTRIES = 256"
definition IDT_EXCEPTIONS :: nat where "IDT_EXCEPTIONS = 32"

record idt_sys = irq_sys +
  idt :: "idt_entry_t list"
  idtr_limit :: u16
  idtr_base :: u64

definition exception_names :: "string list" where
  "exception_names =
     [''#DE Divide Error'', ''#DB Debug'', ''NMI Interrupt'', ''#BP Breakpoint'', ''#OF Overflow'',
      ''#BR BOUND Range Exceeded'', ''#UD Invalid Opcode'', ''#NM Device Not Available'', ''#DF Double Fault'',
      ''Coprocessor Segment Overrun'', ''#TS Invalid TSS'', ''#NP Segment Not Present'', ''#SS Stack-Segment Fault'',
      ''#GP General Protection'', ''#PF Page Fault'', ''Reserved'', ''#MF x87 FPU Error'', ''#AC Alignment Check'',
      ''#MC Machine Check'', ''#XM SIMD FP Exception'', ''#VE Virtualization Exception'',
      ''#CP Control Protection Exception'', ''Reserved'', ''Reserved'', ''Reserved'', ''Reserved'', ''Reserved'',
      ''Reserved'', ''#HV Hypervisor Injection'', ''#VC VMM Communication'', ''#SX Security Exception'', ''Reserved'']"

definition read_cr2 :: "'a sys_scheme \<Rightarrow> u64" where
  "read_cr2 s = cr2 s"

definition set_gate :: "nat \<Rightarrow> u64 \<Rightarrow> 'a idt_sys_scheme \<Rightarrow> 'a idt_sys_scheme" where
  "set_gate vec handler s =
     s\<lparr>idt := (idt s)[vec :=
       \<lparr>offset_low = ucast (handler AND 0xFFFF), selector = IDT_SELECTOR, ist = 0, type_attr = IDT_TYPE_ATTR,
        offset_mid = ucast (drop_bit 16 handler AND 0xFFFF), offset_high = ucast (drop_bit 32 handler AND 0xFFFFFFFF),
        zero_field = 0\<rparr>]\<rparr>"

definition clear_gate :: "nat \<Rightarrow> 'a idt_sys_scheme \<Rightarrow> 'a idt_sys_scheme" where
  "clear_gate i s =
     s\<lparr>idt := (idt s)[i := \<lparr>offset_low = 0, selector = 0, ist = 0, type_attr = 0, offset_mid = 0, offset_high = 0,
        zero_field = 0\<rparr>]\<rparr>"

definition idt_init :: "(nat \<Rightarrow> u64) \<Rightarrow> u64 \<Rightarrow> 'a idt_sys_scheme \<Rightarrow> 'a idt_sys_scheme" where
  "idt_init isr_stub_table idt_addr s =
     (let s1 = fold clear_gate [0..<IDT_ENTRIES] s;
          s2 = fold (\<lambda>i. set_gate i (isr_stub_table i)) [0..<IDT_EXCEPTIONS] s1;
          s3 = fold (\<lambda>i. set_gate i (isr_stub_table i)) [unat IDT_IRQ_BASE..<Suc (unat IDT_IRQ_LAST)] s2
      in s3\<lparr>idtr_limit := of_nat (IDT_ENTRIES * 16 - 1), idtr_base := idt_addr\<rparr>)"

datatype 's outcome = Return 's | Halt 's

definition isr_handler ::
  "(isr_reg_t \<Rightarrow> regs_t \<Rightarrow> 'a irq_sys_scheme \<Rightarrow> 'a irq_sys_scheme) \<Rightarrow> regs_t \<Rightarrow> 'a irq_sys_scheme \<Rightarrow> 'a irq_sys_scheme outcome" where
  "isr_handler code r s =
     (if vector r \<ge> IDT_IRQ_BASE then Return (irq_dispatch code r s)
      else
        (let (handled, s1) = (if vector r = 14 then vm_handle_page_fault r s else (0, s)) in
         if handled \<noteq> 0 then Return s1
         else
           (let s2 = kprintf (''EXCEPTION 0x%02lX %s'' @ nl)
                  [VInt (vector r), VStr (cstr (exception_names ! unat (vector r AND 31)))] s1;
                s3 = kprintf (''error=0x%016lx'' @ nl) [VInt (error_code r)] s2;
                s4 = (if vector r = 14 then kprintf (''cr2=0x%016lx'' @ nl) [VInt (read_cr2 s3)] s3 else s3)
            in Halt (kprintf (''rip=0x%016lx cs=0x%04lx rflags=0x%016lx'' @ nl)
                  [VInt (rip r), VInt (seg_cs r), VInt (rflags r)] s4))))"

section \<open>Gates\<close>

text \<open>
  What the processor makes of a descriptor: the code selector, the target put together from its three parts, and the
  gate type, if the present bit is set.
\<close>

definition gate_offset :: "idt_entry_t \<Rightarrow> u64" where
  "gate_offset e = ucast (offset_low e) OR push_bit 16 (ucast (offset_mid e)) OR push_bit 32 (ucast (offset_high e))"

definition gate_of :: "idt_entry_t \<Rightarrow> (u16 \<times> u64 \<times> u8) option" where
  "gate_of e = (if bit (type_attr e) 7 then Some (selector e, gate_offset e, type_attr e AND 0x1F) else None)"

lemma handler_parts:
  "(ucast (ucast (h AND 0xFFFF) :: u16) :: u64) OR push_bit 16 (ucast (ucast (drop_bit 16 h AND 0xFFFF) :: u16)) OR
     push_bit 32 (ucast (ucast (drop_bit 32 h AND 0xFFFFFFFF) :: u32)) = (h :: u64)"
proof (rule bit_word_eqI)
  fix n assume n: "n < LENGTH(64)"
  have m: "(0xFFFF :: u64) = mask 16" "(0xFFFFFFFF :: u64) = mask 32" by (simp_all add: mask_numeral)
  consider "n < 16" | "16 \<le> n" "n < 32" | "32 \<le> n" by linarith
  then show "bit ((ucast (ucast (h AND 0xFFFF) :: u16) :: u64) OR push_bit 16 (ucast (ucast (drop_bit 16 h AND 0xFFFF) :: u16)) OR
     push_bit 32 (ucast (ucast (drop_bit 32 h AND 0xFFFFFFFF) :: u32))) n = bit h n"
    unfolding m using n by cases (auto simp: byte_bits bit_and_iff bit_mask_iff)
qed

lemma set_gate_nth:
  "vec < length (idt s) \<Longrightarrow> i < length (idt s) \<Longrightarrow>
     gate_of (idt (set_gate vec h s) ! i) = (if i = vec then Some (0x08, h, 14) else gate_of (idt s ! i))"
proof -
  have "bit (0x8E :: u8) 7" by (simp add: bit_7_u8)
  then show "vec < length (idt s) \<Longrightarrow> i < length (idt s) \<Longrightarrow>
     gate_of (idt (set_gate vec h s) ! i) = (if i = vec then Some (0x08, h, 14) else gate_of (idt s ! i))"
    by (simp add: set_gate_def gate_of_def gate_offset_def handler_parts IDT_SELECTOR_def IDT_TYPE_ATTR_def)
qed

lemma clear_gate_nth:
  "vec < length (idt s) \<Longrightarrow> i < length (idt s) \<Longrightarrow>
     gate_of (idt (clear_gate vec s) ! i) = (if i = vec then None else gate_of (idt s ! i))"
  by (simp add: clear_gate_def gate_of_def)

lemma fold_gates:
  assumes len: "\<And>v s. length (idt (f v s)) = length (idt s)"
    and step: "\<And>v s i. v < length (idt s) \<Longrightarrow> i < length (idt s) \<Longrightarrow>
      gate_of (idt (f v s) ! i) = (if i = v then g v else gate_of (idt s ! i))"
  shows "b \<le> length (idt s) \<Longrightarrow> i < length (idt s) \<Longrightarrow> length (idt (fold f [a..<b] s)) = length (idt s) \<and>
    gate_of (idt (fold f [a..<b] s) ! i) = (if a \<le> i \<and> i < b then g i else gate_of (idt s ! i))"
proof (induction b)
  case (Suc b)
  then show ?case using step [of b "fold f [a..<b] s" i] len by auto
qed simp

lemma gate_len [simp]: "length (idt (set_gate v h s)) = length (idt s)" "length (idt (clear_gate v s)) = length (idt s)"
  by (simp_all add: set_gate_def clear_gate_def)

lemma fold_set_gate:
  "b \<le> length (idt s) \<Longrightarrow> i < length (idt s) \<Longrightarrow>
     length (idt (fold (\<lambda>i. set_gate i (tbl i)) [a..<b] s)) = length (idt s) \<and>
     gate_of (idt (fold (\<lambda>i. set_gate i (tbl i)) [a..<b] s) ! i) =
       (if a \<le> i \<and> i < b then Some (0x08, tbl i, 14) else gate_of (idt s ! i))"
  by (rule fold_gates) (simp_all add: set_gate_nth)

section \<open>Properties\<close>

lemma idt_init_runs:
  assumes len: "length (idt s) = 256"
  obtains g where "idt_init tbl addr s = s\<lparr>idt := g, idtr_limit := 0xFFF, idtr_base := addr\<rparr>" "length g = 256"
    "\<forall>i < 256. gate_of (g ! i) = (if i < 48 then Some (0x08, tbl i, 14) else None)"
proof -
  let ?s1 = "fold clear_gate [0..<256] s" and ?g = "\<lambda>i. set_gate i (tbl i)"
  let ?s2 = "fold ?g [0..<32] ?s1"
  let ?s3 = "fold ?g [32..<48] ?s2"
  have c: "length (idt ?s1) = 256" "i < 256 \<Longrightarrow> gate_of (idt ?s1 ! i) = None" for i
    using fold_gates [of clear_gate "\<lambda>_. None" 256 s i 0] fold_gates [of clear_gate "\<lambda>_. None" 256 s 0 0] clear_gate_nth len by auto
  have s2: "length (idt ?s2) = 256" "i < 256 \<Longrightarrow> gate_of (idt ?s2 ! i) = (if i < 32 then Some (0x08, tbl i, 14) else None)" for i
    using fold_set_gate [of 32 ?s1 i tbl 0] fold_set_gate [of 32 ?s1 0 tbl 0] c by auto
  have s3: "length (idt ?s3) = 256" "i < 256 \<Longrightarrow> gate_of (idt ?s3 ! i) = (if i < 48 then Some (0x08, tbl i, 14) else None)" for i
    using fold_set_gate [of 48 ?s2 i tbl 32] fold_set_gate [of 48 ?s2 0 tbl 32] s2 by auto
  have only: "\<exists>g. fold f is s = s\<lparr>idt := g\<rparr>" if st: "\<And>i s. \<exists>g. f i s = s\<lparr>idt := g\<rparr>" for f :: "nat \<Rightarrow> 'a idt_sys_scheme \<Rightarrow> 'a idt_sys_scheme" and "is" s
  proof (induction "is" arbitrary: s)
    case Nil
    show ?case by (rule exI [of _ "idt s"]) simp
  next
    case (Cons i "is")
    obtain g where "f i s = s\<lparr>idt := g\<rparr>" using st by blast
    with Cons [of "s\<lparr>idt := g\<rparr>"] show ?case by auto
  qed
  have "\<exists>g. clear_gate i s = s\<lparr>idt := g\<rparr>" "\<exists>g. set_gate i h s = s\<lparr>idt := g\<rparr>" for i h and s :: "'a idt_sys_scheme"
    unfolding clear_gate_def set_gate_def by blast+
  note o = only [of clear_gate, OF this(1)] only [of ?g, OF this(2)]
  obtain g1 g2 g3 where "?s1 = s\<lparr>idt := g1\<rparr>" "?s2 = ?s1\<lparr>idt := g2\<rparr>" "?s3 = ?s2\<lparr>idt := g3\<rparr>" using o by meson
  then have g: "?s3 = s\<lparr>idt := g3\<rparr>" by simp
  have "idt_init tbl addr s = ?s3\<lparr>idtr_limit := 0xFFF, idtr_base := addr\<rparr>"
    unfolding idt_init_def Let_def IDT_ENTRIES_def IDT_EXCEPTIONS_def IDT_IRQ_BASE_def IDT_IRQ_LAST_def
    by (simp del: upt_rec_numeral)
  then show thesis using that [of g3] s3 unfolding g by simp
qed

text \<open>
  (C29) Whatever the table held, \<^verbatim>\<open>idt_init\<close> leaves a table in which the processor finds, for each of the vectors 0 to 47,
  a present 64-bit interrupt gate to that vector's own stub, with the 64-bit address put together correctly from its
  three parts, and no gate for any other vector; the table register covers exactly the 256 entries.
\<close>

theorem idt_init_gates:
  assumes len: "length (idt s) = 256" and i: "i < 256"
  shows "gate_of (idt (idt_init tbl addr s) ! i) = (if i < 48 then Some (0x08, tbl i, 14) else None) \<and>
    length (idt (idt_init tbl addr s)) = 256 \<and> idtr_limit (idt_init tbl addr s) = 0xFFF \<and> idtr_base (idt_init tbl addr s) = addr"
proof -
  obtain g where g: "idt_init tbl addr s = s\<lparr>idt := g, idtr_limit := 0xFFF, idtr_base := addr\<rparr>" "length g = 256"
    "\<forall>i < 256. gate_of (g ! i) = (if i < 48 then Some (0x08, tbl i, 14) else None)" by (rule idt_init_runs [OF len])
  then show ?thesis using spec [OF g(3), of i] i by simp
qed

definition demo_idt :: idt_sys where
  "demo_idt = \<lparr>con = vga_boot, mem = boot_mem, cr3 = 0x1000, cr2 = 0xFFFF800000000008, tlb = \<lambda>_. None, pmm = demo_pmm,
     vm_kernel_space_ptr = 0x1000, vm_faults = 0, vm_in_fault = False, irq_handlers = (\<lambda>_. 0),
     idt = replicate 256 \<lparr>offset_low = 0xFFFF, selector = 0xFFFF, ist = 0xFF, type_attr = 0xFF, offset_mid = 0xFFFF,
       offset_high = 0xFFFFFFFF, zero_field = 0\<rparr>, idtr_limit = 0, idtr_base = 0\<rparr>"

theorem idt_init_gates_witness:
  "gate_of (idt (idt_init (\<lambda>i. 0xFFFFFFFF80001234) 0x9000 demo_idt) ! 33) = Some (0x08, 0xFFFFFFFF80001234, 14)"
  using idt_init_gates [of demo_idt 33 "\<lambda>i. 0xFFFFFFFF80001234" "0x9000"] by (simp add: demo_idt_def)

text \<open>
  Demand paging through the interrupt path: vector 14 on a heap page that is not present, with four frames
  available, returns to the faulting instruction, and by then the address translates to a frame that was free and
  holds zeros only, every other page translates as before, and nothing was printed.
\<close>

lemma isr_repairs_heap_fault:
  assumes "vector r = 14" and "vm_wf lv s" and "lv (pte_frame (cr3 s)) = 4" and "fault_in_scope r s"
    and "mmu_leaf (mem s) 4 (pte_frame (cr3 s)) (cr2 s AND NOT 4095) = None"
    and "pml4_ok (mem s) (pte_frame (cr3 s)) (cr2 s AND NOT 4095)" and "4 \<le> card (pmm_avail (pmm s))"
  shows "\<exists>fr s'. isr_handler code r s = Return s' \<and> fr \<in> pmm_avail (pmm s) \<and> fr \<notin> pmm_avail (pmm s') \<and>
    mmu (mem s') (cr3 s') (cr2 s) = Some (fr OR (cr2 s AND 4095)) \<and> (\<forall>i < 512. rd64 (mem s') (slot fr i) = 0) \<and>
    (\<forall>va. \<not> same_page (cr2 s) va \<longrightarrow> mmu (mem s') (cr3 s') va = mmu (mem s) (cr3 s) va) \<and>
    vm_fault_count s' = vm_fault_count s + 1 \<and> con s' = con s"
proof -
  obtain fr lv' m p t where
    h: "vm_handle_page_fault r s = (1, s\<lparr>mem := m, pmm := p, tlb := t, vm_faults := vm_faults s + 1\<rparr>)"
    and f: "fr \<in> pmm_avail (pmm s)" "fr \<notin> pmm_avail p" "\<forall>i < 512. rd64 m (slot fr i) = 0" "pte_frame (fr OR 3) = fr"
    and leaf: "\<forall>va. mmu_leaf m 4 (pte_frame (cr3 s)) va =
       (if same_page (cr2 s) va then Some (1, fr OR 3) else mmu_leaf (mem s) 4 (pte_frame (cr3 s)) va)"
    by (rule vm_fault_repair [OF assms(2-7)]) blast
  have "mmu m (cr3 s) (cr2 s) = Some (fr OR (cr2 s AND 4095))"
    using leaf f(4) vm.same_page_refl by (simp add: mmu_def leaf_addr_1 [unfolded One_nat_def])
  moreover have "\<forall>va. \<not> same_page (cr2 s) va \<longrightarrow> mmu m (cr3 s) va = mmu (mem s) (cr3 s) va"
    using leaf by (simp add: mmu_def)
  moreover have "isr_handler code r s = Return (s\<lparr>mem := m, pmm := p, tlb := t, vm_faults := vm_faults s + 1\<rparr>)"
    using assms(1) h by (simp add: isr_handler_def IDT_IRQ_BASE_def)
  ultimately show ?thesis
    using f(1-3) by (intro exI [of _ fr] exI [of _ "s\<lparr>mem := m, pmm := p, tlb := t, vm_faults := vm_faults s + 1\<rparr>"])
      (simp add: vm_fault_count_def)
qed

lemma demo_idt_fault:
  "vm_wf boot_lv demo_idt" "boot_lv (pte_frame (cr3 demo_idt)) = 4"
  "mmu_leaf (mem demo_idt) 4 (pte_frame (cr3 demo_idt)) (cr2 demo_idt AND NOT 4095) = None"
  "pml4_ok (mem demo_idt) (pte_frame (cr3 demo_idt)) (cr2 demo_idt AND NOT 4095)" "4 \<le> card (pmm_avail (pmm demo_idt))"
  "fault_in_scope (demo_regs 14 2) demo_idt"
proof -
  have m: "mem demo_idt = mem boot_vm" "cr3 demo_idt = cr3 boot_vm" "cr2 demo_idt = cr2 boot_vm" "pmm demo_idt = pmm boot_vm"
    by (simp_all add: demo_idt_def)
  show "vm_wf boot_lv demo_idt" using boot_vm_wf(1) by (simp add: vm_wf_def m)
  show "boot_lv (pte_frame (cr3 demo_idt)) = 4"
    "mmu_leaf (mem demo_idt) 4 (pte_frame (cr3 demo_idt)) (cr2 demo_idt AND NOT 4095) = None"
    "pml4_ok (mem demo_idt) (pte_frame (cr3 demo_idt)) (cr2 demo_idt AND NOT 4095)" "4 \<le> card (pmm_avail (pmm demo_idt))"
    unfolding m by (rule boot_vm_fault)+
  show "fault_in_scope (demo_regs 14 2) demo_idt"
    by (simp add: fault_in_scope_def demo_regs_def heap_addr_def VM_HEAP_BASE_def VM_HEAP_SIZE_def demo_idt_def)
qed

text \<open>The report of an exception, and the note on an interrupt that nobody handles.\<close>

definition exception_report :: "regs_t \<Rightarrow> u64 \<Rightarrow> u8 list" where
  "exception_report r fault_va =
     cstr ''EXCEPTION 0x'' @ padded 2 0x30 (num_text 16 True (unat (vector r))) @ cstr '' '' @
       cstr (exception_names ! unat (vector r)) @ [0x0A] @
     cstr ''error=0x'' @ hex 16 (error_code r) @ [0x0A] @
     (if vector r = 14 then cstr ''cr2=0x'' @ hex 16 fault_va @ [0x0A] else []) @
     cstr ''rip=0x'' @ hex 16 (rip r) @ cstr '' cs=0x'' @ hex 4 (seg_cs r) @ cstr '' rflags=0x'' @ hex 16 (rflags r) @ [0x0A]"

definition unhandled_note :: "nat \<Rightarrow> u8 list" where
  "unhandled_note irq = cstr ''unhandled IRQ '' @ num_text 10 False irq @ [0x0A]"

lemma report_formats:
  "printf_text (cstr (''EXCEPTION 0x%02lX %s'' @ nl)) [VInt v, VStr t] =
     Some (cstr ''EXCEPTION 0x'' @ padded 2 0x30 (num_text 16 True (unat v)) @ cstr '' '' @ c_text t @ [0x0A])"
  "printf_text (cstr (''error=0x%016lx'' @ nl)) [VInt v] = Some (cstr ''error=0x'' @ hex 16 v @ [0x0A])"
  "printf_text (cstr (''cr2=0x%016lx'' @ nl)) [VInt v] = Some (cstr ''cr2=0x'' @ hex 16 v @ [0x0A])"
  "printf_text (cstr (''rip=0x%016lx cs=0x%04lx rflags=0x%016lx'' @ nl)) [VInt v, VInt w, VInt x] =
     Some (cstr ''rip=0x'' @ hex 16 v @ cstr '' cs=0x'' @ hex 4 w @ cstr '' rflags=0x'' @ hex 16 x @ [0x0A])"
  "printf_text (cstr (''unhandled IRQ %lu'' @ nl)) [VInt v] = Some (unhandled_note (unat v))"
  by (simp_all add: format_simps unhandled_note_def)

lemma exception_name_text:
  assumes "v < 32"
  shows "c_text (cstr (exception_names ! unat (v AND 31))) = cstr (exception_names ! unat (v :: u64))"
proof -
  have "unat (v AND 31) = unat v mod 32" using and_mask_nat [of v 5] by (simp add: mask_numeral)
  then have m: "v AND 31 = v" using assms by (simp add: word_unat_eq_iff word_less_nat_alt)
  have "\<forall>t \<in> set exception_names. c_text (cstr t) = cstr t" "length exception_names = 32"
    by (simp_all add: exception_names_def c_text_def cstr_def)
  then show ?thesis using assms nth_mem [of "unat v" exception_names] by (simp add: m word_less_nat_alt)
qed

lemma isr_handler_reports:
  assumes v: "vector r < 32" and h: "(if vector r = 14 then vm_handle_page_fault r s else (0, s)) = (0, s1)"
  shows "isr_handler code r s = Halt (s1\<lparr>con := fold vga_putchar (exception_report r (cr2 s1)) (con s1)\<rparr>)"
proof -
  note k = kprintf_text [OF report_formats(1)] kprintf_text [OF report_formats(2)] kprintf_text [OF report_formats(3)] kprintf_text [OF report_formats(4)]
  have "\<not> vector r \<ge> IDT_IRQ_BASE" using v by (auto simp: IDT_IRQ_BASE_def not_le)
  then show ?thesis
    unfolding isr_handler_def h by (simp add: k exception_name_text [OF v] exception_report_def read_cr2_def del: append.simps)
qed

lemma isr_handler_halts:
  assumes v: "vector r < 32" "\<not> (vector r = 14 \<and> fault_in_scope r s)"
  shows "isr_handler code r s = Halt (s\<lparr>con := fold vga_putchar (exception_report r (cr2 s)) (con s)\<rparr>)"
  by (rule isr_handler_reports [OF v(1)]) (use v(2) out_of_scope in auto)

text \<open>
  (C40) What becomes of an interrupt.  An exception other than a page fault in the heap, and a page fault that cannot be repaired,
  prints the whole report (the vector in hexadecimal, the name of the exception, the error code, CR2 for a page fault, the
  instruction pointer, the code segment and the flags, with their widths and line ends) and halts, having touched nothing else; a
  device interrupt without a handler prints a note with the number of its line, signals the end of the interrupt and returns;
  a vector from 48 on returns at once.
\<close>

theorem isr_halts_on_exceptions:
  "(vector r < 32 \<and> \<not> (vector r = 14 \<and> fault_in_scope r s) \<longrightarrow>
      isr_handler code r s = Halt (s\<lparr>con := fold vga_putchar (exception_report r (cr2 s)) (con s)\<rparr>)) \<and>
   (vector r = 14 \<and> vm_handle_page_fault r s = (0, s1) \<longrightarrow>
      isr_handler code r s = Halt (s1\<lparr>con := fold vga_putchar (exception_report r (cr2 s1)) (con s1)\<rparr>)) \<and>
   (unat (vector r) = 32 + irq \<and> irq < 16 \<and> irq_handlers s irq = 0 \<longrightarrow>
      (let c = fold vga_putchar (unhandled_note irq) (con s)
       in isr_handler code r s = Return (s\<lparr>con := c\<lparr>io_trace := eoi_events irq @ io_trace c\<rparr>\<rparr>))) \<and>
   (48 \<le> unat (vector r) \<longrightarrow> isr_handler code r s = Return s)"
proof (intro conjI impI)
  assume "vector r < 32 \<and> \<not> (vector r = 14 \<and> fault_in_scope r s)"
  then show "isr_handler code r s = Halt (s\<lparr>con := fold vga_putchar (exception_report r (cr2 s)) (con s)\<rparr>)" by (intro isr_handler_halts) simp_all
next
  assume "vector r = 14 \<and> vm_handle_page_fault r s = (0, s1)"
  then show "isr_handler code r s = Halt (s1\<lparr>con := fold vga_putchar (exception_report r (cr2 s1)) (con s1)\<rparr>)" by (intro isr_handler_reports) simp_all
next
  assume h: "unat (vector r) = 32 + irq \<and> irq < 16 \<and> irq_handlers s irq = 0"
  let ?i = "vector r - IDT_IRQ_BASE"
  have i: "\<not> ?i \<ge> IDT_IRQ_COUNT" "unat ?i = irq" "vector r \<ge> IDT_IRQ_BASE" using h irq_of_vector [of r] by (auto simp: IDT_IRQ_BASE_def word_le_nat_alt)
  have e: "unat (ucast ?i :: u8) = irq" using i(2) h by (simp add: unsigned_ucast_eq take_bit_nat_eq_self)
  show "let c = fold vga_putchar (unhandled_note irq) (con s)
       in isr_handler code r s = Return (s\<lparr>con := c\<lparr>io_trace := eoi_events irq @ io_trace c\<rparr>\<rparr>)"
    using i h e
    by (simp add: isr_handler_def irq_dispatch_def Let_def send_eoi_trace kprintf_text [OF report_formats(5)] del: append.simps)
next
  assume "48 \<le> unat (vector r)"
  then show "isr_handler code r s = Return s"
    using irq_of_vector(1) [of r] by (auto simp: isr_handler_def irq_dispatch_def Let_def IDT_IRQ_BASE_def word_le_nat_alt)
qed

text \<open>An invalid opcode, letter by letter.\<close>

theorem isr_halts_on_exceptions_witness:
  "isr_handler (\<lambda>_ _ s. s) (demo_regs 6 0) demo_idt = Halt (demo_idt\<lparr>con := fold vga_putchar
     (cstr ''EXCEPTION 0x06 #UD Invalid Opcode'' @ [0x0A] @ cstr ''error=0x0000000000000000'' @ [0x0A] @
      cstr ''rip=0x0000000000000000 cs=0x0008 rflags=0x0000000000000002'' @ [0x0A]) vga_boot\<rparr>)"
proof -
  have "exception_report (demo_regs 6 0) va =
     cstr ''EXCEPTION 0x06 #UD Invalid Opcode'' @ [0x0A] @ cstr ''error=0x0000000000000000'' @ [0x0A] @
      cstr ''rip=0x0000000000000000 cs=0x0008 rflags=0x0000000000000002'' @ [0x0A]" for va
    by (simp only: exception_report_def hex_def demo_regs_def regs_t.simps) code_simp
  then show ?thesis
    using isr_halts_on_exceptions [of "demo_regs 6 0" demo_idt "\<lambda>_ _ s. s"] by (simp add: demo_regs_def demo_idt_def del: append.simps)
qed

end
