(* ===== verification/Heap.thy ===== *)
theory Heap
  imports Vm_Space
begin

text \<open>
  The kernel heap (\<^verbatim>\<open>src/src/heap.c\<close>, \<^verbatim>\<open>src/src/heap.h\<close>): first-fit allocation with splitting, release with merging.
  The state is the heap as the kernel sees it through the page tables, that is \<^verbatim>\<open>hmem\<close>, bytes by virtual
  address (pages that were never touched are supplied by the page-fault handler, theory \<^verbatim>\<open>Vm_Space\<close>), and the
  two pointers of the file.  A loop that does not end has the result \<^verbatim>\<open>None\<close>; \<^verbatim>\<open>heap_panic\<close>, which prints its
  message and halts, is \<^verbatim>\<open>Some (Inl message)\<close>.
\<close>

definition HEAP_MAGIC :: u32 where "HEAP_MAGIC = 0x48454150"

record heap_st =
  hmem :: bytes
  heap_start :: u64
  heap_end :: u64

text \<open>\<^verbatim>\<open>heap_panic\<close> never returns: the value is the line it prints before it halts.\<close>

type_synonym 'a heap_res = "(string + 'a) option"

definition heap_panic :: "string \<Rightarrow> 'a heap_res" where
  "heap_panic why = Some (Inl (why @ nl))"

definition blk_magic :: "u64 \<Rightarrow> heap_st \<Rightarrow> u32" where "blk_magic b s = rd32 (hmem s) b"
definition blk_free :: "u64 \<Rightarrow> heap_st \<Rightarrow> u32" where "blk_free b s = rd32 (hmem s) (b + 4)"
definition blk_size :: "u64 \<Rightarrow> heap_st \<Rightarrow> u64" where "blk_size b s = rd64 (hmem s) (b + 8)"
definition set_magic :: "u64 \<Rightarrow> u32 \<Rightarrow> heap_st \<Rightarrow> heap_st" where "set_magic b v s = s\<lparr>hmem := wr32 (hmem s) b v\<rparr>"
definition set_free :: "u64 \<Rightarrow> u32 \<Rightarrow> heap_st \<Rightarrow> heap_st" where "set_free b v s = s\<lparr>hmem := wr32 (hmem s) (b + 4) v\<rparr>"
definition set_size :: "u64 \<Rightarrow> u64 \<Rightarrow> heap_st \<Rightarrow> heap_st" where "set_size b v s = s\<lparr>hmem := wr64 (hmem s) (b + 8) v\<rparr>"

definition heap_init :: "heap_st \<Rightarrow> int \<times> heap_st" where
  "heap_init s =
     (let s1 = s\<lparr>heap_start := VM_HEAP_BASE, heap_end := VM_HEAP_BASE + VM_HEAP_SIZE\<rparr>;
          b = heap_start s1
      in (0, set_size b (VM_HEAP_SIZE - 16) (set_free b 1 (set_magic b HEAP_MAGIC s1))))"

partial_function (option) kmalloc_loop :: "u64 \<Rightarrow> u64 \<Rightarrow> heap_st \<Rightarrow> (u64 \<times> heap_st) heap_res" where
  "kmalloc_loop need b s =
     (if \<not> b < heap_end s then Some (Inr (0, s))
      else if blk_magic b s \<noteq> HEAP_MAGIC then heap_panic ''M8/HEAP: corrupt magic in kmalloc''
      else if blk_free b s \<noteq> 0 \<and> blk_size b s \<ge> need
      then
        (let remain = blk_size b s - need;
             s1 = (if remain \<ge> 16 + 16
                   then
                     (let nb = b + 16 + need
                      in set_size b need (set_size nb (remain - 16) (set_free nb 1 (set_magic nb HEAP_MAGIC s))))
                   else s)
         in Some (Inr (b + 16, set_free b 0 s1)))
      else
        (let next = b + 16 + blk_size b s
         in if next \<ge> heap_end s then Some (Inr (0, s)) else kmalloc_loop need next s))"

definition kmalloc :: "u64 \<Rightarrow> heap_st \<Rightarrow> (u64 \<times> heap_st) heap_res" where
  "kmalloc size1 s =
     (if size1 = 0 \<or> size1 > VM_HEAP_SIZE \<or> heap_start s = 0 then Some (Inr (0, s))
      else
        (let need = (size1 + 15) AND NOT 15
         in kmalloc_loop need (heap_start s) s))"

partial_function (option) kfree_forward :: "u64 \<Rightarrow> heap_st \<Rightarrow> heap_st heap_res" where
  "kfree_forward b s =
     (let next = b + 16 + blk_size b s in
      if next \<ge> heap_end s then Some (Inr s)
      else if blk_magic next s \<noteq> HEAP_MAGIC then heap_panic ''M8/HEAP: bad magic in forward merge''
      else if blk_free next s = 0 then Some (Inr s)
      else kfree_forward b (set_size b (blk_size b s + (16 + blk_size next s)) s))"

partial_function (option) kfree_prev :: "u64 \<Rightarrow> u64 \<Rightarrow> u64 \<Rightarrow> heap_st \<Rightarrow> u64 option" where
  "kfree_prev b prev cur s =
     (if cur < b then kfree_prev b cur (cur + 16 + blk_size cur s) s else Some prev)"

definition kfree :: "u64 \<Rightarrow> heap_st \<Rightarrow> heap_st heap_res" where
  "kfree ptr s =
     (if ptr = 0 then Some (Inr s)
      else
        (let b = ptr - 16 in
         if b < heap_start s \<or> b \<ge> heap_end s then heap_panic ''M8/HEAP: kfree out of range''
         else if blk_magic b s \<noteq> HEAP_MAGIC then heap_panic ''M8/HEAP: kfree bad magic''
         else if blk_free b s \<noteq> 0 then heap_panic ''M8/HEAP: double free''
         else
           (case kfree_forward b (set_free b 1 s) of
              None \<Rightarrow> None
            | Some (Inl e) \<Rightarrow> Some (Inl e)
            | Some (Inr s1) \<Rightarrow>
                (case kfree_prev b 0 (heap_start s1) s1 of
                   None \<Rightarrow> None
                 | Some prev \<Rightarrow>
                     Some (Inr (if prev \<noteq> 0 \<and> blk_free prev s1 \<noteq> 0
                                then set_size prev (blk_size prev s1 + (16 + blk_size b s1)) s1
                                else s1))))))"

partial_function (option) heap_free_loop :: "u64 \<Rightarrow> u64 \<Rightarrow> heap_st \<Rightarrow> u64 heap_res" where
  "heap_free_loop acc b s =
     (if \<not> b < heap_end s then Some (Inr acc)
      else if blk_magic b s \<noteq> HEAP_MAGIC then heap_panic ''M8/HEAP: corrupt magic in free_bytes''
      else
        (let acc1 = (if blk_free b s \<noteq> 0 then acc + blk_size b s else acc);
             next = b + 16 + blk_size b s
         in if next \<ge> heap_end s then Some (Inr acc1) else heap_free_loop acc1 next s))"

definition heap_free_bytes :: "heap_st \<Rightarrow> u64 heap_res" where
  "heap_free_bytes s = heap_free_loop 0 (heap_start s) s"

section \<open>The chain of blocks\<close>

text \<open>
  A heap is described by the list of its blocks, each with its free flag and payload size.  \<^verbatim>\<open>chain m b e bs\<close>
  says that the blocks \<^verbatim>\<open>bs\<close> tile the memory from \<^verbatim>\<open>b\<close> to \<^verbatim>\<open>e\<close>.
\<close>

type_synonym block = "bool \<times> nat"

definition hdr_ok :: "bytes \<Rightarrow> u64 \<Rightarrow> bool \<Rightarrow> nat \<Rightarrow> bool" where
  "hdr_ok m b f n \<longleftrightarrow> rd32 m b = HEAP_MAGIC \<and> rd32 m (b + 4) = (if f then 1 else 0) \<and> unat (rd64 m (b + 8)) = n \<and>
     16 dvd n \<and> 16 \<le> n"

fun chain :: "bytes \<Rightarrow> nat \<Rightarrow> nat \<Rightarrow> block list \<Rightarrow> bool" where
  "chain m b e [] \<longleftrightarrow> b = e"
| "chain m b e ((f, n) # bs) \<longleftrightarrow> hdr_ok m (of_nat b) f n \<and> b + 16 + n \<le> e \<and> chain m (b + 16 + n) e bs"

definition span :: "block list \<Rightarrow> nat" where
  "span bs = (\<Sum>(f, n) \<leftarrow> bs. 16 + n)"

lemma span_simps [simp]: "span [] = 0" "span ((f, n) # bs) = 16 + n + span bs" "span (xs @ ys) = span xs + span ys"
  by (simp_all add: span_def)

lemma chain_span: "chain m b e bs \<Longrightarrow> e = b + span bs"
  by (induction m b e bs rule: chain.induct) auto

lemma chain_append:
  "chain m b e (xs @ ys) \<longleftrightarrow> chain m b (b + span xs) xs \<and> chain m (b + span xs) e ys"
proof (induction xs arbitrary: b)
  case Nil
  then show ?case by simp
next
  case (Cons x xs)
  obtain f n where x: "x = (f, n)" by force
  have "chain m (b + 16 + n) e (xs @ ys) \<Longrightarrow> b + 16 + n \<le> e" using chain_span by fastforce
  then show ?case using Cons [of "b + 16 + n"] by (auto simp: x add.assoc)
qed

text \<open>Only the bytes between the two ends matter.\<close>

lemma hdr_ok_agree:
  assumes "agree m m' b (b + 16)" "b + 16 < 2 ^ 64"
  shows "hdr_ok m (of_nat b) f n = hdr_ok m' (of_nat b) f n"
proof -
  have u: "unat (of_nat b :: u64) = b" using assms(2) by (simp add: unat_of_nat_u64)
  have u4: "unat (of_nat b + 4 :: u64) = b + 4" "unat (of_nat b + 8 :: u64) = b + 8"
    using u assms(2) by (simp_all add: unat_u64_add)
  have "rd32 m (of_nat b) = rd32 m' (of_nat b)" "rd32 m (of_nat b + 4) = rd32 m' (of_nat b + 4)"
    "rd64 m (of_nat b + 8) = rd64 m' (of_nat b + 8)"
    using u u4 assms(2) by (auto intro!: agree_rd32 [OF assms(1)] agree_rd64 [OF assms(1)])
  then show ?thesis by (simp add: hdr_ok_def)
qed

lemma agree_sub: "agree m m' a b \<Longrightarrow> a \<le> a' \<Longrightarrow> b' \<le> b \<Longrightarrow> agree m m' a' b'"
  by (auto simp: agree_def)

lemma chain_agree:
  "agree m m' b e \<Longrightarrow> e < 2 ^ 64 \<Longrightarrow> chain m b e bs = chain m' b e bs"
proof (induction bs arbitrary: b)
  case (Cons x bs)
  obtain f n where x: "x = (f, n)" by force
  show ?case
  proof (cases "b + 16 + n \<le> e")
    case True
    have "hdr_ok m (of_nat b) f n = hdr_ok m' (of_nat b) f n"
      using True Cons.prems(2) by (intro hdr_ok_agree agree_sub [OF Cons.prems(1)]) auto
    moreover have "chain m (b + 16 + n) e bs = chain m' (b + 16 + n) e bs"
      by (rule Cons.IH [OF agree_sub [OF Cons.prems(1)] Cons.prems(2)]) auto
    ultimately show ?thesis by (simp add: x)
  qed (simp add: x)
qed simp

section \<open>Header fields\<close>

lemma hdr_fields [simp]:
  "rd32 (wr32 m (b + 4) v) b = rd32 m b" "rd32 (wr32 m b v) (b + 4) = rd32 m (b + 4)"
  "rd64 (wr32 m b v) (b + 8) = rd64 m (b + 8)" "rd64 (wr32 m (b + 4) v) (b + 8) = rd64 m (b + 8)"
  "rd32 (wr64 m (b + 8) w) b = rd32 m b" "rd32 (wr64 m (b + 8) w) (b + 4) = rd32 m (b + 4)"
  by (simp_all add: rd32_wr32_apart rd64_wr32_apart rd32_wr64_apart apart_def)

text \<open>\<^verbatim>\<open>m'\<close> differs from \<^verbatim>\<open>m\<close> at most from \<^verbatim>\<open>lo\<close> up to \<^verbatim>\<open>hi\<close>.\<close>

definition writes_in :: "bytes \<Rightarrow> bytes \<Rightarrow> nat \<Rightarrow> nat \<Rightarrow> bool" where
  "writes_in m m' lo hi \<longleftrightarrow> (\<forall>x. \<not> (lo \<le> unat x \<and> unat x < hi) \<longrightarrow> m' x = m x)"

lemma writes_in_refl: "writes_in m m lo hi"
  by (simp add: writes_in_def)

lemma writes_in_trans: "writes_in m m1 lo hi \<Longrightarrow> writes_in m1 m2 lo hi \<Longrightarrow> writes_in m m2 lo hi"
  by (simp add: writes_in_def)

lemma writes_in_mono: "writes_in m m' lo hi \<Longrightarrow> lo' \<le> lo \<Longrightarrow> hi \<le> hi' \<Longrightarrow> writes_in m m' lo' hi'"
  by (auto simp: writes_in_def)

lemma writes_in_agree: "writes_in m m' lo hi \<Longrightarrow> b \<le> lo \<or> hi \<le> a \<Longrightarrow> agree m m' a b"
  by (auto simp: writes_in_def agree_def)

lemma near_unat:
  assumes "(x :: u64) - a < k" "unat a + unat k < 2 ^ 64"
  shows "unat a \<le> unat x \<and> unat x < unat a + unat k"
proof -
  have l: "unat (x - a) < unat k" using assms(1) by (simp add: word_less_nat_alt)
  have "unat (a + (x - a)) = unat a + unat (x - a)" by (rule unat_u64_add) (use l assms(2) in linarith)
  then show ?thesis using l by simp
qed

lemma wr_writes_in:
  assumes "lo \<le> unat a" "unat a + k \<le> hi" "unat a + k < 2 ^ 64"
  shows "k = 4 \<Longrightarrow> writes_in m (wr32 m a v) lo hi" "k = 8 \<Longrightarrow> writes_in m (wr64 m a w) lo hi"
proof -
  have "\<not> x - a < 4" if "k = 4" "\<not> (lo \<le> unat x \<and> unat x < hi)" for x
    using near_unat [of x a 4] that assms by auto
  then show "k = 4 \<Longrightarrow> writes_in m (wr32 m a v) lo hi" by (simp add: writes_in_def wr32_outside)
  have "\<not> x - a < 8" if "k = 8" "\<not> (lo \<le> unat x \<and> unat x < hi)" for x
    using near_unat [of x a 8] that assms by auto
  then show "k = 8 \<Longrightarrow> writes_in m (wr64 m a w) lo hi" by (simp add: writes_in_def wr64_outside)
qed

lemma hdr_writes:
  assumes "b + 16 < 2 ^ 64"
  shows "writes_in m (wr32 m (of_nat b) v) b (b + 16)" "writes_in m (wr32 m (of_nat b + 4) v) b (b + 16)"
    "writes_in m (wr64 m (of_nat b + 8) w) b (b + 16)"
proof -
  have u: "unat (of_nat b :: u64) = b" "unat (of_nat b + 4 :: u64) = b + 4" "unat (of_nat b + 8 :: u64) = b + 8"
    using assms by (simp_all add: unat_of_nat_u64 unat_u64_add)
  show "writes_in m (wr32 m (of_nat b) v) b (b + 16)" "writes_in m (wr32 m (of_nat b + 4) v) b (b + 16)"
    "writes_in m (wr64 m (of_nat b + 8) w) b (b + 16)"
    using assms by (auto intro!: wr_writes_in(1) [where k = 4] wr_writes_in(2) [where k = 8] simp: u)
qed

lemmas blk_defs = blk_magic_def blk_free_def blk_size_def set_magic_def set_free_def set_size_def

section \<open>Allocation\<close>

text \<open>The abstract allocator: the first free block that is large enough, split if a block fits behind it.\<close>

fun first_fit :: "nat \<Rightarrow> block list \<Rightarrow> (block list \<times> nat \<times> block list) option" where
  "first_fit k [] = None"
| "first_fit k ((f, n) # bs) =
     (if f \<and> k \<le> n then Some ([], n, bs)
      else map_option (\<lambda>(xs, m, ys). ((f, n) # xs, m, ys)) (first_fit k bs))"

definition split_block :: "nat \<Rightarrow> nat \<Rightarrow> block list" where
  "split_block k n = (if 32 \<le> n - k then [(False, k), (True, n - k - 16)] else [(False, n)])"

lemma first_fit_Some:
  "first_fit k bs = Some (xs, n, ys) \<Longrightarrow>
     bs = xs @ (True, n) # ys \<and> k \<le> n \<and> (\<forall>(f, m) \<in> set xs. \<not> (f \<and> k \<le> m))"
  by (induction k bs arbitrary: xs rule: first_fit.induct) (auto split: if_splits)

lemma first_fit_None: "first_fit k bs = None \<longleftrightarrow> (\<forall>(f, m) \<in> set bs. \<not> (f \<and> k \<le> m))"
  by (induction k bs rule: first_fit.induct) auto

definition kmalloc_take :: "u64 \<Rightarrow> u64 \<Rightarrow> heap_st \<Rightarrow> heap_st" where
  "kmalloc_take need b s =
     (let remain = blk_size b s - need;
          s1 = (if remain \<ge> 32
                then
                  (let nb = b + 16 + need
                   in set_size b need (set_size nb (remain - 16) (set_free nb 1 (set_magic nb HEAP_MAGIC s))))
                else s)
      in set_free b 0 s1)"

lemma chain_first:
  assumes "chain m b e ((f, n) # bs)" "e < 2 ^ 64"
  shows "unat (of_nat b :: u64) = b" "rd32 m (of_nat b) = HEAP_MAGIC" "rd32 m (of_nat b + 4) = (if f then 1 else 0)"
    "unat (rd64 m (of_nat b + 8)) = n" "of_nat b + 16 + rd64 m (of_nat b + 8) = (of_nat (b + 16 + n) :: u64)"
    "unat (of_nat (b + 16 + n) :: u64) = b + 16 + n" "b < e" "bs = [] \<longleftrightarrow> b + 16 + n = e"
proof -
  have h: "hdr_ok m (of_nat b) f n" "b + 16 + n \<le> e" "chain m (b + 16 + n) e bs" using assms(1) by simp_all
  show "unat (of_nat b :: u64) = b" "unat (of_nat (b + 16 + n) :: u64) = b + 16 + n" "b < e"
    using h(2) assms(2) by (simp_all add: unat_of_nat_u64 del: of_nat_add)
  show "rd32 m (of_nat b) = HEAP_MAGIC" "rd32 m (of_nat b + 4) = (if f then 1 else 0)"
    "unat (rd64 m (of_nat b + 8)) = n"
    using h(1) by (simp_all add: hdr_ok_def)
  then have "rd64 m (of_nat b + 8) = of_nat n" by auto
  then show "of_nat b + 16 + rd64 m (of_nat b + 8) = (of_nat (b + 16 + n) :: u64)" by simp
  show "bs = [] \<longleftrightarrow> b + 16 + n = e"
    using h(3) chain_span [OF h(3)] by (cases bs) auto
qed

lemma kmalloc_loop_spec:
  assumes "heap_end s = of_nat e" "e < 2 ^ 64" "unat need = k"
  shows "chain (hmem s) b e bs \<Longrightarrow> kmalloc_loop need (of_nat b) s =
    Some (Inr (case first_fit k bs of None \<Rightarrow> (0, s)
      | Some (xs, n, ys) \<Rightarrow> (of_nat (b + span xs) + 16, kmalloc_take need (of_nat (b + span xs)) s)))"
proof (induction bs arbitrary: b)
  case Nil
  then show ?case using assms(1) by (simp add: kmalloc_loop.simps)
next
  case (Cons x bs)
  obtain f n where x: "x = (f, n)" by force
  note c = chain_first [OF Cons.prems [unfolded x] assms(2)]
  have ue: "unat (heap_end s) = e" using assms(1,2) by (simp add: unat_of_nat_u64)
  have lt: "of_nat b < heap_end s" using c(1,7) ue by (simp add: word_less_nat_alt)
  have flds: "blk_magic (of_nat b) s = HEAP_MAGIC" "(blk_free (of_nat b) s \<noteq> 0) = f"
    "(need \<le> blk_size (of_nat b) s) = (k \<le> n)" "of_nat b + 16 + blk_size (of_nat b) s = of_nat (b + 16 + n)"
    using c(2-5) assms(3) by (auto simp: blk_defs word_le_nat_alt split: if_splits)
  have nx: "(heap_end s \<le> of_nat (b + 16 + n)) = (bs = [])"
    using c(6,8) ue chain_first(8) Cons.prems x by (simp add: word_le_nat_alt del: of_nat_add) auto
  show ?case
  proof (cases "f \<and> k \<le> n")
    case True
    then show ?thesis
      unfolding kmalloc_loop.simps [of need "of_nat b"] using lt flds
      by (simp add: x kmalloc_take_def Let_def)
  next
    case False
    then have nf: "(blk_free (of_nat b) s \<noteq> 0 \<and> need \<le> blk_size (of_nat b) s) = False" using flds(2,3) by simp
    have step: "kmalloc_loop need (of_nat b) s =
        (if bs = [] then Some (Inr (0, s)) else kmalloc_loop need (of_nat (b + 16 + n)) s)"
      unfolding kmalloc_loop.simps [of need "of_nat b"] Let_def flds(4) nx nf using lt flds(1) by simp
    have ch: "chain (hmem s) (b + 16 + n) e bs" using Cons.prems x by simp
    show ?thesis
    proof (cases "bs = []")
      case True
      then show ?thesis unfolding step using False by (auto simp: x)
    next
      case ne: False
      then show ?thesis unfolding step using Cons.IH [OF ch] False
        by (auto simp: x add.assoc split: option.split)
    qed
  qed
qed

text \<open>Taking a block: its header and, if it is split, the header behind its new payload.\<close>

lemma hdr_new:
  "unat v = n \<Longrightarrow> 16 dvd n \<Longrightarrow> 16 \<le> n \<Longrightarrow>
     hdr_ok (wr64 (wr32 (wr32 m b HEAP_MAGIC) (b + 4) 1) (b + 8) v) b True n"
  by (simp add: hdr_ok_def)

lemma hdr_new_writes:
  assumes "b + 16 < 2 ^ 64"
  shows "writes_in m (wr64 (wr32 (wr32 m (of_nat b) HEAP_MAGIC) (of_nat b + 4) f) (of_nat b + 8) v) b (b + 16)"
  by (rule writes_in_trans [OF hdr_writes(1) [OF assms] writes_in_trans [OF hdr_writes(2) [OF assms] hdr_writes(3) [OF assms]]])

lemma kmalloc_take_spec:
  assumes c: "chain (hmem s) b e ((True, n) # bs)" and e: "e < 2 ^ 64" and k: "unat need = k" "k \<le> n" "16 dvd k" "16 \<le> k"
  shows "chain (hmem (kmalloc_take need (of_nat b) s)) b e (split_block k n @ bs) \<and>
    writes_in (hmem s) (hmem (kmalloc_take need (of_nat b) s)) b (b + 16 + n) \<and>
    heap_start (kmalloc_take need (of_nat b) s) = heap_start s \<and> heap_end (kmalloc_take need (of_nat b) s) = heap_end s"
proof -
  let ?B = "of_nat b :: u64"
  note cf = chain_first [OF c e]
  have h: "hdr_ok (hmem s) ?B True n" "b + 16 + n \<le> e" "chain (hmem s) (b + 16 + n) e bs" using c by simp_all
  have dn: "16 dvd n" "16 \<le> n" using h(1) by (simp_all add: hdr_ok_def)
  have sz: "unat (blk_size ?B s) = n" using cf(4) by (simp add: blk_defs)
  have b16: "b + 16 < 2 ^ 64" using h(2) e by simp
  have rem: "unat (blk_size ?B s - need) = n - k" using sz k by (simp add: unat_sub word_le_nat_alt)
  have rest: "chain m' (b + 16 + n) e bs" if "writes_in (hmem s) m' b (b + 16 + n)" for m'
    using h(3) chain_agree [OF writes_in_agree [OF that] e, of "b + 16 + n"] by simp
  show ?thesis
  proof (cases "32 \<le> n - k")
    case False
    let ?m = "wr32 (hmem s) (?B + 4) 0"
    have "kmalloc_take need ?B s = s\<lparr>hmem := ?m\<rparr>"
      using False rem by (simp add: kmalloc_take_def Let_def word_le_nat_alt set_free_def)
    moreover have "hdr_ok ?m ?B False n" using h(1) by (simp add: hdr_ok_def)
    moreover have "writes_in (hmem s) ?m b (b + 16 + n)" by (rule writes_in_mono [OF hdr_writes(2) [OF b16]]) simp_all
    ultimately show ?thesis using False h(2) rest by (simp add: split_block_def)
  next
    case True
    let ?nb = "b + 16 + k" and ?N = "of_nat (b + 16 + k) :: u64"
    let ?v = "blk_size ?B s - need - 16"
    let ?m1 = "wr64 (wr32 (wr32 (hmem s) ?N HEAP_MAGIC) (?N + 4) 1) (?N + 8) ?v"
    let ?m2 = "wr64 ?m1 (?B + 8) need" and ?m3 = "wr32 (wr64 ?m1 (?B + 8) need) (?B + 4) 0"
    have nb16: "?nb + 16 < 2 ^ 64" using True h(2) e k(2) by simp
    have N: "?B + 16 + need = ?N" using k(1) by auto
    have v: "unat ?v = n - k - 16" using rem True by (subst unat_sub) (simp_all add: word_le_nat_alt)
    have take: "kmalloc_take need ?B s = s\<lparr>hmem := ?m3\<rparr>"
      using True rem unfolding kmalloc_take_def Let_def N by (simp add: word_le_nat_alt blk_defs del: of_nat_add)
    have w1: "writes_in (hmem s) ?m1 ?nb (?nb + 16)" by (rule hdr_new_writes [OF nb16])
    have w2: "writes_in ?m1 ?m3 b (b + 16)" by (rule writes_in_trans [OF hdr_writes(3) [OF b16] hdr_writes(2) [OF b16]])
    have w: "writes_in (hmem s) ?m3 b (b + 16 + n)"
      using True k(2) by (intro writes_in_trans [OF writes_in_mono [OF w1] writes_in_mono [OF w2]]) simp_all
    have "16 dvd n - k - 16" using dn(1) k(3) by (simp add: dvd_diff_nat)
    then have "hdr_ok ?m1 ?N True (n - k - 16)" by (rule hdr_new [OF v]) (use True in simp)
    then have hn: "hdr_ok ?m3 ?N True (n - k - 16)"
      using hdr_ok_agree [OF writes_in_agree [OF w2, of "?nb + 16" ?nb] nb16] k(4) by simp
    have "hdr_ok ?m1 ?B True n"
      using h(1) hdr_ok_agree [OF writes_in_agree [OF w1, of "b + 16" b] b16] by simp
    then have hb: "hdr_ok ?m3 ?B False k" using k by (simp add: hdr_ok_def)
    have sum: "b + 16 + k + 16 + (n - k - 16) = b + 16 + n" using True by simp
    have "split_block k n = [(False, k), (True, n - k - 16)]" using True by (simp add: split_block_def)
    moreover have "b + 16 + k \<le> e" using True h(2) by linarith
    ultimately have "chain ?m3 b e (split_block k n @ bs)"
      using hn hb h(2) rest [OF w] by (simp only: append.simps chain.simps sum simp_thms)
    then show ?thesis using w unfolding take by simp
  qed
qed

section \<open>The heap of the kernel\<close>

definition HB :: nat where "HB = unat VM_HEAP_BASE"
definition HE :: nat where "HE = unat (VM_HEAP_BASE + VM_HEAP_SIZE)"

text \<open>\<^verbatim>\<open>heap_wf s bs\<close>: the arena of \<^verbatim>\<open>s\<close> is tiled by the blocks \<^verbatim>\<open>bs\<close>.\<close>

definition heap_wf :: "heap_st \<Rightarrow> block list \<Rightarrow> bool" where
  "heap_wf s bs \<longleftrightarrow> heap_start s = VM_HEAP_BASE \<and> heap_end s = VM_HEAP_BASE + VM_HEAP_SIZE \<and> chain (hmem s) HB HE bs"

definition round16 :: "nat \<Rightarrow> nat" where "round16 n = 16 * ((n + 15) div 16)"

lemma HB_HE: "HE = HB + 0x1000000" "HE < 2 ^ 64" "16 dvd HB" "0 < HB" "of_nat HB = VM_HEAP_BASE"
  "of_nat HE = VM_HEAP_BASE + VM_HEAP_SIZE"
  by (simp_all add: HB_def HE_def VM_HEAP_BASE_def VM_HEAP_SIZE_def)

lemma heap_wf_ends:
  assumes "heap_wf s bs"
  shows "chain (hmem s) HB HE bs" "heap_end s = of_nat HE" "heap_start s = of_nat HB" "span bs = 0x1000000"
  using assms HB_HE chain_span [of "hmem s" HB HE bs] by (simp_all add: heap_wf_def)

lemma round16: "n \<le> round16 n" "16 dvd round16 n" "round16 n < n + 16" "0 < n \<Longrightarrow> 16 \<le> round16 n"
proof -
  have d: "16 * ((n + 15) div 16) + (n + 15) mod 16 = n + 15" by (rule mult_div_mod_eq)
  have "(n + 15) mod 16 < 16" by simp
  then show "n \<le> round16 n" "round16 n < n + 16" using d unfolding round16_def by linarith+
  show "16 dvd round16 n" by (simp add: round16_def)
  show "0 < n \<Longrightarrow> 16 \<le> round16 n" by (simp add: round16_def)
qed

lemma need_round16:
  assumes "unat size1 \<le> 0x1000000"
  shows "unat ((size1 + 15) AND NOT 15) = round16 (unat (size1 :: u64))"
proof -
  have m: "(15 :: u64) = mask 4" by (simp add: mask_numeral)
  have "unat (size1 + 15) = unat size1 + 15" using assms by (simp add: unat_u64_add)
  then show ?thesis
    using and_not_mask_nat [of "size1 + 15" 4]
    by (simp add: m [symmetric] round16_def minus_mod_eq_mult_div)
qed

lemma first_fit_span: "first_fit k bs = Some (xs, n, ys) \<Longrightarrow> k < span bs"
  by (drule first_fit_Some) auto

text \<open>Requests the heap cannot hold: the size test in front of the search agrees with the search.\<close>

lemma first_fit_huge: "span bs = 0x1000000 \<Longrightarrow> 0x1000000 \<le> k \<Longrightarrow> first_fit k bs = None"
  using first_fit_span [of k bs] by (cases "first_fit k bs") fastforce+

definition kmalloc_fit :: "u64 \<Rightarrow> block list \<Rightarrow> (block list \<times> nat \<times> block list) option" where
  "kmalloc_fit size1 bs = (if size1 = 0 then None else first_fit (round16 (unat size1)) bs)"

text \<open>What \<^verbatim>\<open>kmalloc\<close> does to the memory: it takes the first block that fits, or nothing.\<close>

lemma kmalloc_run:
  assumes wf: "heap_wf s bs"
  shows "kmalloc size1 s = Some (Inr (case kmalloc_fit size1 bs of None \<Rightarrow> (0, s)
      | Some (xs, n, ys) \<Rightarrow> (of_nat (HB + span xs) + 16,
          kmalloc_take ((size1 + 15) AND NOT 15) (of_nat (HB + span xs)) s)))"
    "kmalloc_fit size1 bs = Some (xs, n, ys) \<Longrightarrow>
       unat ((size1 + 15) AND NOT 15) = round16 (unat size1) \<and> 0 < unat size1 \<and> first_fit (round16 (unat size1)) bs = Some (xs, n, ys)"
proof -
  let ?k = "round16 (unat size1)" and ?need = "(size1 + 15) AND NOT 15"
  note w = heap_wf_ends [OF wf]
  have big: "size1 > VM_HEAP_SIZE \<longleftrightarrow> 0x1000000 < unat size1" by (simp add: word_less_nat_alt VM_HEAP_SIZE_def)
  have nz: "heap_start s \<noteq> 0" using wf by (simp add: heap_wf_def VM_HEAP_BASE_def)
  have fit: "first_fit ?k bs = None" if "0x1000000 < unat size1"
    using first_fit_huge [OF w(4)] round16(1) [of "unat size1"] that by simp
  show "kmalloc size1 s = Some (Inr (case kmalloc_fit size1 bs of None \<Rightarrow> (0, s)
      | Some (xs, n, ys) \<Rightarrow> (of_nat (HB + span xs) + 16, kmalloc_take ?need (of_nat (HB + span xs)) s)))"
  proof (cases "size1 = 0 \<or> 0x1000000 < unat size1")
    case True
    then have "kmalloc_fit size1 bs = None" using fit by (auto simp: kmalloc_fit_def)
    then show ?thesis using True big by (auto simp: kmalloc_def)
  next
    case False
    then have "unat ?need = ?k" using need_round16 by simp
    from kmalloc_loop_spec [OF w(2) HB_HE(2) this w(1)] False show ?thesis
      using big nz unfolding kmalloc_def Let_def w(3) by (simp add: kmalloc_fit_def)
  qed
  assume f: "kmalloc_fit size1 bs = Some (xs, n, ys)"
  then have ff: "first_fit ?k bs = Some (xs, n, ys)" and s0: "0 < unat size1" 
    by (auto simp: kmalloc_fit_def unat_gt_0 split: if_splits)
  then have "unat size1 \<le> 0x1000000" using fit by fastforce
  from need_round16 [OF this] ff s0 show
    "unat ?need = ?k \<and> 0 < unat size1 \<and> first_fit ?k bs = Some (xs, n, ys)" by blast
qed

lemma kmalloc_spec:
  assumes wf: "heap_wf s bs"
  shows "kmalloc_fit size1 bs = None \<Longrightarrow> kmalloc size1 s = Some (Inr (0, s))"
    "kmalloc_fit size1 bs = Some (xs, n, ys) \<Longrightarrow>
       \<exists>s'. kmalloc size1 s = Some (Inr (of_nat (HB + span xs) + 16, s')) \<and>
         heap_wf s' (xs @ split_block (round16 (unat size1)) n @ ys) \<and>
         writes_in (hmem s) (hmem s') (HB + span xs) (HB + span xs + 16 + n)"
proof -
  let ?k = "round16 (unat size1)" and ?need = "(size1 + 15) AND NOT 15"
  note w = heap_wf_ends [OF wf] and eq = kmalloc_run(1) [OF wf, of size1]
  show "kmalloc_fit size1 bs = None \<Longrightarrow> kmalloc size1 s = Some (Inr (0, s))" by (simp add: eq)
  assume f: "kmalloc_fit size1 bs = Some (xs, n, ys)"
  note need = kmalloc_run(2) [OF wf f]
  note bs = first_fit_Some [OF conjunct2 [OF conjunct2 [OF need]]]
  have ch: "chain (hmem s) HB (HB + span xs) xs" "chain (hmem s) (HB + span xs) HE ((True, n) # ys)"
    using w(1) bs by (simp_all add: chain_append)
  let ?s' = "kmalloc_take ?need (of_nat (HB + span xs)) s"
  have t: "chain (hmem ?s') (HB + span xs) HE (split_block ?k n @ ys)"
    "writes_in (hmem s) (hmem ?s') (HB + span xs) (HB + span xs + 16 + n)"
    "heap_start ?s' = heap_start s" "heap_end ?s' = heap_end s"
    using kmalloc_take_spec [OF ch(2) HB_HE(2) conjunct1 [OF need] _ round16(2) round16(4) [OF conjunct1 [OF conjunct2 [OF need]]]]
      bs by blast+
  have le: "HB + span xs < 2 ^ 64" using ch(2) HB_HE(2) by simp
  have "chain (hmem ?s') HB (HB + span xs) xs"
    using ch(1) chain_agree [OF writes_in_agree [OF t(2)] le, of HB] by simp
  then have "heap_wf ?s' (xs @ split_block ?k n @ ys)"
    using wf t(1,3,4) by (simp add: heap_wf_def chain_append)
  then show "\<exists>s'. kmalloc size1 s = Some (Inr (of_nat (HB + span xs) + 16, s')) \<and>
      heap_wf s' (xs @ split_block ?k n @ ys) \<and>
      writes_in (hmem s) (hmem s') (HB + span xs) (HB + span xs + 16 + n)"
    using t(2) by (simp add: eq f)
qed

section \<open>Release\<close>

text \<open>The abstract release: swallow the free blocks that follow, then join a free predecessor.\<close>

fun absorb :: "nat \<Rightarrow> block list \<Rightarrow> nat \<times> block list" where
  "absorb n [] = (n, [])"
| "absorb n ((f, m) # ys) = (if f then absorb (n + (16 + m)) ys else (n, (f, m) # ys))"

fun join_prev :: "block list \<Rightarrow> nat \<Rightarrow> block list" where
  "join_prev [] n = [(True, n)]"
| "join_prev [(f, m)] n = (if f then [(True, m + (16 + n))] else [(f, m), (True, n)])"
| "join_prev (x # y # xs) n = x # join_prev (y # xs) n"

definition release :: "block list \<Rightarrow> nat \<Rightarrow> block list \<Rightarrow> block list" where
  "release xs n ys = (case absorb n ys of (n', ys') \<Rightarrow> join_prev xs n' @ ys')"

lemma join_prev_snoc: "join_prev (xs @ [(f, m)]) n = xs @ (if f then [(True, m + (16 + n))] else [(f, m), (True, n)])"
proof (induction xs)
  case (Cons x xs)
  then show ?case by (cases xs) auto
qed simp

lemma set_size_chain:
  assumes c: "chain (hmem s) b e ((f, n) # (g, m) # bs)" and e: "e < 2 ^ 64"
    and v: "unat v = n + (16 + m)"
  shows "chain (hmem (set_size (of_nat b) v s)) b e ((f, n + (16 + m)) # bs)"
    "writes_in (hmem s) (hmem (set_size (of_nat b) v s)) b (b + 16)"
proof -
  let ?m = "wr64 (hmem s) (of_nat b + 8) v"
  have h: "hdr_ok (hmem s) (of_nat b) f n" "hdr_ok (hmem s) (of_nat (b + 16 + n)) g m"
    "b + 16 + n + 16 + m \<le> e" "chain (hmem s) (b + 16 + n + 16 + m) e bs"
    using c by (simp_all del: of_nat_add)
  have b16: "b + 16 < 2 ^ 64" using h(3) e by simp
  have w: "writes_in (hmem s) ?m b (b + 16)" by (rule hdr_writes(3) [OF b16])
  have "chain ?m (b + 16 + n + 16 + m) e bs"
    using h(4) chain_agree [OF writes_in_agree [OF w] e, of "b + 16 + n + 16 + m"] by simp
  moreover have "hdr_ok ?m (of_nat b) f (n + (16 + m))" using h(1,2) v by (simp add: hdr_ok_def)
  moreover have "b + 16 + n + 16 + m = b + 16 + (n + (16 + m))" by simp
  ultimately show "chain (hmem (set_size (of_nat b) v s)) b e ((f, n + (16 + m)) # bs)"
    using h(3) by (simp add: set_size_def ac_simps)
  show "writes_in (hmem s) (hmem (set_size (of_nat b) v s)) b (b + 16)" using w by (simp add: set_size_def)
qed

lemma size_sum:
  assumes c: "chain (hmem s) b e ((f, n) # (g, m) # bs)" and e: "e < 2 ^ 64"
  shows "unat (blk_size (of_nat b) s + (16 + blk_size (of_nat (b + 16 + n)) s)) = n + (16 + m)"
proof -
  have c2: "chain (hmem s) (b + 16 + n) e ((g, m) # bs)" "b + 16 + n + 16 + m \<le> e" using c by simp_all
  have u: "unat (blk_size (of_nat b) s) = n" "unat (blk_size (of_nat (b + 16 + n)) s) = m"
    using chain_first(4) [OF c e] chain_first(4) [OF c2(1) e] by (simp_all add: blk_size_def)
  have "unat (16 + blk_size (of_nat (b + 16 + n)) s) = 16 + m"
    using u(2) c2(2) e by (subst unat_u64_add) simp_all
  then show ?thesis using u c2(2) e by (subst unat_u64_add) simp_all
qed

lemma kfree_forward_spec:
  assumes e: "e < 2 ^ 64"
  shows "heap_end s = of_nat e \<Longrightarrow> chain (hmem s) b e ((f, n) # ys) \<Longrightarrow> \<exists>s'. kfree_forward (of_nat b) s = Some (Inr s') \<and>
    chain (hmem s') b e ((f, fst (absorb n ys)) # snd (absorb n ys)) \<and> writes_in (hmem s) (hmem s') b (b + 16) \<and>
    heap_start s' = heap_start s \<and> heap_end s' = heap_end s"
proof (induction n ys arbitrary: s rule: absorb.induct)
  case (1 n)
  note cf = chain_first [OF 1(2) e]
  have "b + 16 + n = e" using cf(8) by simp
  then have "kfree_forward (of_nat b) s = Some (Inr s)"
    using 1(1) cf(5) unfolding kfree_forward.simps [of "of_nat b" s] by (simp add: blk_defs)
  then show ?case using 1(2) writes_in_refl by auto
next
  case (2 n g m ys)
  let ?N = "of_nat (b + 16 + n) :: u64"
  note cf = chain_first [OF 2(3) e]
  have c2: "chain (hmem s) (b + 16 + n) e ((g, m) # ys)" using 2(3) by simp
  note cn = chain_first [OF c2 e]
  have nx: "of_nat b + 16 + blk_size (of_nat b) s = ?N" using cf(5) by (simp add: blk_size_def)
  have lt: "\<not> ?N \<ge> heap_end s"
    using cn(1,7) 2(2) e by (simp add: word_le_nat_alt unat_of_nat_u64 del: of_nat_add)
  have fl: "blk_magic ?N s = HEAP_MAGIC" "(blk_free ?N s = 0) = (\<not> g)"
    using cn(2,3) by (auto simp: blk_defs simp del: of_nat_add split: if_splits)
  let ?v = "blk_size (of_nat b) s + (16 + blk_size ?N s)"
  let ?s = "set_size (of_nat b) ?v s"
  have step: "kfree_forward (of_nat b) s = (if g then kfree_forward (of_nat b) ?s else Some (Inr s))"
    unfolding kfree_forward.simps [of "of_nat b" s] Let_def nx using lt fl by (simp del: of_nat_add)
  show ?case
  proof (cases g)
    case False
    then show ?thesis using step 2(3) writes_in_refl by auto
  next
    case True
    note sc = set_size_chain [OF 2(3) e size_sum [OF 2(3) e]]
    have ends: "heap_end ?s = of_nat e" "heap_start ?s = heap_start s" "heap_end ?s = heap_end s" 
      using 2(2) by (simp_all add: set_size_def)
    from 2(1) [OF True ends(1) sc(1)] obtain s' where
      s': "kfree_forward (of_nat b) ?s = Some (Inr s')"
      "chain (hmem s') b e ((f, fst (absorb (n + (16 + m)) ys)) # snd (absorb (n + (16 + m)) ys))"
      "writes_in (hmem ?s) (hmem s') b (b + 16)" "heap_start s' = heap_start s" "heap_end s' = heap_end s"
      using ends by auto
    then show ?thesis using True step writes_in_trans [OF sc(2) s'(3)] by auto
  qed
qed

text \<open>The walk to the predecessor: the last block of a nonempty prefix.\<close>

lemma kfree_prev_spec:
  assumes e: "a + span xs < 2 ^ 64"
  shows "chain (hmem s) a (a + span xs) xs \<Longrightarrow> kfree_prev (of_nat (a + span xs)) p (of_nat a) s =
    Some (if xs = [] then p else of_nat (a + span (butlast xs)))"
  using e
proof (induction xs arbitrary: a p)
  case Nil
  then show ?case by (simp add: kfree_prev.simps)
next
  case (Cons x xs)
  obtain f n where x: "x = (f, n)" by force
  let ?e = "a + span (x # xs)"
  have sp: "?e = a + 16 + n + span xs" by (simp add: x)
  note cf = chain_first [OF Cons.prems(1) [unfolded x] Cons.prems(2) [unfolded x]]
  have lt: "of_nat a < (of_nat ?e :: u64)"
    using cf(1,7) Cons.prems(2) by (simp add: word_less_nat_alt unat_of_nat_u64 x del: of_nat_add)
  have nx: "of_nat a + 16 + blk_size (of_nat a) s = of_nat (a + 16 + n)" using cf(5) by (simp add: blk_size_def)
  have ch: "chain (hmem s) (a + 16 + n) (a + 16 + n + span xs) xs" using Cons.prems(1) by (simp add: x add.assoc)
  have "kfree_prev (of_nat ?e) p (of_nat a) s = kfree_prev (of_nat ?e) (of_nat a) (of_nat (a + 16 + n)) s"
    using lt by (simp add: kfree_prev.simps [of _ p] nx del: of_nat_add)
  also have "\<dots> = Some (if xs = [] then of_nat a else of_nat (a + 16 + n + span (butlast xs)))"
    using Cons.IH [OF ch] Cons.prems(2) unfolding sp by blast
  finally show ?case by (simp add: x add.assoc)
qed

lemma set_free_chain:
  assumes c: "chain (hmem s) b e ((False, n) # ys)" and e: "e < 2 ^ 64"
  shows "chain (hmem (set_free (of_nat b) 1 s)) b e ((True, n) # ys)"
    "writes_in (hmem s) (hmem (set_free (of_nat b) 1 s)) b (b + 16)"
proof -
  have h: "hdr_ok (hmem s) (of_nat b) False n" "b + 16 + n \<le> e" "chain (hmem s) (b + 16 + n) e ys" using c by simp_all
  have b16: "b + 16 < 2 ^ 64" using h(2) e by simp
  show w: "writes_in (hmem s) (hmem (set_free (of_nat b) 1 s)) b (b + 16)"
    using hdr_writes(2) [OF b16] by (simp add: set_free_def)
  have "chain (hmem (set_free (of_nat b) 1 s)) (b + 16 + n) e ys"
    using h(3) chain_agree [OF writes_in_agree [OF w] e, of "b + 16 + n"] by simp
  then show "chain (hmem (set_free (of_nat b) 1 s)) b e ((True, n) # ys)"
    using h(1,2) by (simp add: set_free_def hdr_ok_def)
qed

text \<open>The bytes a release may touch: the header of the block, or of the free block before it.\<close>

definition release_from :: "block list \<Rightarrow> nat" where
  "release_from xs = (if xs \<noteq> [] \<and> fst (last xs) then HB + span (butlast xs) else HB + span xs)"

lemma heap_wf_parts:
  assumes "heap_wf s (xs @ (f, n) # ys)"
  shows "chain (hmem s) HB (HB + span xs) xs" "chain (hmem s) (HB + span xs) HE ((f, n) # ys)"
    "HB + span xs + 16 + n \<le> HE" "unat (of_nat (HB + span xs) :: u64) = HB + span xs"
    "of_nat (HB + span xs) + 16 \<noteq> (0 :: u64)"
proof -
  show c: "chain (hmem s) HB (HB + span xs) xs" "chain (hmem s) (HB + span xs) HE ((f, n) # ys)"
    using heap_wf_ends(1) [OF assms] by (simp_all add: chain_append)
  then show le: "HB + span xs + 16 + n \<le> HE" by simp
  show u: "unat (of_nat (HB + span xs) :: u64) = HB + span xs" by (rule chain_first(1) [OF c(2) HB_HE(2)])
  have "unat (of_nat (HB + span xs) + 16 :: u64) = HB + span xs + 16"
    using u le HB_HE(2) by (subst unat_u64_add) simp_all
  then show "of_nat (HB + span xs) + 16 \<noteq> (0 :: u64)" by (metis add_is_0 unat_0 zero_neq_numeral)
qed

text \<open>The part of a release that comes after the tests.\<close>

lemma kfree_merge:
  assumes wf: "heap_wf s (xs @ (False, n) # ys)"
  defines "b \<equiv> of_nat (HB + span xs) :: u64"
  obtains s1 where "kfree_forward b (set_free b 1 s) = Some (Inr s1)"
    "chain (hmem s1) HB (HB + span xs) xs"
    "chain (hmem s1) (HB + span xs) HE ((True, fst (absorb n ys)) # snd (absorb n ys))"
    "writes_in (hmem s) (hmem s1) (HB + span xs) (HB + span xs + 16)"
    "heap_start s1 = heap_start s" "heap_end s1 = heap_end s"
    "kfree_prev b 0 (heap_start s1) s1 = Some (if xs = [] then 0 else of_nat (HB + span (butlast xs)))"
proof -
  note p = heap_wf_parts [OF wf]
  note f = set_free_chain [OF p(2) HB_HE(2)]
  have he: "heap_end (set_free b 1 s) = of_nat HE" "heap_start (set_free b 1 s) = heap_start s"
    "heap_end (set_free b 1 s) = heap_end s" "heap_start s = of_nat HB"
    using heap_wf_ends [OF wf] by (simp_all add: set_free_def)
  from kfree_forward_spec [OF HB_HE(2) he(1) f(1) [folded b_def]] obtain s1 where
    s1: "kfree_forward b (set_free b 1 s) = Some (Inr s1)"
    "chain (hmem s1) (HB + span xs) HE ((True, fst (absorb n ys)) # snd (absorb n ys))"
    "writes_in (hmem (set_free b 1 s)) (hmem s1) (HB + span xs) (HB + span xs + 16)"
    "heap_start s1 = heap_start s" "heap_end s1 = heap_end s"
    using he unfolding b_def by auto
  have lt: "HB + span xs < 2 ^ 64" using p(3) HB_HE(2) by simp
  have w: "writes_in (hmem s) (hmem s1) (HB + span xs) (HB + span xs + 16)"
    by (rule writes_in_trans [OF f(2) [folded b_def] s1(3)])
  have c: "chain (hmem s1) HB (HB + span xs) xs"
    using p(1) chain_agree [OF writes_in_agree [OF w] lt, of HB] by simp
  show thesis
    by (rule that [OF s1(1) c s1(2) w s1(4,5)])
      (use kfree_prev_spec [OF lt c, of 0] in \<open>simp add: s1(4) he(4) b_def\<close>)
qed

text \<open>The join with the block before, after the walk has found it.\<close>

definition join_at :: "block list \<Rightarrow> heap_st \<Rightarrow> heap_st" where
  "join_at xs s =
     (let b = of_nat (HB + span xs); prev = (if xs = [] then 0 else of_nat (HB + span (butlast xs)))
      in if prev \<noteq> 0 \<and> blk_free prev s \<noteq> 0 then set_size prev (blk_size prev s + (16 + blk_size b s)) s else s)"

lemma join_at_spec:
  assumes wf: "heap_wf s (xs @ (True, n) # ys)"
  shows "heap_wf (join_at xs s) (join_prev xs n @ ys) \<and>
    writes_in (hmem s) (hmem (join_at xs s)) (release_from xs) (HB + span xs)"
proof (cases xs rule: rev_cases)
  case Nil
  then show ?thesis using wf by (simp add: join_at_def writes_in_refl)
next
  case (snoc zs z)
  obtain f m where z: "z = (f, m)" by force
  have b: "HB + span xs = HB + span zs + 16 + m" by (simp add: snoc z)
  have wf2: "heap_wf s (zs @ (f, m) # (True, n) # ys)" using wf by (simp add: snoc z)
  note q = heap_wf_parts [OF wf2] and cq = chain_first [OF heap_wf_parts(2) [OF wf2] HB_HE(2)]
  let ?P = "of_nat (HB + span zs) :: u64"
  have P0: "?P \<noteq> 0" using q(4) HB_HE(4) by (metis add_is_0 less_numeral_extra(3) unat_0)
  have fr: "(blk_free ?P s \<noteq> 0) = f" using cq(3) by (simp add: blk_free_def)
  show ?thesis
  proof (cases f)
    case False
    then have "join_at xs s = s" using fr by (simp add: join_at_def snoc del: of_nat_add)
    then show ?thesis using False wf2 by (simp add: snoc z join_prev_snoc writes_in_refl)
  next
    case True
    note sc = set_size_chain [OF q(2) HB_HE(2) size_sum [OF q(2) HB_HE(2)]]
    have s2: "join_at xs s = set_size ?P (blk_size ?P s + (16 + blk_size (of_nat (HB + span zs + 16 + m)) s)) s"
      (is "_ = ?s2") using True fr P0 unfolding join_at_def b by (simp add: snoc Let_def del: of_nat_add)
    have lt: "HB + span zs < 2 ^ 64" using q(3) HB_HE(2) by simp
    have "chain (hmem ?s2) HB (HB + span zs) zs"
      using q(1) chain_agree [OF writes_in_agree [OF sc(2)] lt, of HB] by simp
    then have "heap_wf ?s2 (zs @ (f, m + (16 + n)) # ys)"
      using wf2 sc(1) by (simp add: heap_wf_def chain_append) (simp add: set_size_def)
    moreover have "writes_in (hmem s) (hmem ?s2) (HB + span zs) (HB + span xs)"
      by (rule writes_in_mono [OF sc(2)]) (simp_all add: b)
    ultimately show ?thesis
      using True unfolding s2 by (simp add: snoc z join_prev_snoc release_from_def)
  qed
qed

text \<open>What \<^verbatim>\<open>kfree\<close> does to the memory: the mark, the merge with what follows, the join with what comes before.\<close>

lemma kfree_run:
  assumes wf: "heap_wf s (xs @ (False, n) # ys)"
  defines "b \<equiv> of_nat (HB + span xs) :: u64"
  obtains s1 where "kfree (b + 16) s = Some (Inr (join_at xs s1))" "kfree_forward b (set_free b 1 s) = Some (Inr s1)"
    "heap_wf s1 (xs @ (True, fst (absorb n ys)) # snd (absorb n ys))"
    "chain (hmem s1) (HB + span xs) HE ((True, fst (absorb n ys)) # snd (absorb n ys))"
    "writes_in (hmem s) (hmem s1) (HB + span xs) (HB + span xs + 16)"
proof -
  note p = heap_wf_parts [OF wf, folded b_def] and cf = chain_first [OF heap_wf_parts(2) [OF wf] HB_HE(2), folded b_def]
  have rng: "\<not> (b < heap_start s \<or> heap_end s \<le> b)"
    using p(3,4) HB_HE(2) heap_wf_ends(2,3) [OF wf]
    by (simp add: word_less_nat_alt word_le_nat_alt unat_of_nat_u64 del: of_nat_add)
  have fl: "blk_magic b s = HEAP_MAGIC" "blk_free b s = 0" using cf(2,3) by (simp_all add: blk_defs)
  obtain s1 where s1: "kfree_forward b (set_free b 1 s) = Some (Inr s1)"
    "chain (hmem s1) HB (HB + span xs) xs"
    "chain (hmem s1) (HB + span xs) HE ((True, fst (absorb n ys)) # snd (absorb n ys))"
    "writes_in (hmem s) (hmem s1) (HB + span xs) (HB + span xs + 16)"
    "heap_start s1 = heap_start s" "heap_end s1 = heap_end s"
    "kfree_prev b 0 (heap_start s1) s1 = Some (if xs = [] then 0 else of_nat (HB + span (butlast xs)))"
    unfolding b_def by (rule kfree_merge [OF wf])
  have run: "kfree (b + 16) s = Some (Inr (join_at xs s1))"
    using rng fl s1(1,7) p(5) unfolding kfree_def Let_def join_at_def b_def by (simp del: of_nat_add)
  have "heap_wf s1 (xs @ (True, fst (absorb n ys)) # snd (absorb n ys))"
    using wf s1(2,3,5,6) by (simp add: heap_wf_def chain_append)
  then show thesis using that run s1(1,3,4) by blast
qed

lemma kfree_spec:
  assumes wf: "heap_wf s (xs @ (False, n) # ys)"
  shows "\<exists>s'. kfree (of_nat (HB + span xs) + 16) s = Some (Inr s') \<and> heap_wf s' (release xs n ys) \<and>
    writes_in (hmem s) (hmem s') (release_from xs) (HB + span xs + 16) \<and>
    hdr_ok (hmem s') (of_nat (HB + span xs)) True (fst (absorb n ys))"
proof -
  let ?b = "of_nat (HB + span xs) :: u64"
  note p = heap_wf_parts [OF wf]
  obtain s1 where run: "kfree (?b + 16) s = Some (Inr (join_at xs s1))"
    and s1: "heap_wf s1 (xs @ (True, fst (absorb n ys)) # snd (absorb n ys))"
    "chain (hmem s1) (HB + span xs) HE ((True, fst (absorb n ys)) # snd (absorb n ys))"
    "writes_in (hmem s) (hmem s1) (HB + span xs) (HB + span xs + 16)"
    by (rule kfree_run [OF wf])
  note j = join_at_spec [OF s1(1)]
  have lt: "HB + span xs + 16 < 2 ^ 64" using p(3) HB_HE(2) by simp
  have "release_from xs \<le> HB + span xs"
    by (cases xs rule: rev_cases) (auto simp: release_from_def)
  then have "writes_in (hmem s) (hmem (join_at xs s1)) (release_from xs) (HB + span xs + 16)"
    by (intro writes_in_trans [OF writes_in_mono [OF s1(3)] writes_in_mono [OF conjunct2 [OF j]]]) auto
  moreover have "hdr_ok (hmem (join_at xs s1)) ?b True (fst (absorb n ys))"
    using s1(2) hdr_ok_agree [OF writes_in_agree [OF conjunct2 [OF j], of "HB + span xs + 16" "HB + span xs"] lt] by simp
  ultimately show ?thesis using run j by (auto simp: release_def case_prod_beta)
qed

text \<open>The sum of the free payloads.\<close>

definition free_sum :: "block list \<Rightarrow> nat" where
  "free_sum bs = (\<Sum>(f, n) \<leftarrow> bs. if f then n else 0)"

lemma heap_free_loop_spec:
  assumes e: "heap_end s = of_nat e" "e < 2 ^ 64"
  shows "chain (hmem s) b e bs \<Longrightarrow> heap_free_loop acc (of_nat b) s = Some (Inr (acc + of_nat (free_sum bs)))"
proof (induction bs arbitrary: b acc)
  case Nil
  then show ?case using e(1) by (simp add: heap_free_loop.simps free_sum_def)
next
  case (Cons x bs)
  obtain f n where x: "x = (f, n)" by force
  note c = chain_first [OF Cons.prems [unfolded x] e(2)]
  have ue: "unat (heap_end s) = e" using e by (simp add: unat_of_nat_u64)
  have lt: "of_nat b < heap_end s" using c(1,7) ue by (simp add: word_less_nat_alt)
  have sz: "blk_size (of_nat b) s = of_nat n" using c(4) by (auto simp: blk_defs)
  have flds: "blk_magic (of_nat b) s = HEAP_MAGIC" "(blk_free (of_nat b) s \<noteq> 0) = f"
    "of_nat b + 16 + blk_size (of_nat b) s = of_nat (b + 16 + n)"
    using c(2,3,5) by (auto simp: blk_defs split: if_splits)
  have nx: "(heap_end s \<le> of_nat (b + 16 + n)) = (bs = [])"
    using c(6,8) ue Cons.prems x by (simp add: word_le_nat_alt del: of_nat_add) auto
  have "heap_free_loop acc (of_nat b) s = (let acc1 = (if f then acc + of_nat n else acc) in
      if bs = [] then Some (Inr acc1) else heap_free_loop acc1 (of_nat (b + 16 + n)) s)"
    unfolding heap_free_loop.simps [of acc "of_nat b"] Let_def flds(3) nx using lt flds(1,2) sz by simp
  moreover have "free_sum (x # bs) = (if f then n else 0) + free_sum bs" by (simp add: free_sum_def x)
  moreover have "free_sum [] = 0" by (simp add: free_sum_def)
  moreover have "chain (hmem s) (b + 16 + n) e bs" using Cons.prems x by simp
  ultimately show ?case using Cons.IH [of "b + 16 + n"]
    by (cases "bs = []") (simp_all add: Let_def add.assoc)
qed

end
