(* ===== verification/Heap_Client.thy ===== *)
theory Heap_Client
  imports Heap
begin

text \<open>
  What the kernel heap (theory \<^verbatim>\<open>Heap\<close>) promises to its clients.  The abstract view of a heap is the set of live
  allocations, pairs of a payload address and a payload size.  The locale \<^verbatim>\<open>byte_heap\<close> is the contract between an
  allocator and code that calls it; a client that stays inside what it was given is a run of \<^verbatim>\<open>client\<close>, and inside
  the locale such runs are shown to be safe.  \<^verbatim>\<open>kmalloc\<close> and \<^verbatim>\<open>kfree\<close> are shown to keep the contract.
\<close>

section \<open>Live allocations\<close>

fun live :: "nat \<Rightarrow> block list \<Rightarrow> (nat \<times> nat) list" where
  "live a [] = []"
| "live a ((f, n) # bs) = (if f then [] else [(a + 16, n)]) @ live (a + 16 + n) bs"

definition merged :: "block list \<Rightarrow> bool" where
  "merged bs \<longleftrightarrow> successively (\<lambda>x y. \<not> (fst x \<and> fst y)) bs"

definition heap_live :: "heap_st \<Rightarrow> (nat \<times> nat) set \<Rightarrow> bool" where
  "heap_live s V \<longleftrightarrow> (\<exists>bs. heap_wf s bs \<and> merged bs \<and> V = set (live HB bs))"

lemma live_append: "live a (xs @ ys) = live a xs @ live (a + span xs) ys"
  by (induction xs arbitrary: a) (auto simp: add.assoc)

lemma live_range: "(p, n) \<in> set (live a bs) \<Longrightarrow> a + 16 \<le> p \<and> p + n \<le> a + span bs"
  by (induction a bs rule: live.induct) (auto split: if_splits)

lemma live_disjoint:
  "(p, n) \<in> set (live a bs) \<Longrightarrow> (q, m) \<in> set (live a bs) \<Longrightarrow> (p, n) \<noteq> (q, m) \<Longrightarrow> p + n + 16 \<le> q \<or> q + m + 16 \<le> p"
proof (induction a bs rule: live.induct)
  case (2 a f k bs)
  then show ?case using live_range [of _ _ "a + 16 + k" bs] by (fastforce split: if_splits)
qed simp

lemma live_block:
  "(p, n) \<in> set (live a bs) \<longleftrightarrow> (\<exists>xs ys. bs = xs @ (False, n) # ys \<and> p = a + span xs + 16)"
proof (induction bs arbitrary: a)
  case (Cons x bs)
  obtain f k where x: "x = (f, k)" by force
  have "(\<exists>xs ys. x # bs = xs @ (False, n) # ys \<and> p = a + span xs + 16) \<longleftrightarrow>
      (x = (False, n) \<and> p = a + 16) \<or> (\<exists>xs ys. bs = xs @ (False, n) # ys \<and> p = a + 16 + k + span xs + 16)"
    (is "?L \<longleftrightarrow> ?A \<or> ?B")
  proof
    assume ?L
    then obtain xs ys where "x # bs = xs @ (False, n) # ys" "p = a + span xs + 16" by blast
    then show "?A \<or> ?B" by (cases xs) (auto simp: x add.assoc)
  next
    assume "?A \<or> ?B"
    then show ?L
    proof
      assume ?A then show ?L by (intro exI [of _ "[]"] exI [of _ bs]) simp
    next
      assume ?B
      then obtain xs ys where "bs = xs @ (False, n) # ys" "p = a + 16 + k + span xs + 16" by blast
      then show ?L by (intro exI [of _ "x # xs"] exI [of _ ys]) (simp add: x)
    qed
  qed
  then show ?case using Cons [of "a + 16 + k"] by (auto simp: x)
qed simp

lemma merged_Nil [simp]: "merged []"
  by (simp add: merged_def)

lemma merged_append:
  "merged (xs @ ys) \<longleftrightarrow> merged xs \<and> merged ys \<and> (xs = [] \<or> ys = [] \<or> \<not> (fst (last xs) \<and> fst (hd ys)))"
  by (auto simp: merged_def successively_append_iff)

lemma merged_Cons: "merged (x # ys) \<longleftrightarrow> merged ys \<and> (ys = [] \<or> \<not> (fst x \<and> fst (hd ys)))"
  by (cases ys) (auto simp: merged_def)

section \<open>What the operations do to the live allocations\<close>

lemma live_split: "live a (split_block k n) = [(a + 16, if 32 \<le> n - k then k else n)]"
  by (simp add: split_block_def)

lemma span_split: "k \<le> n \<Longrightarrow> span (split_block k n) = 16 + n"
  by (auto simp: split_block_def)

lemma merged_split: "merged (xs @ (True, n) # ys) \<Longrightarrow> merged (xs @ split_block k n @ ys)"
  by (auto simp: merged_append merged_Cons split_block_def)

lemma absorb_live: "absorb n ys = (n', ys') \<Longrightarrow> live (a + n) ys = live (a + n') ys'"
  by (induction n ys rule: absorb.induct) (auto split: if_splits simp: add.assoc)

lemma absorb_merged:
  "absorb n ys = (n', ys') \<Longrightarrow> merged ys \<Longrightarrow> merged ys' \<and> (ys' = [] \<or> \<not> fst (hd ys'))"
  by (induction n ys rule: absorb.induct) (auto split: if_splits simp: merged_Cons)

lemma join_prev_live: "live a (join_prev xs n) = live a xs \<and> span (join_prev xs n) = span xs + 16 + n"
  by (cases xs rule: rev_cases) (auto simp: join_prev_snoc live_append)

lemma join_prev_merged: "merged xs \<Longrightarrow> merged (join_prev xs n) \<and> join_prev xs n \<noteq> []"
  by (cases xs rule: rev_cases) (auto simp: join_prev_snoc merged_append merged_Cons split: if_splits)

lemma release_live: "live HB (release xs n ys) = live HB xs @ live (HB + span xs + 16 + n) ys"
  using absorb_live [of n ys _ _ "HB + span xs + 16"]
  by (auto simp: release_def live_append join_prev_live add.assoc split: prod.split)

lemma release_merged:
  assumes "merged (xs @ (False, n) # ys)"
  shows "merged (release xs n ys)"
proof -
  obtain n' ys' where a: "absorb n ys = (n', ys')" by force
  have m: "merged xs" "merged ys" using assms by (simp_all add: merged_append merged_Cons)
  show ?thesis
    using join_prev_merged [OF m(1)] absorb_merged [OF a m(2)] by (auto simp: release_def a merged_append)
qed

text \<open>A fresh block, and a block that is no longer live.\<close>

lemma live_apart:
  assumes "(p, m) \<in> set (live HB (xs @ (f, n) # ys))" "\<not> f \<Longrightarrow> (p, m) \<noteq> (HB + span xs + 16, n)"
  shows "p + m \<le> HB + span xs \<or> HB + span xs + 16 + n \<le> p"
  using assms live_range [of p m HB xs] live_range [of p m "HB + span xs + 16 + n" ys]
  by (auto simp: live_append split: if_splits)

lemma chain_aligned: "chain m a e bs \<Longrightarrow> 16 dvd span bs"
  by (induction m a e bs rule: chain.induct) (auto simp: hdr_ok_def)

lemma block_aligned:
  assumes "heap_wf s (xs @ ys)"
  shows "16 dvd HB + span xs"
  using chain_aligned [of "hmem s" HB _ xs] heap_wf_ends(1) [OF assms] HB_HE(3) by (auto simp: chain_append)

lemma heap_live_range:
  assumes "heap_live s V" "(p, n) \<in> V"
  shows "HB + 16 \<le> p" "p + n \<le> HE" "16 dvd p" "16 \<le> n"
proof -
  obtain bs where bs: "heap_wf s bs" "(p, n) \<in> set (live HB bs)" using assms by (auto simp: heap_live_def)
  note w = heap_wf_ends [OF bs(1)]
  show "HB + 16 \<le> p" "p + n \<le> HE" using live_range [OF bs(2)] w(4) HB_HE(1) by auto
  from bs(2) obtain xs ys where x: "bs = xs @ (False, n) # ys" "p = HB + span xs + 16" by (auto simp: live_block)
  have c: "chain (hmem s) HB (HB + span xs) xs" "hdr_ok (hmem s) (of_nat (HB + span xs)) False n"
    using w(1) by (simp_all add: x chain_append)
  from chain_aligned [OF c(1)] show "16 dvd p" using HB_HE(3) by (simp add: x dvd_add)
  show "16 \<le> n" using c(2) by (simp add: hdr_ok_def)
qed

lemma kmalloc_live:
  assumes "heap_live s V"
  shows "(\<exists>s'. kmalloc size1 s = Some (Inr (0, s')) \<and> heap_live s' V) \<or>
    (\<exists>p n s'. kmalloc size1 s = Some (Inr (p, s')) \<and> p \<noteq> 0 \<and> 0 < size1 \<and> unat size1 \<le> n \<and>
       (\<forall>(q, m) \<in> V. q + m \<le> unat p - 16 \<or> unat p + n \<le> q) \<and> heap_live s' (insert (unat p, n) V) \<and>
       (\<forall>(q, m) \<in> V. agree (hmem s) (hmem s') q (q + m)))"
proof -
  obtain bs where bs: "heap_wf s bs" "merged bs" "V = set (live HB bs)" using assms by (auto simp: heap_live_def)
  show ?thesis
  proof (cases "kmalloc_fit size1 bs")
    case None
    then show ?thesis using kmalloc_spec(1) [OF bs(1) None] assms by blast
  next
    case (Some w)
    obtain xs n ys where fit: "kmalloc_fit size1 bs = Some (xs, n, ys)" using Some by (cases w) auto
    let ?k = "round16 (unat size1)" and ?b = "HB + span xs"
    from fit have f: "bs = xs @ (True, n) # ys" "?k \<le> n" and s0: "0 < size1"
      using first_fit_Some by (auto simp: kmalloc_fit_def word_neq_0_conv split: if_splits)
    from kmalloc_spec(2) [OF bs(1) fit] obtain s' where
      s': "kmalloc size1 s = Some (Inr (of_nat ?b + 16, s'))" "heap_wf s' (xs @ split_block ?k n @ ys)"
        "writes_in (hmem s) (hmem s') ?b (?b + 16 + n)" by blast
    note p = heap_wf_parts [OF bs(1) [unfolded f(1)]]
    have up: "unat (of_nat ?b + 16 :: u64) = ?b + 16" using p(3,4) HB_HE(2) by (subst unat_u64_add) simp_all
    let ?n = "if 32 \<le> n - ?k then ?k else n"
    have ap: "q + m \<le> ?b \<or> ?b + 16 + n \<le> q" if "(q, m) \<in> V" for q m
      by (rule live_apart) (use that bs(3) f(1) in auto)
    have "set (live HB (xs @ split_block ?k n @ ys)) = insert (?b + 16, ?n) V"
      using span_split [OF f(2)] by (auto simp: bs(3) f(1) live_append live_split add.assoc)
    then have "heap_live s' (insert (?b + 16, ?n) V)"
      using s'(2) merged_split bs(2) unfolding heap_live_def f(1) by metis
    moreover have "unat size1 \<le> ?n" "?n \<le> n" using round16(1) [of "unat size1"] f(2) by auto
    moreover have "\<forall>(q, m) \<in> V. agree (hmem s) (hmem s') q (q + m)"
      using ap writes_in_agree [OF s'(3)] by blast
    moreover have "\<forall>(q, m) \<in> V. q + m \<le> ?b \<or> ?b + 16 + ?n \<le> q" using ap \<open>?n \<le> n\<close> by force
    ultimately show ?thesis
      using s'(1) s0 p(5) up by (intro disjI2 exI [of _ "of_nat ?b + 16"] exI [of _ ?n] exI [of _ s']) simp
  qed
qed

lemma kfree_live:
  assumes "heap_live s V" "(unat p, n) \<in> V"
  shows "\<exists>s'. kfree p s = Some (Inr s') \<and> heap_live s' (V - {(unat p, n)}) \<and>
    (\<forall>(q, m) \<in> V - {(unat p, n)}. agree (hmem s) (hmem s') q (q + m))"
proof -
  obtain bs where bs: "heap_wf s bs" "merged bs" "V = set (live HB bs)" using assms(1) by (auto simp: heap_live_def)
  obtain xs ys where x: "bs = xs @ (False, n) # ys" "unat p = HB + span xs + 16"
    using assms(2) by (auto simp: bs(3) live_block)
  from x(2) have p: "p = of_nat (HB + span xs) + 16" by (metis of_nat_add of_nat_numeral of_nat_unat ucast_id)
  from kfree_spec [OF bs(1) [unfolded x(1)]] obtain s' where
    s': "kfree p s = Some (Inr s')" "heap_wf s' (release xs n ys)"
      "writes_in (hmem s) (hmem s') (release_from xs) (HB + span xs + 16)" unfolding p by blast
  have V: "V = insert (HB + span xs + 16, n) (set (live HB (release xs n ys)))"
    by (auto simp: bs(3) x(1) live_append release_live)
  have "(HB + span xs + 16, n) \<notin> set (live HB (release xs n ys))"
    using live_range [of "HB + span xs + 16" n HB xs] live_range [of "HB + span xs + 16" n "HB + span xs + 16 + n" ys]
    by (auto simp: release_live)
  then have V': "V - {(unat p, n)} = set (live HB (release xs n ys))" using V x(2) by auto
  have "agree (hmem s) (hmem s') q (q + m)" if qm: "(q, m) \<in> V - {(unat p, n)}" for q m
  proof -
    have "q + m \<le> release_from xs \<or> HB + span xs + 16 + n \<le> q"
    proof (cases "(q, m) \<in> set (live HB xs)")
      case True
      then show ?thesis
        using live_range [of q m HB xs] live_range [of q m HB "butlast xs"] append_butlast_last_id [of xs]
        by (cases xs rule: rev_cases) (auto simp: release_from_def live_append split: if_splits)
    next
      case False
      then show ?thesis using qm live_range [of q m "HB + span xs + 16 + n" ys] by (auto simp: V' release_live)
    qed
    then show ?thesis using writes_in_agree [OF s'(3)] by force
  qed
  then show ?thesis using s'(1,2) release_merged bs(2) x(1) V' by (auto simp: heap_live_def)
qed

text \<open>A client's own store: one byte of memory.\<close>

definition heap_store :: "u64 \<Rightarrow> u8 \<Rightarrow> heap_st \<Rightarrow> heap_st" where
  "heap_store x v s = s\<lparr>hmem := (hmem s)(x := v)\<rparr>"

text \<open>The block list does not depend on the bytes of a payload.\<close>

lemma payload_wf:
  assumes wf: "heap_wf s (xs @ (f, n) # ys)" and w: "writes_in (hmem s) m (HB + span xs + 16) (HB + span xs + 16 + n)"
  shows "heap_wf (s\<lparr>hmem := m\<rparr>) (xs @ (f, n) # ys)"
proof -
  let ?b = "HB + span xs"
  note h = heap_wf_parts [OF wf]
  have lt: "?b + 16 < 2 ^ 64" "?b < 2 ^ 64" using h(3) HB_HE(2) by simp_all
  have "chain m HB ?b xs" using h(1) chain_agree [OF writes_in_agree [OF w] lt(2), of HB] by simp
  moreover have "hdr_ok m (of_nat ?b) f n"
    using h(2) hdr_ok_agree [OF writes_in_agree [OF w, of "?b + 16" ?b] lt(1)] by simp
  moreover have "chain m (?b + 16 + n) HE ys"
    using h(2) chain_agree [OF writes_in_agree [OF w] HB_HE(2), of "?b + 16 + n"] by simp
  ultimately have "chain m HB HE (xs @ (f, n) # ys)" using h(3) by (simp add: chain_append)
  then show ?thesis using wf by (simp add: heap_wf_def)
qed

lemma store_live:
  assumes "heap_live s V" "(unat p, n) \<in> V" "unat i < n"
  shows "heap_live (heap_store (p + i) v s) V"
proof -
  obtain bs where bs: "heap_wf s bs" "merged bs" "V = set (live HB bs)" using assms(1) by (auto simp: heap_live_def)
  obtain xs ys where x: "bs = xs @ (False, n) # ys" "unat p = HB + span xs + 16"
    using assms(2) by (auto simp: bs(3) live_block)
  have u: "unat (p + i) = unat p + unat i"
    using heap_wf_parts(3) [OF bs(1) [unfolded x(1)]] HB_HE(2) assms(3) x(2) by (intro unat_u64_add) simp
  have "writes_in (hmem s) ((hmem s)(p + i := v)) (HB + span xs + 16) (HB + span xs + 16 + n)"
    using u assms(3) x(2) by (auto simp: writes_in_def)
  from payload_wf [OF bs(1) [unfolded x(1)] this] show ?thesis
    using bs(2,3) x(1) by (auto simp: heap_live_def heap_store_def)
qed

lemma heap_init_wf: "heap_wf (snd (heap_init s)) [(True, 0xFFFFF0)]"
proof -
  let ?b = "of_nat HB :: u64"
  have b: "?b = VM_HEAP_BASE" by (rule HB_HE(5))
  let ?m = "wr64 (wr32 (wr32 (hmem s) ?b HEAP_MAGIC) (?b + 4) 1) (?b + 8) (VM_HEAP_SIZE - 16)"
  have "hdr_ok ?m ?b True 0xFFFFF0" by (rule hdr_new) (simp_all add: VM_HEAP_SIZE_def)
  then show ?thesis
    using HB_HE(1) by (simp add: heap_wf_def heap_init_def Let_def blk_defs b)
qed

lemma heap_init_live: "heap_live (snd (heap_init s)) {}"
  using heap_init_wf unfolding heap_live_def by (intro exI [of _ "[(True, 0xFFFFF0)]"]) (simp add: merged_Cons)

section \<open>The contract and its clients\<close>

text \<open>
  A client may allocate, release a pointer it holds, and store into the bytes it asked for.  Its map gives the
  requested size of every pointer it holds.
\<close>

inductive client :: "('s \<Rightarrow> bool) \<Rightarrow> (u64 \<Rightarrow> 's \<Rightarrow> (u64 \<times> 's) heap_res) \<Rightarrow> (u64 \<Rightarrow> 's \<Rightarrow> 's heap_res) \<Rightarrow>
    (u64 \<Rightarrow> u8 \<Rightarrow> 's \<Rightarrow> 's) \<Rightarrow> 's \<Rightarrow> (u64 \<rightharpoonup> u64) \<Rightarrow> bool"
  for init alloc free store where
  start: "init s \<Longrightarrow> client init alloc free store s Map.empty"
| take: "client init alloc free store s L \<Longrightarrow> alloc n s = Some (Inr (p, s')) \<Longrightarrow> p \<noteq> 0 \<Longrightarrow>
    client init alloc free store s' (L(p \<mapsto> n))"
| full: "client init alloc free store s L \<Longrightarrow> alloc n s = Some (Inr (0, s')) \<Longrightarrow> client init alloc free store s' L"
| give: "client init alloc free store s L \<Longrightarrow> L p = Some n \<Longrightarrow> free p s = Some (Inr s') \<Longrightarrow>
    client init alloc free store s' (L(p := None))"
| put: "client init alloc free store s L \<Longrightarrow> L p = Some n \<Longrightarrow> i < n \<Longrightarrow> client init alloc free store (store (p + i) v s) L"

locale byte_heap =
  fixes init :: "'s \<Rightarrow> bool"
    and alloc :: "u64 \<Rightarrow> 's \<Rightarrow> (u64 \<times> 's) heap_res"
    and free :: "u64 \<Rightarrow> 's \<Rightarrow> 's heap_res"
    and store :: "u64 \<Rightarrow> u8 \<Rightarrow> 's \<Rightarrow> 's"
    and view :: "'s \<Rightarrow> (nat \<times> nat) set \<Rightarrow> bool"
    and lo :: nat and hi :: nat
  assumes init_view: "init s \<Longrightarrow> view s {}"
    and view_range: "view s V \<Longrightarrow> (a, n) \<in> V \<Longrightarrow> lo \<le> a \<and> a + n \<le> hi \<and> 16 dvd a \<and> 0 < n"
    and view_apart: "view s V \<Longrightarrow> (a, n) \<in> V \<Longrightarrow> (b, m) \<in> V \<Longrightarrow> (a, n) \<noteq> (b, m) \<Longrightarrow> a + n \<le> b \<or> b + m \<le> a"
    and alloc_view: "view s V \<Longrightarrow> (\<exists>s'. alloc k s = Some (Inr (0, s')) \<and> view s' V) \<or>
      (\<exists>p n s'. alloc k s = Some (Inr (p, s')) \<and> p \<noteq> 0 \<and> unat k \<le> n \<and> view s' (insert (unat p, n) V))"
    and free_view: "view s V \<Longrightarrow> (unat p, n) \<in> V \<Longrightarrow> \<exists>s'. free p s = Some (Inr s') \<and> view s' (V - {(unat p, n)})"
    and store_view: "view s V \<Longrightarrow> (unat p, n) \<in> V \<Longrightarrow> unat i < n \<Longrightarrow> view (store (p + i) v s) V"
begin

definition holds :: "'s \<Rightarrow> (u64 \<rightharpoonup> u64) \<Rightarrow> (nat \<times> nat) set \<Rightarrow> bool" where
  "holds s L V \<longleftrightarrow> view s V \<and> (\<forall>p n. L p = Some n \<longrightarrow> (\<exists>m. (unat p, m) \<in> V \<and> unat n \<le> m))"

lemma client_holds: "client init alloc free store s L \<Longrightarrow> \<exists>V. holds s L V"
proof (induction rule: client.induct)
  case (start s)
  then show ?case using init_view by (auto simp: holds_def)
next
  case (take s L k p s')
  then obtain V where V: "holds s L V" by blast
  with alloc_view [of s V k] take(2,3) obtain n where n: "unat k \<le> n" "view s' (insert (unat p, n) V)"
    by (auto simp: holds_def)
  have "\<exists>m. (unat q, m) \<in> insert (unat p, n) V \<and> unat r \<le> m" if "(L(p \<mapsto> k)) q = Some r" for q r
    using V n(1) that by (cases "q = p") (auto simp: holds_def)
  with n(2) show ?case unfolding holds_def by blast
next
  case (full s L k s')
  then obtain V where V: "holds s L V" by blast
  with alloc_view [of s V k] full(2) have "view s' V" by (auto simp: holds_def)
  with V show ?case by (auto simp: holds_def)
next
  case (give s L p k s')
  then obtain V where V: "holds s L V" by blast
  with give(2) obtain n where n: "(unat p, n) \<in> V" by (auto simp: holds_def)
  with V free_view [of s V p n] give(3) have v: "view s' (V - {(unat p, n)})" by (auto simp: holds_def)
  have "\<exists>m. (unat q, m) \<in> V - {(unat p, n)} \<and> unat r \<le> m" if "(L(p := None)) q = Some r" for q r
  proof -
    have "q \<noteq> p" "L q = Some r" using that by (auto split: if_splits)
    then have "unat q \<noteq> unat p" "\<exists>m. (unat q, m) \<in> V \<and> unat r \<le> m" using V by (auto simp: holds_def word_unat_eq_iff)
    then show ?thesis by auto
  qed
  with v show ?case unfolding holds_def by blast
next
  case (put s L p k i v)
  then obtain V where V: "holds s L V" by blast
  with put(2) obtain n where n: "(unat p, n) \<in> V" "unat k \<le> n" by (auto simp: holds_def)
  have "unat i < n" using put(3) n(2) by (simp add: word_less_nat_alt)
  with V n(1) store_view [of s V p n i v] have "view (store (p + i) v s) V" by (simp add: holds_def)
  with V show ?case by (auto simp: holds_def)
qed

lemma client_calls:
  assumes "client init alloc free store s L"
  shows "\<exists>p s'. alloc k s = Some (Inr (p, s'))" "L p = Some n \<Longrightarrow> \<exists>s'. free p s = Some (Inr s')"
proof -
  obtain V where V: "holds s L V" using client_holds [OF assms] by blast
  then show "\<exists>p s'. alloc k s = Some (Inr (p, s'))" using alloc_view [of s V k] by (auto simp: holds_def)
  assume "L p = Some n"
  with V obtain m where "(unat p, m) \<in> V" by (auto simp: holds_def)
  with V show "\<exists>s'. free p s = Some (Inr s')" using free_view [of s V p m] by (auto simp: holds_def)
qed

lemma client_payloads:
  assumes "client init alloc free store s L" and p: "L p = Some n"
  shows "lo \<le> unat p \<and> unat p + unat n \<le> hi \<and> 16 dvd unat p"
    "L q = Some m \<Longrightarrow> p \<noteq> q \<Longrightarrow> unat p + unat n \<le> unat q \<or> unat q + unat m \<le> unat p"
proof -
  obtain V where V: "holds s L V" using client_holds [OF assms(1)] by blast
  with p obtain n' where n: "(unat p, n') \<in> V" "unat n \<le> n'" by (auto simp: holds_def)
  with V show "lo \<le> unat p \<and> unat p + unat n \<le> hi \<and> 16 dvd unat p"
    using view_range [of s V "unat p" n'] by (auto simp: holds_def)
  assume q: "L q = Some m" "p \<noteq> q"
  with V obtain m' where m: "(unat q, m') \<in> V" "unat m \<le> m'" by (auto simp: holds_def)
  have "(unat p, n') \<noteq> (unat q, m')" using q(2) by (simp add: word_unat_eq_iff)
  with V n m show "unat p + unat n \<le> unat q \<or> unat q + unat m \<le> unat p"
    using view_apart [of s V "unat p" n' "unat q" m'] by (auto simp: holds_def)
qed

end

definition heap_fresh :: "heap_st \<Rightarrow> bool" where
  "heap_fresh s \<longleftrightarrow> (\<exists>s0. s = snd (heap_init s0))"

interpretation kh: byte_heap heap_fresh kmalloc kfree heap_store heap_live "HB + 16" HE
proof unfold_locales
  show "heap_live s {}" if "heap_fresh s" for s using that heap_init_live by (auto simp: heap_fresh_def)
  show "HB + 16 \<le> p \<and> p + n \<le> HE \<and> 16 dvd p \<and> 0 < n" if "heap_live s V" "(p, n) \<in> V" for s V p n
    using heap_live_range [OF that] by simp
  show "p + n \<le> q \<or> q + m \<le> p" if "heap_live s V" "(p, n) \<in> V" "(q, m) \<in> V" "(p, n) \<noteq> (q, m)" for s V p n q m
    using that live_disjoint [of p n HB _ q m] by (fastforce simp: heap_live_def)
  show "(\<exists>s'. kmalloc k s = Some (Inr (0, s')) \<and> heap_live s' V) \<or>
      (\<exists>p n s'. kmalloc k s = Some (Inr (p, s')) \<and> p \<noteq> 0 \<and> unat k \<le> n \<and> heap_live s' (insert (unat p, n) V))"
    if "heap_live s V" for s V k using kmalloc_live [OF that, of k] by blast
  show "\<exists>s'. kfree p s = Some (Inr s') \<and> heap_live s' (V - {(unat p, n)})"
    if "heap_live s V" "(unat p, n) \<in> V" for s V p n using kfree_live [OF that] by blast
  show "heap_live (heap_store (p + i) v s) V" if "heap_live s V" "(unat p, n) \<in> V" "unat i < n" for s V p n i v
    using store_live [OF that] .
qed

section \<open>Properties\<close>

definition demo_heap :: heap_st where
  "demo_heap = snd (heap_init \<lparr>hmem = (\<lambda>_. 0), heap_start = 0, heap_end = 0\<rparr>)"

lemma demo_heap_wf: "heap_wf demo_heap [(True, 0xFFFFF0)]" "heap_live demo_heap {}" "heap_fresh demo_heap"
  using heap_init_wf heap_init_live by (auto simp: demo_heap_def heap_fresh_def)



text \<open>
  (C3) \<^verbatim>\<open>kmalloc\<close> implements first fit.  With the arena tiled by the blocks \<^verbatim>\<open>bs\<close>, a request is rounded up to a
  multiple of 16 and looked up in \<^verbatim>\<open>bs\<close>.  If it is zero or no free block holds it, the result is the null pointer and
  the heap is as before; in particular a size so large that the rounding would wrap is refused.  Otherwise the result
  is the payload of the first free block that holds it, which becomes used, with a free block behind it when at least
  32 bytes remain, and no byte outside that block changes.  The search always returns and never panics.
\<close>

theorem kmalloc_first_fit:
  assumes "heap_wf s bs"
  shows "case kmalloc_fit size1 bs of
      None \<Rightarrow> kmalloc size1 s = Some (Inr (0, s))
    | Some (xs, n, ys) \<Rightarrow> \<exists>s'. kmalloc size1 s = Some (Inr (of_nat (HB + span xs) + 16, s')) \<and>
        heap_wf s' (xs @ split_block (round16 (unat size1)) n @ ys) \<and>
        writes_in (hmem s) (hmem s') (HB + span xs) (HB + span xs + 16 + n)"
  using kmalloc_spec [OF assms, of size1] by (auto split: option.split)

theorem kmalloc_first_fit_witness:
  "\<exists>s'. kmalloc 100 demo_heap = Some (Inr (VM_HEAP_BASE + 16, s')) \<and> heap_wf s' [(False, 112), (True, 0xFFFF70)]"
  using kmalloc_first_fit [OF demo_heap_wf(1), of 100] HB_HE(5)
  by (auto simp: kmalloc_fit_def round16_def split_block_def)

text \<open>
  (C7) \<^verbatim>\<open>kfree\<close> of a used block marks it free, joins it with all free blocks right behind it and with a free block
  right before it, and changes nothing but the header of that block and of its predecessor.  The loops end and no
  panic is reached.
\<close>

theorem kfree_refines_release:
  assumes "heap_wf s (xs @ (False, n) # ys)"
  shows "\<exists>s'. kfree (of_nat (HB + span xs) + 16) s = Some (Inr s') \<and> heap_wf s' (release xs n ys) \<and>
    writes_in (hmem s) (hmem s') (release_from xs) (HB + span xs + 16)"
  using kfree_spec [OF assms] by blast

theorem kfree_refines_release_witness:
  "\<exists>s s'. heap_wf s ([] @ (False, 112) # [(True, 0xFFFF70)]) \<and> kfree (VM_HEAP_BASE + 16) s = Some (Inr s') \<and>
     heap_wf s' [(True, 0xFFFFF0)]"
proof -
  have "kmalloc_fit 100 [(True, 0xFFFFF0)] = Some ([], 0xFFFFF0, [])" by (simp add: kmalloc_fit_def round16_def)
  from kmalloc_spec(2) [OF demo_heap_wf(1) this] obtain s where
    s: "heap_wf s ([] @ (False, 112) # [(True, 0xFFFF70)])" by (auto simp: round16_def split_block_def)
  from kfree_refines_release [OF s] s HB_HE(5) show ?thesis by (fastforce simp: release_def)
qed

text \<open>
  (C37) Releasing what was just allocated restores the heap: when no two neighbours are free, \<^verbatim>\<open>kfree\<close> of the pointer
  \<^verbatim>\<open>kmalloc\<close> returned gives back the block list \<^verbatim>\<open>kmalloc\<close> started from.
\<close>

theorem kfree_undoes_kmalloc:
  assumes wf: "heap_wf s bs" and m: "merged bs" and a: "kmalloc size1 s = Some (Inr (p, s1))" "p \<noteq> 0"
  shows "\<exists>s2. kfree p s1 = Some (Inr s2) \<and> heap_wf s2 bs"
proof -
  obtain xs n ys where fit: "kmalloc_fit size1 bs = Some (xs, n, ys)"
    using a kmalloc_spec(1) [OF wf, of size1] by (cases "kmalloc_fit size1 bs") auto
  then have f: "bs = xs @ (True, n) # ys" "round16 (unat size1) \<le> n"
    using first_fit_Some by (auto simp: kmalloc_fit_def split: if_splits)
  let ?k = "round16 (unat size1)"
  have s1: "p = of_nat (HB + span xs) + 16" "heap_wf s1 (xs @ split_block ?k n @ ys)"
    using kmalloc_spec(2) [OF wf fit] a(1) by auto
  have ys: "absorb n ys = (n, ys)" for n
    using m f(1) by (cases ys) (auto simp: merged_append merged_Cons)
  have xs: "join_prev xs n = xs @ [(True, n)]" for n
    using m f(1) by (cases xs rule: rev_cases) (auto simp: merged_append merged_Cons join_prev_snoc)
  show ?thesis
  proof (cases "32 \<le> n - ?k")
    case True
    then have "heap_wf s1 (xs @ (False, ?k) # (True, n - ?k - 16) # ys)" using s1(2) by (simp add: split_block_def)
    from kfree_spec [OF this] show ?thesis using True f s1(1) by (auto simp: release_def ys xs)
  next
    case False
    then have "heap_wf s1 (xs @ (False, n) # ys)" using s1(2) by (simp add: split_block_def)
    from kfree_spec [OF this] show ?thesis using f(1) s1(1) by (auto simp: release_def ys xs)
  qed
qed

theorem kfree_undoes_kmalloc_witness:
  "\<exists>p s1 s2. kmalloc 100 demo_heap = Some (Inr (p, s1)) \<and> kfree p s1 = Some (Inr s2) \<and> heap_wf s2 [(True, 0xFFFFF0)]"
proof -
  have "kmalloc_fit 100 [(True, 0xFFFFF0)] = Some ([], 0xFFFFF0, [])" by (simp add: kmalloc_fit_def round16_def)
  from kmalloc_spec(2) [OF demo_heap_wf(1) this] obtain s1 where
    a: "kmalloc 100 demo_heap = Some (Inr (of_nat (HB + span []) + 16, s1))" by blast
  have m: "merged [(True, 0xFFFFF0)]" by (simp add: merged_Cons)
  have "of_nat (HB + span []) + 16 \<noteq> (0 :: u64)" using HB_HE(5) by (simp add: VM_HEAP_BASE_def)
  from kfree_undoes_kmalloc [OF demo_heap_wf(1) m a this] a show ?thesis by blast
qed

text \<open>
  What a release leaves behind.  \<^verbatim>\<open>stale s h\<close>: at \<^verbatim>\<open>h\<close> the memory still reads as the header of a free block.  No
  operation of the heap changes that, except for handing out the very block at \<^verbatim>\<open>h\<close> again.
\<close>

definition stale :: "heap_st \<Rightarrow> u64 \<Rightarrow> bool" where
  "stale s h \<longleftrightarrow> blk_magic h s = HEAP_MAGIC \<and> blk_free h s \<noteq> 0"

definition header_at :: "u64 \<Rightarrow> bool" where
  "header_at h \<longleftrightarrow> 16 dvd unat h \<and> unat h + 16 < 2 ^ 64"

lemma stale_agree:
  assumes "agree (hmem s) (hmem s') (unat h) (unat h + 8)" "unat h + 8 < 2 ^ 64" "stale s h"
  shows "stale s' h"
proof -
  have "unat (h + 4) = unat h + 4" using assms(2) by (subst unat_u64_add) simp_all
  then have "rd32 (hmem s) h = rd32 (hmem s') h" "rd32 (hmem s) (h + 4) = rd32 (hmem s') (h + 4)"
    using assms(2) by (auto intro!: agree_rd32 [OF assms(1)])
  then show ?thesis using assms(3) by (simp add: stale_def blk_defs)
qed

lemma stale_elsewhere:
  assumes "writes_in (hmem s) (hmem s') (unat c) (unat c + 16)" "header_at c" "header_at h" "c \<noteq> h" "stale s h"
  shows "stale s' h"
proof (rule stale_agree [OF _ _ assms(5)])
  have "unat c + 16 \<le> unat h \<or> unat h + 16 \<le> unat c"
    using assms(2-4) word_unat_eq_iff [of c h] by (auto simp: header_at_def elim!: dvdE)
  then show "agree (hmem s) (hmem s') (unat h) (unat h + 8)" by (intro writes_in_agree [OF assms(1)]) auto
  show "unat h + 8 < 2 ^ 64" using assms(3) by (simp add: header_at_def)
qed

lemma stale_writes:
  assumes c: "header_at c" and h: "header_at h" and s: "stale s h"
  shows "stale (set_size c v s) h" "stale (set_free c 1 s) h" "stale (set_magic c HEAP_MAGIC s) h"
    "c \<noteq> h \<Longrightarrow> stale (set_free c f s) h"
proof -
  have lt: "unat c + 16 < 2 ^ 64" using c by (simp add: header_at_def)
  note w = hdr_writes [OF lt, unfolded of_nat_unat, unfolded ucast_id]
  note e = stale_elsewhere [OF _ c h _ s]
  show "stale (set_size c v s) h"
    using e [of "set_size c v s"] w(3) s by (cases "c = h") (simp_all add: set_size_def, simp add: stale_def blk_defs)
  show "stale (set_free c 1 s) h"
    using e [of "set_free c 1 s"] w(2) s by (cases "c = h") (simp_all add: set_free_def, simp add: stale_def blk_defs)
  show "stale (set_magic c HEAP_MAGIC s) h"
    using e [of "set_magic c HEAP_MAGIC s"] w(1) s by (cases "c = h") (simp_all add: set_magic_def, simp add: stale_def blk_defs)
  show "c \<noteq> h \<Longrightarrow> stale (set_free c f s) h" using e [of "set_free c f s"] w(2) by (simp add: set_free_def)
qed

lemma stale_take:
  assumes "header_at b" "16 \<le> unat need" "unat need \<le> unat (blk_size b s)" "16 dvd unat need"
    "unat b + 16 + unat (blk_size b s) < 2 ^ 64" "header_at h" "b \<noteq> h" "stale s h"
  shows "stale (kmalloc_take need b s) h"
proof (cases "32 \<le> blk_size b s - need")
  case True
  have "unat (blk_size b s - need) = unat (blk_size b s) - unat need" using assms(3) by (simp add: unat_sub word_le_nat_alt)
  then have r: "32 \<le> unat (blk_size b s) - unat need" using True by (simp add: word_le_nat_alt)
  have "unat (b + 16 + need) = unat b + 16 + unat need"
    using r assms(5) by (subst unat_u64_add) (simp_all add: unat_u64_add)
  then have nb: "header_at (b + 16 + need)" using assms(1,4,5) r by (simp add: header_at_def)
  show ?thesis using True unfolding kmalloc_take_def Let_def
    by (simp add: stale_writes(4) [OF assms(1,6) _ assms(7)] stale_writes(1) [OF assms(1,6)] stale_writes(1-3) [OF nb assms(6)] assms(8))
next
  case False
  then show ?thesis unfolding kmalloc_take_def Let_def
    by (simp add: stale_writes(4) [OF assms(1,6) _ assms(7)] assms(8))
qed

lemma stale_forward_all:
  "kfree_forward b s = Some r \<Longrightarrow> header_at b \<Longrightarrow> header_at h \<Longrightarrow> stale s h \<Longrightarrow> \<forall>s'. r = Inr s' \<longrightarrow> stale s' h"
proof (induction b s r rule: kfree_forward.raw_induct [rotated, consumes 1, case_names step])
  case (step kf b s r)
  then show ?case using stale_writes(1) [OF step(3,4,5)] by (auto simp: Let_def heap_panic_def split: if_splits)
qed

lemma stale_forward:
  "kfree_forward b s = Some (Inr s') \<Longrightarrow> header_at b \<Longrightarrow> header_at h \<Longrightarrow> stale s h \<Longrightarrow> stale s' h"
  using stale_forward_all by blast

text \<open>Every header of the chain is a header address, and so is that of a held or released pointer.\<close>

lemma block_header:
  assumes "heap_wf s (xs @ (f, n) # ys)"
  shows "header_at (of_nat (HB + span xs))"
  using block_aligned [of s xs "(f, n) # ys"] heap_wf_parts(3,4) [OF assms] assms HB_HE(2) by (simp add: header_at_def)

lemma kmalloc_keeps_stale:
  assumes live: "heap_live s V" and a: "kmalloc n s = Some (Inr (p, s'))" and h: "header_at h" "stale s h" "p \<noteq> h + 16"
  shows "stale s' h"
proof -
  obtain bs where wf: "heap_wf s bs" using live by (auto simp: heap_live_def)
  note run = kmalloc_run [OF wf, of n]
  show ?thesis
  proof (cases "kmalloc_fit n bs")
    case None
    then show ?thesis using run(1) a h by simp
  next
    case (Some w)
    then obtain xs k ys where f: "kmalloc_fit n bs = Some (xs, k, ys)" by (cases w) auto
    let ?b = "of_nat (HB + span xs) :: u64" and ?need = "(n + 15) AND NOT 15"
    note g = run(2) [OF f]
    have bs: "bs = xs @ (True, k) # ys" "round16 (unat n) \<le> k" using first_fit_Some g by blast+
    note q = heap_wf_parts [OF wf [unfolded bs(1)]]
    have k: "unat (blk_size ?b s) = k" using chain_first(4) [OF q(2) HB_HE(2)] by (simp add: blk_size_def)
    have s': "s' = kmalloc_take ?need ?b s" "p = ?b + 16" using a run(1) f by simp_all
    show ?thesis unfolding s'(1)
      by (rule stale_take [OF block_header [OF wf [unfolded bs(1)]] _ _ _ _ h(1) _ h(2)])
        (use g bs(2) k q(3,4) HB_HE(2) round16(2,4) h(3) s'(2) in auto)
  qed
qed

lemma kfree_keeps_stale:
  assumes live: "heap_live s V" "(unat p, n) \<in> V" and a: "kfree p s = Some (Inr s')"
  shows "stale s' (p - 16)" "header_at (p - 16)" "header_at h \<Longrightarrow> stale s h \<Longrightarrow> stale s' h"
proof -
  obtain bs where wf: "heap_wf s bs" "V = set (live HB bs)" using live(1) by (auto simp: heap_live_def)
  obtain xs ys where x: "bs = xs @ (False, n) # ys" "unat p = HB + span xs + 16" using live(2) by (auto simp: wf(2) live_block)
  let ?b = "of_nat (HB + span xs) :: u64"
  have p: "p = ?b + 16" using x(2) by (metis of_nat_add of_nat_numeral of_nat_unat ucast_id)
  note wfx = wf(1) [unfolded x(1)]
  note b = block_header [OF wfx]
  obtain s1 where s1: "kfree (?b + 16) s = Some (Inr (join_at xs s1))" "kfree_forward ?b (set_free ?b 1 s) = Some (Inr s1)"
    "heap_wf s1 (xs @ (True, fst (absorb n ys)) # snd (absorb n ys))" by (rule kfree_run [OF wfx])
  have s': "s' = join_at xs s1" using a s1(1) unfolding p by simp
  have join: "stale (join_at xs s1) h" if "header_at h" "stale s1 h" for h
  proof (cases xs rule: rev_cases)
    case Nil
    then show ?thesis using that by (simp add: join_at_def)
  next
    case (snoc zs z)
    obtain f m where z: "z = (f, m)" by force
    have "heap_wf s1 (zs @ (f, m) # (True, fst (absorb n ys)) # snd (absorb n ys))" using s1(3) by (simp add: snoc z)
    from stale_writes(1) [OF block_header [OF this] that] that(2) show ?thesis
      by (simp add: join_at_def Let_def snoc del: of_nat_add)
  qed
  show "header_at h \<Longrightarrow> stale s h \<Longrightarrow> stale s' h"
    unfolding s' by (intro join stale_forward [OF s1(2) b] stale_writes(2) [OF b])
  have "blk_magic ?b s = HEAP_MAGIC"
    using chain_first(2) [OF heap_wf_parts(2) [OF wfx] HB_HE(2)] by (simp add: blk_defs)
  then have "stale (set_free ?b 1 s) ?b" by (simp add: stale_def blk_defs)
  from join [OF b stale_forward [OF s1(2) b b this]] show "stale s' (p - 16)" unfolding s' p by simp
  show "header_at (p - 16)" using b by (simp add: p)
qed

text \<open>
  The history of a heap.  Besides the pointers \<^verbatim>\<open>L\<close> a client holds, with the sizes it asked for, \<^verbatim>\<open>history\<close> records the
  pointers \<^verbatim>\<open>R\<close> that were released: a pointer leaves \<^verbatim>\<open>R\<close> when \<^verbatim>\<open>kmalloc\<close> returns it again, or when the client stores, as it
  may after the memory was handed out in another block, over the magic or the flag in front of it.
\<close>

inductive history :: "heap_st \<Rightarrow> (u64 \<rightharpoonup> u64) \<Rightarrow> u64 set \<Rightarrow> bool" where
  start: "heap_fresh s \<Longrightarrow> history s Map.empty {}"
| take: "history s L R \<Longrightarrow> kmalloc n s = Some (Inr (p, s')) \<Longrightarrow> p \<noteq> 0 \<Longrightarrow> history s' (L(p \<mapsto> n)) (R - {p})"
| full: "history s L R \<Longrightarrow> kmalloc n s = Some (Inr (0, s')) \<Longrightarrow> history s' L R"
| give: "history s L R \<Longrightarrow> L p = Some n \<Longrightarrow> kfree p s = Some (Inr s') \<Longrightarrow> history s' (L(p := None)) (insert p R)"
| put: "history s L R \<Longrightarrow> L p = Some n \<Longrightarrow> i < n \<Longrightarrow>
    history (heap_store (p + i) v s) L {q \<in> R. \<not> (p + i) - (q - 16) < 8}"

lemma history_client: "history s L R \<Longrightarrow> client heap_fresh kmalloc kfree heap_store s L"
  by (induction rule: history.induct) (blast intro: client.intros)+

lemma history_live: "history s L R \<Longrightarrow> \<exists>V. heap_live s V \<and> (\<forall>p n. L p = Some n \<longrightarrow> (\<exists>m. (unat p, m) \<in> V))"
  using kh.client_holds [OF history_client] unfolding kh.holds_def by blast

lemma stale_store: "stale s h \<Longrightarrow> \<not> x - h < 8 \<Longrightarrow> stale (heap_store x v s) h"
proof -
  assume s: "stale s h" and x: "\<not> x - h < 8"
  have k: "x \<noteq> h + k" if "k < 8" for k using x that by auto
  have "rd32 ((hmem s)(x := v)) h = rd32 (hmem s) h"
  proof (rule rd32_cong)
    fix i :: u64 assume "i < 4"
    then have "i < 8" by (simp add: word_less_nat_alt)
    from k [OF this] show "((hmem s)(x := v)) (h + i) = hmem s (h + i)" by simp
  qed
  moreover have "rd32 ((hmem s)(x := v)) (h + 4) = rd32 (hmem s) (h + 4)"
  proof (rule rd32_cong)
    fix i :: u64 assume "i < 4"
    then have "4 + i < 8" by (simp add: word_less_nat_alt unat_u64_add)
    from k [OF this] show "((hmem s)(x := v)) (h + 4 + i) = hmem s (h + 4 + i)" by (simp add: add.assoc)
  qed
  ultimately show "stale (heap_store x v s) h" using s by (simp add: stale_def blk_defs heap_store_def)
qed

lemma history_stale: "history s L R \<Longrightarrow> p \<in> R \<Longrightarrow> HB + 16 \<le> unat p \<and> unat p \<le> HE \<and> header_at (p - 16) \<and> stale s (p - 16)"
proof (induction arbitrary: p rule: history.induct)
  case (take s L R n q s')
  obtain V where "heap_live s V" using history_live [OF take(1)] by blast
  from kmalloc_keeps_stale [OF this take(2)] take(4) [of p] take(5) show ?case by auto
next
  case (full s L R n s')
  obtain V where "heap_live s V" using history_live [OF full(1)] by blast
  from kmalloc_keeps_stale [OF this full(2), of "p - 16"] full(3) [OF full(4)] show ?case by (cases "p = 0") auto
next
  case (give s L R q n s')
  obtain V m where V: "heap_live s V" "(unat q, m) \<in> V" using history_live [OF give(1)] give(2) by blast
  note k = kfree_keeps_stale [OF V give(3)] and r = heap_live_range [OF V]
  show ?case using give(4) [of p] give(5) k r by auto
next
  case (put s L R q n i v)
  then show ?case using stale_store by auto
qed simp

lemma arena_range: "HB + 16 \<le> unat p \<and> unat p < HE + 16 \<longleftrightarrow> \<not> (p - 16 < VM_HEAP_BASE \<or> VM_HEAP_BASE + VM_HEAP_SIZE \<le> p - 16)"
proof -
  have u: "unat (p - 16) = (if 16 \<le> unat p then unat p - 16 else unat p + 2 ^ 64 - 16)" by (simp add: unat_sub_if')
  show ?thesis unfolding word_less_nat_alt word_le_nat_alt u
    by (auto simp: HB_def HE_def VM_HEAP_BASE_def VM_HEAP_SIZE_def)
qed

text \<open>
  (C38) \<^verbatim>\<open>kfree\<close> stops the kernel on a wrong pointer, whatever allocations, releases and stores came before.  Every
  pointer that was released, however long ago, is reported as a double free, even when its block has been merged into a
  neighbour, and even when other blocks have been handed out around it, as long as it was not itself returned again and
  nobody has overwritten the header in front of it.  A pointer whose header would start outside the arena is reported as out of range
  (the subtraction wraps for a pointer below 16, and that is caught).  This test looks at the header only: a pointer up to 16 bytes past the end
  of the arena passes it, as does one into the middle of a block; each such pointer is stopped when the word in front
  of it is not the magic number.
\<close>

theorem kfree_panics:
  assumes h: "history s L R"
  shows "(\<forall>p \<in> R. kfree p s = heap_panic ''M8/HEAP: double free'') \<and>
    (\<forall>p. p \<noteq> 0 \<and> (unat p < HB + 16 \<or> HE + 16 \<le> unat p) \<longrightarrow> kfree p s = heap_panic ''M8/HEAP: kfree out of range'') \<and>
    (\<forall>p. HB + 16 \<le> unat p \<and> unat p < HE + 16 \<and> rd32 (hmem s) (p - 16) \<noteq> HEAP_MAGIC \<longrightarrow>
       kfree p s = heap_panic ''M8/HEAP: kfree bad magic'')"
proof -
  obtain V bs where "heap_live s V" "heap_wf s bs" using history_live [OF h] by (auto simp: heap_live_def)
  then have ends: "heap_start s = VM_HEAP_BASE" "heap_end s = VM_HEAP_BASE + VM_HEAP_SIZE" by (simp_all add: heap_wf_def)
  have pos: "HB + 16 \<le> unat p \<Longrightarrow> p \<noteq> 0" for p :: u64 by auto
  show ?thesis
  proof (intro conjI ballI allI impI)
    fix p assume p: "p \<in> R"
    note st = history_stale [OF h p]
    then have "HB + 16 \<le> unat p \<and> unat p < HE + 16" by simp
    then show "kfree p s = heap_panic ''M8/HEAP: double free''"
      using st pos arena_range [of p] by (simp add: kfree_def ends stale_def)
  next
    fix p :: u64 assume "p \<noteq> 0 \<and> (unat p < HB + 16 \<or> HE + 16 \<le> unat p)"
    then show "kfree p s = heap_panic ''M8/HEAP: kfree out of range''"
      using arena_range [of p] by (auto simp: kfree_def ends Let_def)
  next
    fix p :: u64 assume "HB + 16 \<le> unat p \<and> unat p < HE + 16 \<and> rd32 (hmem s) (p - 16) \<noteq> HEAP_MAGIC"
    then show "kfree p s = heap_panic ''M8/HEAP: kfree bad magic''"
      using pos arena_range [of p] by (simp add: kfree_def ends blk_magic_def)
  qed
qed

text \<open>Two blocks, released in the order that merges the second into the first; then each is released once more.\<close>

theorem kfree_panics_witness:
  "\<exists>p q s1 s2 s3 s4. kmalloc 100 demo_heap = Some (Inr (p, s1)) \<and> kmalloc 200 s1 = Some (Inr (q, s2)) \<and> p \<noteq> q \<and>
     kfree p s2 = Some (Inr s3) \<and> kfree q s3 = Some (Inr s4) \<and> heap_wf s4 [(True, 0xFFFFF0)] \<and>
     kfree q s4 = heap_panic ''M8/HEAP: double free'' \<and> kfree p s4 = heap_panic ''M8/HEAP: double free'' \<and>
     kfree 8 s4 = heap_panic ''M8/HEAP: kfree out of range''"
proof -
  have fit: "kmalloc_fit 100 [(True, 0xFFFFF0)] = Some ([], 0xFFFFF0, [])"
    "kmalloc_fit 200 [(False, 112), (True, 0xFFFF70)] = Some ([(False, 112)], 0xFFFF70, [])"
    by (simp_all add: kmalloc_fit_def round16_def)
  let ?p = "VM_HEAP_BASE + 16" and ?q = "VM_HEAP_BASE + 144"
  from kmalloc_spec(2) [OF demo_heap_wf(1) fit(1)] HB_HE(5) obtain s1 where
    s1: "kmalloc 100 demo_heap = Some (Inr (?p, s1))" "heap_wf s1 [(False, 112), (True, 0xFFFF70)]"
    by (auto simp: round16_def split_block_def)
  from kmalloc_spec(2) [OF s1(2) fit(2)] HB_HE(5) obtain s2 where
    s2: "kmalloc 200 s1 = Some (Inr (?q, s2))" "heap_wf s2 ([] @ (False, 112) # [(False, 208), (True, 0xFFFE90)])"
    by (auto simp: round16_def split_block_def)
  from kfree_spec [OF s2(2)] HB_HE(5) obtain s3 where
    s3: "kfree ?p s2 = Some (Inr s3)" "heap_wf s3 ([(True, 112)] @ (False, 208) # [(True, 0xFFFE90)])"
    by (auto simp: release_def)
  have q: "of_nat (HB + span [(True, 112)]) + 16 = ?q" using HB_HE(5) by simp
  from kfree_spec [OF s3(2), unfolded q] obtain s4 where
    s4: "kfree ?q s3 = Some (Inr s4)" "heap_wf s4 [(True, 0xFFFFF0)]"
    by (auto simp: release_def)
  have nz: "?p \<noteq> 0" "?q \<noteq> 0" "?p \<noteq> ?q" by (simp_all add: VM_HEAP_BASE_def)
  note h = history.give [OF history.give [OF history.take [OF history.take [OF history.start [OF demo_heap_wf(3)]
    s1(1) nz(1)] s2(1) nz(2)] _ s3(1)] _ s4(1)]
  from h [of 100 200] nz(3) have "history s4 ((Map.empty(?p \<mapsto> 100, ?q \<mapsto> 200))(?p := None, ?q := None)) {?q, ?p}" by simp
  from kfree_panics [OF this] have "kfree ?q s4 = heap_panic ''M8/HEAP: double free''"
    "kfree ?p s4 = heap_panic ''M8/HEAP: double free''" "kfree 8 s4 = heap_panic ''M8/HEAP: kfree out of range''"
    by (simp_all add: HB_def VM_HEAP_BASE_def)
  then show ?thesis using s1(1) s2(1) s3(1) s4 nz(3) by blast
qed

text \<open>
  (C39) \<^verbatim>\<open>heap_free_bytes\<close> returns the sum of the sizes of the free blocks, which no \<^verbatim>\<open>kmalloc\<close> can exceed: a
  request for more than that sum is refused.
\<close>

theorem heap_free_bytes_sum:
  assumes wf: "heap_wf s bs"
  shows "\<exists>t. heap_free_bytes s = Some (Inr t) \<and> unat t = free_sum bs \<and> unat t < unat VM_HEAP_SIZE \<and>
    (\<forall>n. t < n \<longrightarrow> kmalloc n s = Some (Inr (0, s)))"
proof -
  note w = heap_wf_ends [OF wf]
  have le: "free_sum bs + 16 * length bs \<le> span bs" for bs
    by (induction bs) (auto simp: free_sum_def)
  have "bs \<noteq> []" using w(4) by auto
  then have fs: "free_sum bs < 0x1000000" using le [of bs] w(4) by (cases bs) auto
  let ?t = "of_nat (free_sum bs) :: u64"
  have t: "unat ?t = free_sum bs" using fs by (simp add: unat_of_nat_u64)
  have "n \<le> free_sum bs" if "(True, n) \<in> set bs" for n
    using that by (induction bs) (auto simp: free_sum_def)
  then have "kmalloc_fit n bs = None" if "?t < n" for n
    using that t round16(1) [of "unat n"] by (fastforce simp: kmalloc_fit_def first_fit_None word_less_nat_alt)
  then have "\<forall>n. ?t < n \<longrightarrow> kmalloc n s = Some (Inr (0, s))" using kmalloc_spec(1) [OF wf] by blast
  moreover have "heap_free_bytes s = Some (Inr ?t)"
    using heap_free_loop_spec [OF w(2) HB_HE(2) w(1), of 0] by (simp add: heap_free_bytes_def w(3))
  ultimately show ?thesis using t fs by (auto simp: VM_HEAP_SIZE_def)
qed

theorem heap_free_bytes_sum_witness: "\<exists>t. heap_free_bytes demo_heap = Some (Inr t) \<and> unat t = 0xFFFFF0"
  using heap_free_bytes_sum [OF demo_heap_wf(1)] by (auto simp: free_sum_def)

end
