(* ===== verification/Demand.thy ===== *)
theory Demand
  imports Idt Heap_Client
begin

text \<open>
  Memory accesses of the kernel through the page tables, with the page-fault path behind them.  An access to an address
  that does not translate enters \<^verbatim>\<open>isr_handler\<close> with vector 14 and the address in CR2; when the handler returns the access is
  retried.  The theory shows that the heap's memory, as theory \<^verbatim>\<open>Heap\<close> sees it, is what the machine provides: pages that
  have not been touched read as zeros, and loads and stores act on that view whether or not they fault.
\<close>

section \<open>Accesses\<close>

text \<open>The physical address an access reaches; \<^verbatim>\<open>None\<close> if it never completes.  \<^verbatim>\<open>err\<close> is the error code of the fault.\<close>

definition vtouch ::
  "(isr_reg_t \<Rightarrow> regs_t \<Rightarrow> 'a irq_sys_scheme \<Rightarrow> 'a irq_sys_scheme) \<Rightarrow> regs_t \<Rightarrow> u64 \<Rightarrow> u64 \<Rightarrow> 'a irq_sys_scheme \<Rightarrow>
     (u64 \<times> 'a irq_sys_scheme) option" where
  "vtouch code r err va s =
     (case mmu (mem s) (cr3 s) va of
        Some pa \<Rightarrow> Some (pa, s)
      | None \<Rightarrow>
          (case isr_handler code (r\<lparr>vector := 14, error_code := err\<rparr>) (s\<lparr>cr2 := va\<rparr>) of
             Halt s1 \<Rightarrow> None
           | Return s1 \<Rightarrow> map_option (\<lambda>pa. (pa, s1)) (mmu (mem s1) (cr3 s1) va)))"

definition vstore32 where
  "vstore32 code r va v s = map_option (\<lambda>(pa, s1). s1\<lparr>mem := wr32 (mem s1) pa v\<rparr>) (vtouch code r 2 va s)"

definition vstore64 where
  "vstore64 code r va v s = map_option (\<lambda>(pa, s1). s1\<lparr>mem := wr64 (mem s1) pa v\<rparr>) (vtouch code r 2 va s)"

definition vload32 where
  "vload32 code r va s = map_option (\<lambda>(pa, s1). (rd32 (mem s1) pa, s1)) (vtouch code r 0 va s)"

definition vload64 where
  "vload64 code r va s = map_option (\<lambda>(pa, s1). (rd64 (mem s1) pa, s1)) (vtouch code r 0 va s)"

text \<open>The heap's memory as the page tables show it.\<close>

definition heap_view :: "'a sys_scheme \<Rightarrow> bytes" where
  "heap_view s x = (case mmu (mem s) (cr3 s) x of Some pa \<Rightarrow> mem s pa | None \<Rightarrow> 0)"

definition heap_leaf :: "'a sys_scheme \<Rightarrow> u64 \<Rightarrow> (nat \<times> u64) option" where
  "heap_leaf s va = mmu_leaf (mem s) 4 (pte_frame (cr3 s)) va"

text \<open>
  The tables are well formed, and every heap page that is mapped has a frame of its own, which is neither a page table
  nor available.
\<close>

definition heap_paged :: "(u64 \<Rightarrow> nat) \<Rightarrow> 'a vm_sys_scheme \<Rightarrow> bool" where
  "heap_paged lv s \<longleftrightarrow> vm_wf lv s \<and> lv (pte_frame (cr3 s)) = 4 \<and> \<not> vm_in_fault s \<and>
     (\<forall>va. heap_addr va \<longrightarrow> pml4_ok (mem s) (pte_frame (cr3 s)) va) \<and>
     (\<forall>va k e. heap_addr va \<longrightarrow> heap_leaf s va = Some (k, e) \<longrightarrow>
        k = 1 \<and> is_frame (pte_frame e) \<and> lv (pte_frame e) = 0 \<and> pte_frame e \<notin> pmm_avail (pmm s)) \<and>
     (\<forall>va va' k e k' e'. heap_addr va \<longrightarrow> heap_addr va' \<longrightarrow> heap_leaf s va = Some (k, e) \<longrightarrow> heap_leaf s va' = Some (k', e') \<longrightarrow>
        pte_frame e = pte_frame e' \<longrightarrow> va AND NOT 4095 = va' AND NOT 4095)"

text \<open>
  \<^verbatim>\<open>heap_init\<close> on the machine: its three stores, of which the first meets an unmapped page.  The result is the returned value, the two
  static pointers \<^verbatim>\<open>heap_start\<close> and \<^verbatim>\<open>heap_end\<close>, and the machine.
\<close>

definition heap_init_vm where
  "heap_init_vm code r s =
     (case vstore32 code r VM_HEAP_BASE HEAP_MAGIC s of
        None \<Rightarrow> None
      | Some s1 \<Rightarrow>
          (case vstore32 code r (VM_HEAP_BASE + 4) 1 s1 of
             None \<Rightarrow> None
           | Some s2 \<Rightarrow>
               map_option (\<lambda>s3. (0 :: int, VM_HEAP_BASE, VM_HEAP_BASE + VM_HEAP_SIZE, s3))
                 (vstore64 code r (VM_HEAP_BASE + 8) (VM_HEAP_SIZE - 16) s2)))"

definition heap_of :: "u64 \<Rightarrow> u64 \<Rightarrow> 'a sys_scheme \<Rightarrow> heap_st" where
  "heap_of hs he s = \<lparr>hmem = heap_view s, heap_start = hs, heap_end = he\<rparr>"

section \<open>Pages and offsets\<close>

lemma page_plus: "x = (x AND NOT 4095) + (x AND 4095 :: u64)"
proof -
  have "(x AND NOT 4095) + (x AND 4095) = (x AND NOT 4095) OR (x AND 4095)"
    unfolding mask_12_u64 [symmetric] by (rule disjunctive_add) (auto simp: bit_and_iff bit_not_iff)
  also have "\<dots> = x"
    unfolding mask_12_u64 [symmetric] by (rule bit_word_eqI) (auto simp: bit_or_iff bit_and_iff bit_not_iff)
  finally show ?thesis by simp
qed

lemma frame_plus:
  assumes "fr AND 4095 = (0 :: u64)"
  shows "fr OR (x AND 4095) = fr + (x AND 4095)" "(fr OR (x AND 4095)) AND NOT 4095 = fr" "(fr OR (x AND 4095)) AND 4095 = x AND 4095"
proof -
  have b: "\<not> (bit fr n \<and> n < 12)" for n
  proof -
    have "bit (fr AND mask 12) n = False" using assms by (simp add: mask_12_u64)
    then show ?thesis by (auto simp: bit_and_iff bit_mask_iff)
  qed
  show "fr OR (x AND 4095) = fr + (x AND 4095)" unfolding mask_12_u64 [symmetric]
    by (rule disjunctive_add [symmetric]) (use b in \<open>auto simp: bit_and_iff bit_mask_iff\<close>)
  show "(fr OR (x AND 4095)) AND NOT 4095 = fr" unfolding mask_12_u64 [symmetric]
    by (rule bit_word_eqI) (use b in \<open>auto simp: bit_and_iff bit_or_iff bit_not_iff bit_mask_iff\<close>)
  show "(fr OR (x AND 4095)) AND 4095 = x AND 4095" unfolding mask_12_u64 [symmetric]
    by (rule bit_word_eqI) (use b in \<open>auto simp: bit_and_iff bit_or_iff bit_mask_iff\<close>)
qed

lemma heap_same_page: "heap_addr a \<Longrightarrow> heap_addr b \<Longrightarrow> same_page a b \<longleftrightarrow> a AND NOT 4095 = b AND NOT 4095"
proof -
  assume h: "heap_addr a" "heap_addr b"
  note pa = page_of_page [OF heap_page_guards(3) [OF h(1)]] and pb = page_of_page [OF heap_page_guards(3) [OF h(2)]]
  show ?thesis
  proof
    assume "same_page a b"
    then have "same_page (a AND NOT 4095) (b AND NOT 4095)" using pa pb by (simp add: same_page_def)
    then show "a AND NOT 4095 = b AND NOT 4095" using pa pb same_page_eq by blast
  next
    assume "a AND NOT 4095 = b AND NOT 4095"
    then show "same_page a b" using pa pb by (simp add: same_page_def)
  qed
qed

text \<open>An access of \<^verbatim>\<open>w\<close> bytes that does not cross a page.\<close>

definition in_page :: "u64 \<Rightarrow> u64 \<Rightarrow> bool" where
  "in_page a w \<longleftrightarrow> unat (a AND 4095) + unat w \<le> 4096"

lemma in_page_near:
  assumes "in_page a w" "x - a < w"
  shows "x AND NOT 4095 = a AND NOT 4095"
proof -
  let ?p = "a AND NOT 4095"
  have p: "?p AND 4095 = 0" by (simp add: and.assoc)
  have shift: "x - b = (x - c) + d" if "c = b + d" for b c d :: u64 using that by simp
  have eq: "x - ?p = (x - a) + (a AND 4095)" by (rule shift [OF page_plus])
  have "unat (x - a) + unat (a AND 4095) < 4096" using assms by (simp add: in_page_def word_less_nat_alt)
  then have "unat ((x - a) + (a AND 4095)) < 4096" by (subst unat_u64_add) simp_all
  then have "x - ?p < 4096" unfolding eq by (simp add: word_less_nat_alt)
  then show ?thesis using page_of_iff [OF p] by blast
qed

section \<open>The view of the heap\<close>

lemma heap_pagedD:
  assumes "heap_paged lv s"
  shows "vm_wf lv s" "lv (pte_frame (cr3 s)) = 4" "\<not> vm_in_fault s" "heap_addr va \<Longrightarrow> pml4_ok (mem s) (pte_frame (cr3 s)) va"
    "heap_addr va \<Longrightarrow> heap_leaf s va = Some (k, e) \<Longrightarrow>
       k = 1 \<and> is_frame (pte_frame e) \<and> lv (pte_frame e) = 0 \<and> pte_frame e \<notin> pmm_avail (pmm s)"
    "heap_addr va \<Longrightarrow> heap_addr va' \<Longrightarrow> heap_leaf s va = Some (k, e) \<Longrightarrow> heap_leaf s va' = Some (k', e') \<Longrightarrow>
       pte_frame e = pte_frame e' \<Longrightarrow> va AND NOT 4095 = va' AND NOT 4095"
  using assms unfolding heap_paged_def by blast+

lemma heap_mmu:
  assumes "heap_paged lv s" "heap_addr va"
  shows "mmu (mem s) (cr3 s) va = map_option (\<lambda>(k, e). pte_frame e OR (va AND 4095)) (heap_leaf s va)"
proof (cases "heap_leaf s va")
  case None
  then show ?thesis by (simp add: mmu_def heap_leaf_def)
next
  case (Some w)
  obtain k e where w: "w = (k, e)" by force
  then have "k = 1" using heap_pagedD(5) [OF assms] Some by blast
  then show ?thesis using Some w by (simp add: mmu_def heap_leaf_def leaf_addr_1 [unfolded One_nat_def])
qed

lemma slot_page: "t AND 4095 = 0 \<Longrightarrow> j < 512 \<Longrightarrow> i < 8 \<Longrightarrow> (slot t j + i) AND NOT 4095 = t"
  using slot_inside [of j "slot t j + i" t] page_of_iff [of t "slot t j + i"] by auto

text \<open>Memory that differs from \<^verbatim>\<open>m\<close> only outside the tables translates alike.\<close>

lemma tables_kept:
  assumes wf: "vm_wf lv s" and r4: "lv (pte_frame (cr3 s)) = 4" and m: "\<And>x. lv (x AND NOT 4095) \<noteq> 0 \<Longrightarrow> m x = mem s x"
  shows "mmu_leaf m 4 (pte_frame (cr3 s)) va = mmu_leaf (mem s) 4 (pte_frame (cr3 s)) va" "mmu m (cr3 s) va = mmu (mem s) (cr3 s) va"
    "wf_tables lv m (pmm_avail (pmm s))" "0 < lv t \<Longrightarrow> j < 512 \<Longrightarrow> rd64 m (slot t j) = rd64 (mem s) (slot t j)"
proof -
  have wt: "wf_tables lv (mem s) (pmm_avail (pmm s))" using wf by (simp add: vm_wf_def)
  show eq: "rd64 m (slot t j) = rd64 (mem s) (slot t j)" if t: "0 < lv t" "j < 512" for t j
    by (rule rd64_cong, rule m) (use slot_page [OF wf_frame(1) [OF wt t(1)] t(2)] t(1) in simp)
  show leaf: "mmu_leaf m 4 (pte_frame (cr3 s)) va = mmu_leaf (mem s) 4 (pte_frame (cr3 s)) va" for va
    using mmu_leaf_tables [OF wt eq, of "pte_frame (cr3 s)" 4 va] r4 by simp
  show "mmu m (cr3 s) va = mmu (mem s) (cr3 s) va" by (simp add: mmu_def leaf)
  show "wf_tables lv m (pmm_avail (pmm s))" by (rule wf_same_children [OF wt order_refl]) (use eq in \<open>auto simp: child_def\<close>)
qed

text \<open>Writing to the frame of a heap page changes no translation.\<close>

lemma paged_write:
  assumes pg: "heap_paged lv s" and va: "heap_addr va" and l: "heap_leaf s va = Some (k, e)"
    and w: "\<And>x. x AND NOT 4095 \<noteq> pte_frame e \<Longrightarrow> m' x = mem s x"
  shows "heap_paged lv (s\<lparr>mem := m'\<rparr>)" "heap_leaf (s\<lparr>mem := m'\<rparr>) x = heap_leaf s x"
proof -
  note d = heap_pagedD [OF pg]
  have f: "lv (pte_frame e) = 0" using d(5) [OF va l] by blast
  have out: "lv (x AND NOT 4095) \<noteq> 0 \<Longrightarrow> m' x = mem s x" for x by (rule w) (use f in auto)
  note k = tables_kept [OF d(1,2) out]
  have leaf: "heap_leaf (s\<lparr>mem := m'\<rparr>) x = heap_leaf s x" for x using k(1) by (simp add: heap_leaf_def)
  show "heap_leaf (s\<lparr>mem := m'\<rparr>) x = heap_leaf s x" by (rule leaf)
  have wf: "vm_wf lv (s\<lparr>mem := m'\<rparr>)" using d(1) k(3) by (simp add: vm_wf_def)
  have p4: "pml4_ok m' (pte_frame (cr3 s)) v = pml4_ok (mem s) (pte_frame (cr3 s)) v" for v
    using k(4) [of "pte_frame (cr3 s)"] d(2) by (simp add: pml4_ok_def)
  have c: "cr3 (s\<lparr>mem := m'\<rparr>) = cr3 s" "pmm (s\<lparr>mem := m'\<rparr>) = pmm s" "vm_in_fault (s\<lparr>mem := m'\<rparr>) = vm_in_fault s"
    "mem (s\<lparr>mem := m'\<rparr>) = m'" by simp_all
  show "heap_paged lv (s\<lparr>mem := m'\<rparr>)"
    using wf pg unfolding heap_paged_def leaf c p4 by (elim conjE) (intro conjI; assumption)
qed

text \<open>A store of \<^verbatim>\<open>w\<close> bytes, given by their offsets.  Through the tables it is a store to the view.\<close>

definition poke :: "(u64 \<Rightarrow> u8) \<Rightarrow> u64 \<Rightarrow> u64 \<Rightarrow> bytes \<Rightarrow> bytes" where
  "poke g w a m x = (if x - a < w then g (x - a) else m x)"

lemma poke_outside:
  assumes ip: "in_page va w" and out: "x AND NOT 4095 \<noteq> pte_frame e"
  shows "poke g w (pte_frame e OR (va AND 4095)) m x = m x"
proof -
  have al: "pte_frame e AND 4095 = 0" by simp
  note fp = frame_plus [OF al]
  have "in_page (pte_frame e OR (va AND 4095)) w" using ip by (simp add: in_page_def fp(3))
  from in_page_near [OF this, of x] out fp(2) [of va] show ?thesis by (auto simp: poke_def)
qed

lemma page_offset_diff:
  assumes "fr AND 4095 = 0" and "x AND NOT 4095 = va AND NOT 4095"
  shows "(fr OR (x AND 4095)) - (fr OR (va AND 4095)) = (x - va :: u64)"
proof -
  have "(fr OR (x AND 4095)) - (fr OR (va AND 4095)) = (x AND 4095) - (va AND 4095)" unfolding frame_plus(1) [OF assms(1)] by simp
  also have "\<dots> = x - va" using page_plus [of x] page_plus [of va] assms(2) by (metis add_diff_cancel_left)
  finally show ?thesis .
qed

lemma view_write:
  assumes pg: "heap_paged lv s" and va: "heap_addr va" and l: "heap_leaf s va = Some (k, e)" and ip: "in_page va w"
  shows "heap_paged lv (s\<lparr>mem := poke g w (pte_frame e OR (va AND 4095)) (mem s)\<rparr>)"
    "heap_addr x \<Longrightarrow> heap_view (s\<lparr>mem := poke g w (pte_frame e OR (va AND 4095)) (mem s)\<rparr>) x = poke g w va (heap_view s) x"
proof -
  let ?fr = "pte_frame e"
  define pa where "pa = ?fr OR (va AND 4095)"
  define s' where "s' = s\<lparr>mem := poke g w pa (mem s)\<rparr>"
  have al: "?fr AND 4095 = 0" by simp
  have out: "poke g w pa (mem s) x = mem s x" if "x AND NOT 4095 \<noteq> ?fr" for x
    unfolding pa_def by (rule poke_outside [OF ip that])
  note pw = paged_write [OF pg va l, of "poke g w pa (mem s)", OF out]
  have pg': "heap_paged lv s'" using pw(1) by (simp add: s'_def)
  then show "heap_paged lv (s\<lparr>mem := poke g w (?fr OR (va AND 4095)) (mem s)\<rparr>)" by (simp add: s'_def pa_def)
  assume hx: "heap_addr x"
  have leaf: "heap_leaf s' x = heap_leaf s x" using pw(2) by (simp add: s'_def)
  have "heap_view s' x = poke g w va (heap_view s) x"
  proof (cases "heap_leaf s x")
    case None
    have "\<not> x - va < w"
    proof
      assume "x - va < w"
      then have "same_page x va" using in_page_near [OF ip] heap_same_page [OF hx va] by blast
      then show False using None l by (simp add: heap_leaf_def mmu_leaf_same_page [of x va])
    qed
    then show ?thesis using None leaf heap_mmu [OF pg' hx] heap_mmu [OF pg hx] by (simp add: heap_view_def poke_def)
  next
    case (Some w')
    obtain k' e' where w': "heap_leaf s x = Some (k', e')" using Some by (cases w') auto
    let ?px = "pte_frame e' OR (x AND 4095)"
    have v: "heap_view s x = mem s ?px" "heap_view s' x = poke g w pa (mem s) ?px"
      using w' leaf heap_mmu [OF pg' hx] heap_mmu [OF pg hx] by (simp_all add: heap_view_def s'_def)
    show ?thesis
    proof (cases "x AND NOT 4095 = va AND NOT 4095")
      case True
      then have "same_page x va" using heap_same_page [OF hx va] by blast
      then have "e' = e" using w' l by (simp add: heap_leaf_def mmu_leaf_same_page [of x va])
      then show ?thesis using v page_offset_diff [OF al True] by (simp add: poke_def pa_def)
    next
      case False
      have "?px AND NOT 4095 \<noteq> ?fr"
        using heap_pagedD(6) [OF pg hx va w' l] False frame_plus(2) [of "pte_frame e'" x] by auto
      moreover have "\<not> x - va < w" using in_page_near [OF ip, of x] False by blast
      ultimately show ?thesis using v out [of ?px] by (simp add: poke_def)
    qed
  qed
  then show "heap_view (s\<lparr>mem := poke g w (?fr OR (va AND 4095)) (mem s)\<rparr>) x = poke g w va (heap_view s) x"
    by (simp add: s'_def pa_def)
qed

section \<open>Faults\<close>

lemma zero_table_inside:
  assumes t: "t AND 4095 = 0" and x: "x AND NOT 4095 = t"
  shows "zero_table t m x = 0"
proof -
  have xt: "unat (x - t) < 4096" using page_of_iff [OF t] x by (simp add: word_less_nat_alt)
  have "n \<le> 512 \<Longrightarrow> fold (\<lambda>i m. wr64 m (slot t (of_nat i)) 0) [0..<n] m x = (if unat (x - t) < 8 * n then 0 else m x)" for n
  proof (induction n)
    case (Suc n)
    have u: "unat (8 * (of_nat n :: u64)) = 8 * n" using Suc.prems by (simp add: unat_word_ariths unat_of_nat_u64)
    have e: "x - slot t (of_nat n) = (x - t) - 8 * of_nat n" by (simp add: slot_def)
    have d: "unat (x - slot t (of_nat n)) = (if 8 * n \<le> unat (x - t) then unat (x - t) - 8 * n else unat (x - t) + 2 ^ 64 - 8 * n)"
      using unat_sub_if' [of "x - t" "8 * of_nat n :: u64"] unfolding e u by simp
    have "x - slot t (of_nat n) < 8 \<longleftrightarrow> 8 * n \<le> unat (x - t) \<and> unat (x - t) < 8 * Suc n"
      unfolding word_less_nat_alt d using Suc.prems by auto
    then show ?case using Suc by (auto simp: wr64_def)
  qed simp
  from this [of 512] xt show ?thesis by (simp add: zero_table_def)
qed

text \<open>After a touch the address translates, and the view of the heap is as before.\<close>

lemma vtouch_mapped:
  "heap_leaf s va = Some (k, e) \<Longrightarrow> heap_paged lv s \<Longrightarrow> heap_addr va \<Longrightarrow>
     vtouch code r err va s = Some (pte_frame e OR (va AND 4095), s)"
  using heap_mmu [of lv s va] by (simp add: vtouch_def)

lemma heap_pt4: "heap_addr x \<Longrightarrow> pt_index 4 x = 256"
proof -
  assume h: "heap_addr x"
  have "0xFFFF800000000000 \<le> unat x" "unat x < 0xFFFF800001000000"
    using h by (simp_all add: heap_addr_def VM_HEAP_BASE_def VM_HEAP_SIZE_def word_le_nat_alt word_less_nat_alt)
  then have "unat (drop_bit 39 x) = 0x1FFFF00" by (simp add: drop_bit_eq_div unat_div_distrib)
  then have "drop_bit 39 x = 0x1FFFF00" by (simp add: word_unat_eq_iff)
  then show ?thesis by (simp add: pt_index_def)
qed

lemma leaf_pml4_ok: "mmu_leaf m 4 root va = Some w \<Longrightarrow> pml4_ok m root va"
  using mmu_leaf.simps(2) [of m 3 root va] by (auto simp: pml4_ok_def Let_def split: if_splits)

text \<open>What the repair of a fault leaves: \<^verbatim>\<open>fr\<close> was available and is now the frame of the page of \<^verbatim>\<open>va\<close>.\<close>

definition heap_repair ::
  "(u64 \<Rightarrow> nat) \<Rightarrow> 'a irq_sys_scheme \<Rightarrow> (u64 \<Rightarrow> nat) \<Rightarrow> 'a irq_sys_scheme \<Rightarrow> u64 \<Rightarrow> u64 \<Rightarrow> u64 \<Rightarrow> bool" where
  "heap_repair lv s lv' s' va fr e \<longleftrightarrow>
     fr \<in> pmm_avail (pmm s) \<and> is_frame fr \<and> fr \<notin> pmm_avail (pmm s') \<and> pmm_avail (pmm s') \<subseteq> pmm_avail (pmm s) \<and>
     lv' fr = 0 \<and> pte_frame e = fr \<and> vm_wf lv' s' \<and> (\<forall>t. 0 < lv t \<longrightarrow> lv' t = lv t) \<and>
     (\<forall>t. 0 < lv' t \<longrightarrow> 0 < lv t \<or> t \<in> pmm_avail (pmm s)) \<and>
     (\<forall>x. heap_leaf s' x = (if same_page va x then Some (1, e) else heap_leaf s x)) \<and>
     (\<forall>x. lv' (x AND NOT 4095) = 0 \<longrightarrow> mem s' x = zero_table fr (mem s) x) \<and> cr3 s' = cr3 s \<and> \<not> vm_in_fault s'"

lemma heap_repairD:
  assumes "heap_repair lv s lv' s' va fr e"
  shows "fr \<in> pmm_avail (pmm s)" "is_frame fr" "fr \<notin> pmm_avail (pmm s')" "pmm_avail (pmm s') \<subseteq> pmm_avail (pmm s)"
    "lv' fr = 0" "pte_frame e = fr" "vm_wf lv' s'" "\<forall>t. 0 < lv t \<longrightarrow> lv' t = lv t" "\<forall>t. 0 < lv' t \<longrightarrow> 0 < lv t \<or> t \<in> pmm_avail (pmm s)"
    "heap_leaf s' x = (if same_page va x then Some (1, e) else heap_leaf s x)"
    "lv' (x AND NOT 4095) = 0 \<Longrightarrow> mem s' x = zero_table fr (mem s) x" "cr3 s' = cr3 s" "\<not> vm_in_fault s'"
  using assms unfolding heap_repair_def by blast+

text \<open>The frames of the other pages are none of the new tables, and not the new frame.\<close>

lemma heap_repair_old:
  assumes pg: "heap_paged lv s" and rep: "heap_repair lv s lv' s' va fr e" and y: "heap_addr y" "heap_leaf s y = Some (k, f)"
  shows "k = 1" "is_frame (pte_frame f)" "lv' (pte_frame f) = 0" "pte_frame f \<notin> pmm_avail (pmm s)" "pte_frame f \<noteq> fr"
  using heap_pagedD(5) [OF pg y] heap_repairD(9,1) [OF rep] by (metis gr0I less_numeral_extra(3))+

lemma heap_repair_paged:
  assumes pg: "heap_paged lv s" and rep: "heap_repair lv s lv' s' va fr e" and va: "heap_addr va"
  shows "heap_paged lv' s'"
proof -
  note d = heap_pagedD [OF pg] and R = heap_repairD [OF rep] and old = heap_repair_old [OF pg rep]
  have "mmu_leaf (mem s') 4 (pte_frame (cr3 s')) va = Some (1, e)"
    using R(10) [of va] vm.same_page_refl [of va] by (simp add: heap_leaf_def)
  then have p4: "pml4_ok (mem s') (pte_frame (cr3 s')) y" if "heap_addr y" for y
    using leaf_pml4_ok heap_pt4 [OF that] heap_pt4 [OF va] by (fastforce simp: pml4_ok_def)
  have new: "k = 1 \<and> is_frame (pte_frame f) \<and> lv' (pte_frame f) = 0 \<and> pte_frame f \<notin> pmm_avail (pmm s')"
    if y: "heap_addr y" "heap_leaf s' y = Some (k, f)" for y k f
    using y R(1-6) R(10) [of y] old [of y k f] by (cases "same_page va y") auto
  have inj: "y AND NOT 4095 = z AND NOT 4095"
    if y: "heap_addr y" "heap_addr z" "heap_leaf s' y = Some (k, f)" "heap_leaf s' z = Some (k', f')" "pte_frame f = pte_frame f'" for y z k f k' f'
  proof (cases "same_page va y"; cases "same_page va z")
    assume "same_page va y" "same_page va z"
    then show ?thesis using heap_same_page [OF va y(1)] heap_same_page [OF va y(2)] by simp
  next
    assume a: "same_page va y" "\<not> same_page va z"
    then show ?thesis using y R(6) R(10) [of y] R(10) [of z] old(5) [of z k' f'] by simp
  next
    assume a: "\<not> same_page va y" "same_page va z"
    then show ?thesis using y R(6) R(10) [of y] R(10) [of z] old(5) [of y k f] by simp
  next
    assume a: "\<not> same_page va y" "\<not> same_page va z"
    then show ?thesis using y R(10) [of y] R(10) [of z] d(6) [of y z k f k' f'] by simp
  qed
  have r4: "lv' (pte_frame (cr3 s')) = 4" using R(8,12) d(2) by simp
  show ?thesis unfolding heap_paged_def using R(7,13) r4 p4 new inj by blast
qed

text \<open>The new page reads as zeros, as every page that is not mapped; the others read as before.\<close>

lemma heap_repair_view:
  assumes pg: "heap_paged lv s" and rep: "heap_repair lv s lv' s' va fr e" and va: "heap_addr va" and un: "heap_leaf s va = None" and x: "heap_addr x"
  shows "heap_view s' x = heap_view s x"
proof -
  note R = heap_repairD [OF rep]
  note mm = heap_mmu [OF heap_repair_paged [OF pg rep va] x] heap_mmu [OF pg x]
  have al: "fr AND 4095 = 0" using R(2) by (simp add: is_frame_def)
  show ?thesis
  proof (cases "heap_leaf s x")
    case None
    note fp = frame_plus(2) [OF al, of x]
    have "mem s' (fr OR (x AND 4095)) = 0" using R(11) [of "fr OR (x AND 4095)"] R(5) fp zero_table_inside [OF al fp] by simp
    then show ?thesis using mm R(6) R(10) [of x] None by (simp add: heap_view_def)
  next
    case (Some w)
    obtain k f where w: "heap_leaf s x = Some (k, f)" using Some by (cases w) auto
    note o = heap_repair_old [OF pg rep x w] and fp = frame_plus(2) [of "pte_frame f" x]
    have "\<not> same_page va x" using un w mmu_leaf_same_page [of va x] by (auto simp: heap_leaf_def)
    moreover have "mem s' (pte_frame f OR (x AND 4095)) = mem s (pte_frame f OR (x AND 4095))"
      using R(11) [of "pte_frame f OR (x AND 4095)"] o zero_table_outside [OF al] fp by simp
    ultimately show ?thesis using mm R(10) [of x] w by (simp add: heap_view_def)
  qed
qed

lemma heap_addr_page:
  assumes "x AND NOT 4095 = y AND NOT 4095"
  shows "heap_addr x = heap_addr y"
proof -
  have h: "heap_addr z \<longleftrightarrow> 0xFFFF800000000 \<le> unat z div 4096 \<and> unat z div 4096 < 0xFFFF800001000" for z
    by (auto simp: heap_addr_def VM_HEAP_BASE_def VM_HEAP_SIZE_def word_le_nat_alt word_less_nat_alt
      less_eq_div_iff_mult_less_eq div_less_iff_less_mult)
  have "unat (x AND NOT 4095) = unat (y AND NOT 4095)" using assms by simp
  then have "unat x - unat x mod 4096 = unat y - unat y mod 4096" by (simp add: and_not_4095_nat)
  then have "unat x div 4096 = unat y div 4096" by (simp add: minus_mod_eq_mult_div)
  then show ?thesis by (simp add: h)
qed

text \<open>Outside the heap nothing changes: the same translations, frames only taken, the allocator's fixed fields kept.\<close>

definition heap_only :: "'a sys_scheme \<Rightarrow> 'a sys_scheme \<Rightarrow> bool" where
  "heap_only s s' \<longleftrightarrow> pmm_avail (pmm s') \<subseteq> pmm_avail (pmm s) \<and> pmm_static (pmm s') = pmm_static (pmm s) \<and>
     (\<forall>x. canonical x \<longrightarrow> \<not> heap_addr x \<longrightarrow> heap_leaf s' x = heap_leaf s x)"

lemma heap_only_refl [simp]: "heap_only s s"
  by (simp add: heap_only_def)

lemma heap_only_trans: "heap_only s s1 \<Longrightarrow> heap_only s1 s2 \<Longrightarrow> heap_only s s2"
  by (auto simp: heap_only_def)

lemma heap_pages_canonical: "heap_addr va \<Longrightarrow> canonical x \<Longrightarrow> same_page va x \<Longrightarrow> heap_addr x"
proof -
  assume va: "heap_addr va" and x: "canonical x" and sp: "same_page va x"
  note pa = page_of_page [OF heap_page_guards(3) [OF va]] and px = page_of_page [OF x]
  have "same_page (va AND NOT 4095) (x AND NOT 4095)" using pa px sp by (simp add: same_page_def)
  then have "va AND NOT 4095 = x AND NOT 4095" using pa px same_page_eq by blast
  then show "heap_addr x" using heap_addr_page va by blast
qed

text \<open>What an access to \<^verbatim>\<open>va\<close> does to the state beside the stored data.\<close>

definition only_vm :: "'a vm_sys_scheme \<Rightarrow> 'a vm_sys_scheme \<Rightarrow> bool" where
  "only_vm s s' \<longleftrightarrow> (\<exists>m p t c f. s' = s\<lparr>mem := m, pmm := p, tlb := t, cr2 := c, vm_faults := f\<rparr>)"

definition touched :: "u64 \<Rightarrow> 'a vm_sys_scheme \<Rightarrow> 'a vm_sys_scheme \<Rightarrow> bool" where
  "touched va s s' \<longleftrightarrow> only_vm s s' \<and> vm_faults s' = vm_faults s + (if heap_leaf s va = None then 1 else 0) \<and>
     card (pmm_avail (pmm s)) \<le> card (pmm_avail (pmm s')) + (if heap_leaf s va = None then 4 else 0) \<and>
     heap_only s s' \<and>
     (\<forall>x. heap_leaf s' x \<noteq> None \<longleftrightarrow> heap_leaf s x \<noteq> None \<or> same_page va x)"

lemma only_vm_refl: "only_vm s s"
  unfolding only_vm_def by (rule exI [of _ "mem s"], rule exI [of _ "pmm s"], rule exI [of _ "tlb s"], rule exI [of _ "cr2 s"],
      rule exI [of _ "vm_faults s"]) simp

lemma only_vmI: "only_vm s (s\<lparr>cr2 := c, mem := m, pmm := p, tlb := t, vm_faults := f\<rparr>)"
  unfolding only_vm_def by (rule exI [of _ m], rule exI [of _ p], rule exI [of _ t], rule exI [of _ c], rule exI [of _ f]) simp

lemma only_vm_mem: "only_vm s (s\<lparr>mem := m\<rparr>)"
  using only_vmI [where s = s and c = "cr2 s" and m = m and p = "pmm s" and t = "tlb s" and f = "vm_faults s"] by simp

lemma only_vm_trans: "only_vm s s1 \<Longrightarrow> only_vm s1 s2 \<Longrightarrow> only_vm s s2"
  by (force simp: only_vm_def)

lemma only_vm_fields:
  "only_vm s s' \<Longrightarrow> con s' = con s" "only_vm s s' \<Longrightarrow> cr3 s' = cr3 s" "only_vm s s' \<Longrightarrow> vm_kernel_space_ptr s' = vm_kernel_space_ptr s"
  by (auto simp: only_vm_def)

text \<open>The state beside memory, tables, frames, console and fault counter.\<close>

definition vm_rest :: "'a vm_sys_scheme \<Rightarrow> 'a vm_sys_scheme" where
  "vm_rest s = sys_rest (s\<lparr>vm_faults := 0\<rparr>)"

lemma vm_rest_sys: "sys_rest s' = sys_rest s \<Longrightarrow> vm_rest s' = vm_rest s"
proof -
  have "vm_rest s = sys_rest s\<lparr>vm_faults := 0\<rparr>" for s :: "'a vm_sys_scheme" by (simp add: vm_rest_def sys_rest_def)
  then show "sys_rest s' = sys_rest s \<Longrightarrow> vm_rest s' = vm_rest s" by metis
qed

lemma vm_rest_only: "only_vm s s' \<Longrightarrow> vm_rest s' = vm_rest s"
  by (auto simp: only_vm_def vm_rest_def sys_rest_def)

lemma vm_rest_fields: "vm_rest s' = vm_rest s \<Longrightarrow> vm_kernel_space_ptr s' = vm_kernel_space_ptr s \<and> vm_in_fault s' = vm_in_fault s"
proof -
  have "vm_kernel_space_ptr (vm_rest s) = vm_kernel_space_ptr s" "vm_in_fault (vm_rest s) = vm_in_fault s" for s :: "'a vm_sys_scheme"
    by (simp_all add: vm_rest_def sys_rest_def)
  then show "vm_rest s' = vm_rest s \<Longrightarrow> vm_kernel_space_ptr s' = vm_kernel_space_ptr s \<and> vm_in_fault s' = vm_in_fault s" by metis
qed

lemma sys_rest_faults: "sys_rest s' = sys_rest s \<Longrightarrow> vm_faults s' = vm_faults (s :: 'a vm_sys_scheme)"
proof -
  have "vm_faults (sys_rest s) = vm_faults s" for s :: "'a vm_sys_scheme" by (simp add: sys_rest_def)
  then show "sys_rest s' = sys_rest s \<Longrightarrow> vm_faults s' = vm_faults s" by metis
qed

lemma kernel_ptr_rest: "sys_rest s' = sys_rest s \<Longrightarrow> vm_kernel_space_ptr s' = vm_kernel_space_ptr s"
proof -
  have "vm_kernel_space_ptr (sys_rest s) = vm_kernel_space_ptr s" for s :: "'a vm_sys_scheme" by (simp add: sys_rest_def)
  then show "sys_rest s' = sys_rest s \<Longrightarrow> vm_kernel_space_ptr s' = vm_kernel_space_ptr s" by metis
qed

lemma vtouch_fault:
  assumes pg: "heap_paged lv s" and va: "heap_addr va" and un0: "heap_leaf s va = None" and room: "4 \<le> card (pmm_avail (pmm s))"
    and err: "err = 0 \<or> err = 2"
  obtains e s' lv' where "vtouch code r err va s = Some (pte_frame e OR (va AND 4095), s')" "heap_paged lv' s'"
    "heap_leaf s' va = Some (1, e)" "\<forall>x. heap_addr x \<longrightarrow> heap_view s' x = heap_view s x" "touched va s s'"
proof -
  let ?s = "s\<lparr>cr2 := va\<rparr>" and ?r = "r\<lparr>vector := 14, error_code := err\<rparr>"
  note d = heap_pagedD [OF pg] and pp = page_of_page [OF heap_page_guards(3) [OF va]]
  have wf: "vm_wf lv ?s" "lv (pte_frame (cr3 ?s)) = 4" using d(1,2) by (simp_all add: vm_wf_def)
  have sc: "fault_in_scope ?r ?s" using d(3) va err by (auto simp: fault_in_scope_def)
  have un: "mmu_leaf (mem ?s) 4 (pte_frame (cr3 ?s)) (cr2 ?s AND NOT 4095) = None"
    using un0 pp mmu_leaf_same_page [of va "va AND NOT 4095"] by (simp add: heap_leaf_def)
  have "pt_index 4 (va AND NOT 4095) = pt_index 4 va" using pp by (simp add: same_page_def)
  then have p4: "pml4_ok (mem ?s) (pte_frame (cr3 ?s)) (cr2 ?s AND NOT 4095)"
    using d(4) [OF va] by (simp add: pml4_ok_def)
  have av: "4 \<le> card (pmm_avail (pmm ?s))" using room by simp
  obtain fr lv' m p t where
    h: "vm_handle_page_fault ?r ?s = (1, ?s\<lparr>mem := m, pmm := p, tlb := t, vm_faults := vm_faults ?s + 1\<rparr>)"
    and f: "fr \<in> pmm_avail (pmm ?s)" "is_frame fr" "fr \<notin> pmm_avail p" "pmm_avail p \<subseteq> pmm_avail (pmm ?s)" "lv' fr = 0" "pte_frame (fr OR 3) = fr"
    and l: "vm_wf lv' (?s\<lparr>mem := m, pmm := p\<rparr>)" "\<forall>t. 0 < lv t \<longrightarrow> lv' t = lv t" "\<forall>t. 0 < lv' t \<longrightarrow> 0 < lv t \<or> t \<in> pmm_avail (pmm ?s)"
    and leaf: "\<forall>x. mmu_leaf m 4 (pte_frame (cr3 ?s)) x =
       (if same_page (cr2 ?s) x then Some (1, fr OR 3) else mmu_leaf (mem ?s) 4 (pte_frame (cr3 ?s)) x)"
    and mz: "\<forall>x. lv' (x AND NOT 4095) = 0 \<longrightarrow> m x = zero_table fr (mem ?s) x" and cost: "card (pmm_avail (pmm ?s)) \<le> card (pmm_avail p) + 4"
    and static: "pmm_static p = pmm_static (pmm ?s)"
    by (rule vm_fault_repair [OF wf sc un p4 av]) blast
  let ?s' = "?s\<lparr>mem := m, pmm := p, tlb := t, vm_faults := vm_faults s + 1\<rparr>"
  have hl: "\<forall>x. heap_leaf ?s' x = (if same_page va x then Some (1, fr OR 3) else heap_leaf s x)"
    using leaf by (simp add: heap_leaf_def)
  have wf': "vm_wf lv' ?s'" using l(1) by (simp add: vm_wf_def)
  have rep: "heap_repair lv s lv' ?s' va fr (fr OR 3)"
    unfolding heap_repair_def using f l(2,3) hl wf' mz d(3) by simp
  note pr = heap_repair_paged [OF pg rep va] heap_repair_view [OF pg rep va un0]
  have run: "isr_handler code ?r ?s = Return ?s'" using h by (simp add: isr_handler_def IDT_IRQ_BASE_def)
  have lva: "heap_leaf ?s' va = Some (1, fr OR 3)" using hl vm.same_page_refl by simp
  have "mmu (mem ?s') (cr3 ?s') va = Some (pte_frame (fr OR 3) OR (va AND 4095))"
    using heap_mmu [OF pr(1) va] lva by simp
  moreover have "mmu (mem s) (cr3 s) va = None" using heap_mmu [OF pg va] un0 by simp
  ultimately have "vtouch code r err va s = Some (pte_frame (fr OR 3) OR (va AND 4095), ?s')"
    by (simp only: vtouch_def option.case run outcome.case option.map)
  moreover have "heap_only s ?s'"
    using f(4) static hl heap_pages_canonical [OF va] by (auto simp: heap_only_def)
  then have "touched va s ?s'"
    using un0 hl cost only_vmI [where s = s and c = va and m = m and p = p and t = t and f = "vm_faults s + 1"] by (simp add: touched_def)
  ultimately show ?thesis using that [OF _ pr(1) lva] pr(2) by blast
qed

lemma vtouch_ok:
  assumes pg: "heap_paged lv s" and va: "heap_addr va" and room: "heap_leaf s va \<noteq> None \<or> 4 \<le> card (pmm_avail (pmm s))"
    and err: "err = 0 \<or> err = 2"
  obtains e s' lv' where "vtouch code r err va s = Some (pte_frame e OR (va AND 4095), s')" "heap_paged lv' s'"
    "heap_leaf s' va = Some (1, e)" "\<forall>x. heap_addr x \<longrightarrow> heap_view s' x = heap_view s x" "touched va s s'"
proof (cases "heap_leaf s va")
  case (Some w)
  obtain k e where w: "heap_leaf s va = Some (k, e)" using Some by (cases w) auto
  have "k = 1" using heap_pagedD(5) [OF pg va w] by blast
  moreover have "\<forall>x. same_page va x \<longrightarrow> heap_leaf s x = Some (k, e)" using w mmu_leaf_same_page by (metis heap_leaf_def)
  then have "touched va s s" using w by (auto simp: touched_def only_vm_refl)
  ultimately show ?thesis using that [OF vtouch_mapped [OF w pg va] pg] w by simp
next
  case None
  then have "4 \<le> card (pmm_avail (pmm s))" using room by simp
  then show ?thesis by (rule vtouch_fault [OF pg va None _ err]) (rule that)
qed

section \<open>Cached translations\<close>

text \<open>
  \<^verbatim>\<open>vtouch\<close> walks the tables; the processor may use the translation it has cached instead.  From a coherent translation
  buffer, such as the empty one after CR3 is loaded, that makes no difference, and the access, with the page fault it may
  take, leaves the buffer coherent.
\<close>

definition cached :: "'a sys_scheme \<Rightarrow> u64 \<Rightarrow> u64 option" where
  "cached s va = (case tlb s (va AND NOT 4095) of Some f \<Rightarrow> Some (f OR (va AND 4095)) | None \<Rightarrow> mmu (mem s) (cr3 s) va)"

definition vtouch_cached ::
  "(isr_reg_t \<Rightarrow> regs_t \<Rightarrow> 'a irq_sys_scheme \<Rightarrow> 'a irq_sys_scheme) \<Rightarrow> regs_t \<Rightarrow> u64 \<Rightarrow> u64 \<Rightarrow> 'a irq_sys_scheme \<Rightarrow>
     (u64 \<times> 'a irq_sys_scheme) option" where
  "vtouch_cached code r err va s =
     (case cached s va of
        Some pa \<Rightarrow> Some (pa, s)
      | None \<Rightarrow>
          (case isr_handler code (r\<lparr>vector := 14, error_code := err\<rparr>) (s\<lparr>cr2 := va\<rparr>) of
             Halt s1 \<Rightarrow> None
           | Return s1 \<Rightarrow> map_option (\<lambda>pa. (pa, s1)) (cached s1 va)))"

lemma leaf_addr_page: "leaf_addr k e va = leaf_addr k e (va AND NOT 4095) OR (va AND 4095)"
  unfolding mask_12_u64 [symmetric] leaf_addr_def
  by (rule bit_word_eqI) (auto simp: bit_and_iff bit_or_iff bit_not_iff bit_mask_iff)

lemma cached_mmu:
  assumes "tlb_ok s" "heap_addr va"
  shows "cached s va = mmu (mem s) (cr3 s) va"
proof (cases "tlb s (va AND NOT 4095)")
  case (Some f)
  have "same_page va (va AND NOT 4095)" using page_of_page heap_page_guards(3) [OF assms(2)] by blast
  from mmu_leaf_same_page [OF this]
  have "mmu_leaf (mem s) 4 (pte_frame (cr3 s)) va = mmu_leaf (mem s) 4 (pte_frame (cr3 s)) (va AND NOT 4095)" .
  moreover have "mmu (mem s) (cr3 s) (va AND NOT 4095) = Some f" using assms(1) Some unfolding tlb_ok_def by blast
  ultimately show ?thesis using Some by (auto simp: cached_def mmu_eq_leaf leaf_addr_page [of _ _ va])
qed (simp add: cached_def)

lemma vtouch_cached_same:
  assumes pg: "heap_paged lv s" and va: "heap_addr va" and room: "heap_leaf s va \<noteq> None \<or> 4 \<le> card (pmm_avail (pmm s))"
    and err: "err = 0 \<or> err = 2" and ok: "tlb_ok s"
  shows "vtouch_cached code r err va s = vtouch code r err va s" "vtouch code r err va s = Some (pa, s') \<Longrightarrow> tlb_ok s'"
proof -
  let ?s = "s\<lparr>cr2 := va\<rparr>" and ?r = "r\<lparr>vector := 14, error_code := err\<rparr>"
  note d = heap_pagedD [OF pg] and pp = page_of_page [OF heap_page_guards(3) [OF va]]
  have handled: "tlb_ok s1" if run: "isr_handler code ?r ?s = Return s1" and un0: "heap_leaf s va = None" for s1
  proof -
    have wf: "vm_wf lv ?s" "lv (pte_frame (cr3 ?s)) = 4" using d(1,2) by (simp_all add: vm_wf_def)
    have sc: "fault_in_scope ?r ?s" using d(3) va err by (auto simp: fault_in_scope_def)
    have un: "mmu_leaf (mem ?s) 4 (pte_frame (cr3 ?s)) (cr2 ?s AND NOT 4095) = None"
      using un0 pp mmu_leaf_same_page [of va "va AND NOT 4095"] by (simp add: heap_leaf_def)
    have "pt_index 4 (va AND NOT 4095) = pt_index 4 va" using pp by (simp add: same_page_def)
    then have p4: "pml4_ok (mem ?s) (pte_frame (cr3 ?s)) (cr2 ?s AND NOT 4095)"
      using d(4) [OF va] by (simp add: pml4_ok_def)
    have av: "4 \<le> card (pmm_avail (pmm ?s))" using room un0 by simp
    have "tlb_ok ?s" using ok by (simp add: tlb_ok_def)
    from vm_fault_tlb [OF wf sc un p4 av this] have t: "tlb_ok (snd (vm_handle_page_fault ?r ?s))" .
    obtain m p t where "vm_handle_page_fault ?r ?s = (1, ?s\<lparr>mem := m, pmm := p, tlb := t, vm_faults := vm_faults ?s + 1\<rparr>)"
      by (rule vm_fault_repair [OF wf sc un p4 av]) blast
    then show ?thesis using run t by (simp add: isr_handler_def IDT_IRQ_BASE_def)
  qed
  have leaf: "heap_leaf s va = None" if "mmu (mem s) (cr3 s) va = None" using that heap_mmu [OF pg va] by simp
  note c = cached_mmu [OF ok va]
  show "vtouch_cached code r err va s = vtouch code r err va s"
    using cached_mmu [OF handled _ ] leaf va
    by (auto simp: vtouch_cached_def vtouch_def c split: option.split outcome.split)
  show "vtouch code r err va s = Some (pa, s') \<Longrightarrow> tlb_ok s'"
    using handled leaf ok by (auto simp: vtouch_def split: option.splits outcome.splits)
qed

section \<open>Loads and stores on the view\<close>

lemma wr_poke:
  "wr32 m a v = poke (\<lambda>d. ucast (drop_bit (8 * unat d) v)) 4 a m" "wr64 m a w = poke (\<lambda>d. ucast (drop_bit (8 * unat d) w)) 8 a m"
  by (auto simp: poke_def wr32_def wr64_def fun_eq_iff)

lemma rd_shift:
  "(\<And>k. k < 4 \<Longrightarrow> m (a + k) = m' (b + k)) \<Longrightarrow> rd32 m a = rd32 m' b"
  "(\<And>k. k < 8 \<Longrightarrow> m (a + k) = m' (b + k)) \<Longrightarrow> rd64 m a = rd64 m' b"
proof -
  assume k: "\<And>k. k < 4 \<Longrightarrow> m (a + k) = m' (b + k)"
  show "rd32 m a = rd32 m' b" using k [of 0] k [of 1] k [of 2] k [of 3] by (simp add: rd32_def)
next
  assume k: "\<And>k. k < 8 \<Longrightarrow> m (a + k) = m' (b + k)"
  show "rd64 m a = rd64 m' b"
    using k [of 0] k [of 1] k [of 2] k [of 3] k [of 4] k [of 5] k [of 6] k [of 7] by (simp add: rd64_def)
qed

lemma view_read:
  assumes pg: "heap_paged lv s" and va: "heap_addr va" and l: "heap_leaf s va = Some (1, e)" and ip: "in_page va w" and k: "k < w"
  shows "mem s ((pte_frame e OR (va AND 4095)) + k) = heap_view s (va + k)"
proof -
  let ?x = "va + k"
  have same: "?x AND NOT 4095 = va AND NOT 4095" by (rule in_page_near [OF ip]) (use k in simp)
  have hx: "heap_addr ?x" using heap_addr_page [OF same] va by simp
  have "same_page ?x va" using heap_same_page [OF hx va] same by blast
  then have lx: "heap_leaf s ?x = Some (1, e)" using l by (simp add: heap_leaf_def mmu_leaf_same_page [of ?x va])
  have al: "pte_frame e AND 4095 = 0" by simp
  have "(va AND NOT 4095) + (?x AND 4095) = (va AND NOT 4095) + (va AND 4095) + k"
    using page_plus [of ?x] page_plus [of va] same by metis
  then have "?x AND 4095 = (va AND 4095) + k" by (simp only: add.assoc add_left_cancel)
  then have "pte_frame e OR (?x AND 4095) = (pte_frame e OR (va AND 4095)) + k"
    unfolding frame_plus(1) [OF al] by (simp only: add.assoc)
  then show ?thesis using heap_mmu [OF pg hx] lx by (simp add: heap_view_def)
qed

lemma vstore_ok:
  assumes pg: "heap_paged lv s" and va: "heap_addr va" and room: "heap_leaf s va \<noteq> None \<or> 4 \<le> card (pmm_avail (pmm s))"
  shows "in_page va 4 \<Longrightarrow> \<exists>s' lv'. vstore32 code r va v s = Some s' \<and> heap_paged lv' s' \<and> con s' = con s \<and> heap_leaf s' va \<noteq> None \<and>
      (\<forall>x. heap_addr x \<longrightarrow> heap_view s' x = wr32 (heap_view s) va v x)"
    "in_page va 8 \<Longrightarrow> \<exists>s' lv'. vstore64 code r va w s = Some s' \<and> heap_paged lv' s' \<and> con s' = con s \<and> heap_leaf s' va \<noteq> None \<and>
      (\<forall>x. heap_addr x \<longrightarrow> heap_view s' x = wr64 (heap_view s) va w x)"
proof -
  from vtouch_ok [OF pg va room] obtain e s1 lv1 where
    t: "vtouch code r 2 va s = Some (pte_frame e OR (va AND 4095), s1)" "heap_paged lv1 s1"
    "heap_leaf s1 va = Some (1, e)" "\<forall>x. heap_addr x \<longrightarrow> heap_view s1 x = heap_view s x" "touched va s s1"
    by (metis (full_types))
  have con: "con s1 = con s" using t(5) by (simp add: touched_def only_vm_fields)
  let ?m = "\<lambda>g n. s1\<lparr>mem := poke g n (pte_frame e OR (va AND 4095)) (mem s1)\<rparr>"
  have w: "heap_paged lv1 (?m g n) \<and> heap_leaf (?m g n) va \<noteq> None \<and> (\<forall>x. heap_addr x \<longrightarrow> heap_view (?m g n) x = poke g n va (heap_view s) x)"
    if ip: "in_page va n" for g n
  proof -
    note vw = view_write [OF t(2) va t(3) ip, where g = g]
    have leaf: "heap_leaf (?m g n) va = heap_leaf s1 va"
      using paged_write(2) [OF t(2) va t(3), of "poke g n (pte_frame e OR (va AND 4095)) (mem s1)"] poke_outside [OF ip] by blast
    show ?thesis using vw t(3,4) leaf by (simp add: poke_def)
  qed
  show "in_page va 4 \<Longrightarrow> \<exists>s' lv'. vstore32 code r va v s = Some s' \<and> heap_paged lv' s' \<and> con s' = con s \<and> heap_leaf s' va \<noteq> None \<and>
      (\<forall>x. heap_addr x \<longrightarrow> heap_view s' x = wr32 (heap_view s) va v x)"
    using w [of 4] t(1) con by (fastforce simp: vstore32_def wr_poke)
  show "in_page va 8 \<Longrightarrow> \<exists>s' lv'. vstore64 code r va w s = Some s' \<and> heap_paged lv' s' \<and> con s' = con s \<and> heap_leaf s' va \<noteq> None \<and>
      (\<forall>x. heap_addr x \<longrightarrow> heap_view s' x = wr64 (heap_view s) va w x)"
    using w [of 8] t(1) con by (fastforce simp: vstore64_def wr_poke)
qed

lemma vload_ok:
  assumes pg: "heap_paged lv s" and va: "heap_addr va" and room: "heap_leaf s va \<noteq> None \<or> 4 \<le> card (pmm_avail (pmm s))"
  shows "in_page va 4 \<Longrightarrow> \<exists>s' lv'. vload32 code r va s = Some (rd32 (heap_view s) va, s') \<and> heap_paged lv' s' \<and> con s' = con s \<and>
      (\<forall>x. heap_addr x \<longrightarrow> heap_view s' x = heap_view s x)"
    "in_page va 8 \<Longrightarrow> \<exists>s' lv'. vload64 code r va s = Some (rd64 (heap_view s) va, s') \<and> heap_paged lv' s' \<and> con s' = con s \<and>
      (\<forall>x. heap_addr x \<longrightarrow> heap_view s' x = heap_view s x)"
proof -
  from vtouch_ok [OF pg va room] obtain e s1 lv1 where
    t: "vtouch code r 0 va s = Some (pte_frame e OR (va AND 4095), s1)" "heap_paged lv1 s1"
    "heap_leaf s1 va = Some (1, e)" "\<forall>x. heap_addr x \<longrightarrow> heap_view s1 x = heap_view s x" "touched va s s1"
    by (metis (full_types))
  have con: "con s1 = con s" using t(5) by (simp add: touched_def only_vm_fields)
  have b: "mem s1 ((pte_frame e OR (va AND 4095)) + k) = heap_view s (va + k)" if "in_page va n" "k < n" for k n
  proof -
    have "(va + k) AND NOT 4095 = va AND NOT 4095" by (rule in_page_near [OF that(1)]) (use that(2) in simp)
    then have "heap_addr (va + k)" using heap_addr_page va by blast
    then show ?thesis using view_read [OF t(2) va t(3) that] t(4) by simp
  qed
  show "in_page va 4 \<Longrightarrow> \<exists>s' lv'. vload32 code r va s = Some (rd32 (heap_view s) va, s') \<and> heap_paged lv' s' \<and> con s' = con s \<and>
      (\<forall>x. heap_addr x \<longrightarrow> heap_view s' x = heap_view s x)"
    using rd_shift(1) [of "mem s1" "pte_frame e OR (va AND 4095)" "heap_view s" va] b [of 4] t(1-4) con by (simp add: vload32_def) blast
  show "in_page va 8 \<Longrightarrow> \<exists>s' lv'. vload64 code r va s = Some (rd64 (heap_view s) va, s') \<and> heap_paged lv' s' \<and> con s' = con s \<and>
      (\<forall>x. heap_addr x \<longrightarrow> heap_view s' x = heap_view s x)"
    using rd_shift(2) [of "mem s1" "pte_frame e OR (va AND 4095)" "heap_view s" va] b [of 8] t(1-4) con by (simp add: vload64_def) blast
qed

lemma heap_leaf_page:
  "heap_addr a \<Longrightarrow> heap_addr b \<Longrightarrow> a AND NOT 4095 = b AND NOT 4095 \<Longrightarrow> heap_leaf s a = heap_leaf s b"
  using heap_same_page [of a b] mmu_leaf_same_page by (auto simp: heap_leaf_def)

lemma heap_addr_range: "heap_addr x \<longleftrightarrow> HB \<le> unat x \<and> unat x < HE"
  by (simp add: heap_addr_def HB_def HE_def word_le_nat_alt word_less_nat_alt)

text \<open>The block structure depends on the view of the arena only.\<close>

lemma heap_wf_view:
  assumes "heap_wf h bs" "\<forall>x. heap_addr x \<longrightarrow> heap_view s x = hmem h x"
  shows "heap_wf (heap_of VM_HEAP_BASE (VM_HEAP_BASE + VM_HEAP_SIZE) s) bs"
proof -
  have "agree (hmem h) (heap_view s) HB HE" using assms(2) by (auto simp: agree_def heap_addr_range)
  then show ?thesis using assms(1) chain_agree [OF _ HB_HE(2), of "hmem h" "heap_view s" HB bs]
    by (simp add: heap_wf_def heap_of_def)
qed

section \<open>Properties\<close>

text \<open>
  (C9) Demand paging is transparent.  On well-formed tables, a store or load of the kernel to the heap that stays inside a page
  completes, provided the page is mapped or four frames are available, and its effect on the heap's memory is that
  of the plain store or load, whether or not it went through a page fault; the invariant is kept and nothing is printed.
\<close>

theorem heap_access_transparent:
  assumes "heap_paged lv s" and "heap_addr va" and "in_page va 8" and "heap_leaf s va \<noteq> None \<or> 4 \<le> card (pmm_avail (pmm s))"
  shows "(\<exists>s' lv'. vstore64 code r va v s = Some s' \<and> heap_paged lv' s' \<and> con s' = con s \<and>
      (\<forall>x. heap_addr x \<longrightarrow> heap_view s' x = wr64 (heap_view s) va v x)) \<and>
    (\<exists>s' lv'. vload64 code r va s = Some (rd64 (heap_view s) va, s') \<and> heap_paged lv' s' \<and> con s' = con s \<and>
      (\<forall>x. heap_addr x \<longrightarrow> heap_view s' x = heap_view s x))"
  using vstore_ok(2) [OF assms(1,2,4,3), of code r v] vload_ok(2) [OF assms(1,2,4,3), of code r] by blast

lemma demo_idt_paged: "heap_paged boot_lv demo_idt" "4 \<le> card (pmm_avail (pmm demo_idt))" "heap_addr x \<Longrightarrow> heap_leaf demo_idt x = None"
proof -
  have c: "mem demo_idt = boot_mem" "pte_frame (cr3 demo_idt) = 0x1000" "\<not> vm_in_fault demo_idt"
    by (simp_all add: demo_idt_def pte_frame_def)
  have z: "rd64 boot_mem (slot 0x1000 256) = 0" using boot_mem_slot [of "0x1000" 256] by simp
  have l: "heap_leaf demo_idt y = None" "pml4_ok boot_mem 0x1000 y" if "heap_addr y" for y
  proof -
    show "pml4_ok boot_mem 0x1000 y" using z heap_pt4 [OF that] by (simp add: pml4_ok_def pte_present_def)
    have "mmu_leaf boot_mem 4 0x1000 y = None"
      using mmu_leaf.simps(2) [of boot_mem 3 "0x1000" y] z heap_pt4 [OF that] by (simp add: pte_present_def)
    then show "heap_leaf demo_idt y = None" by (simp add: heap_leaf_def c)
  qed
  show "heap_addr x \<Longrightarrow> heap_leaf demo_idt x = None" by (rule l(1))
  show "heap_paged boot_lv demo_idt"
    unfolding heap_paged_def c using demo_idt_fault(1,2) l c by auto
  show "4 \<le> card (pmm_avail (pmm demo_idt))" by (rule demo_idt_fault(5))
qed

theorem heap_access_transparent_witness:
  "\<exists>s'. vstore64 (\<lambda>_ _ s. s) (demo_regs 0 0) 0xFFFF800000000010 0x1122334455667788 demo_idt = Some s' \<and>
     heap_view s' 0xFFFF800000000010 = 0x88"
proof -
  have a: "heap_addr 0xFFFF800000000010" by (simp add: heap_addr_def VM_HEAP_BASE_def VM_HEAP_SIZE_def)
  have i: "in_page 0xFFFF800000000010 8" by (simp add: in_page_def)
  have "wr64 m a 0x1122334455667788 a = 0x88" for m and a :: u64 by (simp add: wr64_def)
  with heap_access_transparent [OF demo_idt_paged(1) a i disjI2 [OF demo_idt_paged(2)],
      of "\<lambda>_ _ s. s" "demo_regs 0 0" "0x1122334455667788"] a show ?thesis by auto
qed

text \<open>
  \<^verbatim>\<open>heap_init\<close> on the machine: with the heap unmapped and four frames available, the three stores complete, the first of
  them through a page fault, and leave an arena of one free block, the state on which the heap theorems start.
\<close>

lemma heap_init_through_fault:
  assumes pg: "heap_paged lv s" and room: "4 \<le> card (pmm_avail (pmm s))"
  shows "\<exists>hs he s' lv'. heap_init_vm code r s = Some (0, hs, he, s') \<and> heap_paged lv' s' \<and> con s' = con s \<and>
    heap_wf (heap_of hs he s') [(True, 0xFFFFF0)]"
proof -
  let ?B = VM_HEAP_BASE
  have a: "heap_addr ?B" "heap_addr (?B + 4)" "heap_addr (?B + 8)"
    by (simp_all add: heap_addr_def VM_HEAP_BASE_def VM_HEAP_SIZE_def)
  have i: "in_page ?B 4" "in_page (?B + 4) 4" "in_page (?B + 8) 8" by (simp_all add: in_page_def VM_HEAP_BASE_def)
  have p: "(?B + 4) AND NOT 4095 = ?B AND NOT 4095" "(?B + 8) AND NOT 4095 = (?B + 4) AND NOT 4095" by (simp_all add: VM_HEAP_BASE_def)
  obtain s1 lv1 where s1: "vstore32 code r ?B HEAP_MAGIC s = Some s1" "heap_paged lv1 s1" "con s1 = con s" "heap_leaf s1 ?B \<noteq> None"
    "\<forall>x. heap_addr x \<longrightarrow> heap_view s1 x = wr32 (heap_view s) ?B HEAP_MAGIC x"
    using vstore_ok(1) [OF pg a(1) disjI2 [OF room] i(1), of code r HEAP_MAGIC] by blast
  have "heap_leaf s1 (?B + 4) \<noteq> None" using heap_leaf_page [OF a(2,1) p(1), of s1] s1(4) by simp
  then obtain s2 lv2 where s2: "vstore32 code r (?B + 4) 1 s1 = Some s2" "heap_paged lv2 s2" "con s2 = con s1" "heap_leaf s2 (?B + 4) \<noteq> None"
    "\<forall>x. heap_addr x \<longrightarrow> heap_view s2 x = wr32 (heap_view s1) (?B + 4) 1 x"
    using vstore_ok(1) [OF s1(2) a(2) disjI1 i(2), of code r 1] by blast
  have "heap_leaf s2 (?B + 8) \<noteq> None" using heap_leaf_page [OF a(3,2) p(2), of s2] s2(4) by simp
  then obtain s3 lv3 where s3: "vstore64 code r (?B + 8) (VM_HEAP_SIZE - 16) s2 = Some s3" "heap_paged lv3 s3" "con s3 = con s2"
    "\<forall>x. heap_addr x \<longrightarrow> heap_view s3 x = wr64 (heap_view s2) (?B + 8) (VM_HEAP_SIZE - 16) x"
    using vstore_ok(2) [OF s2(2) a(3) disjI1 i(3), of code r "VM_HEAP_SIZE - 16"] by blast
  let ?h = "snd (heap_init (heap_of 0 0 s))"
  have "hmem ?h = wr64 (wr32 (wr32 (heap_view s) ?B HEAP_MAGIC) (?B + 4) 1) (?B + 8) (VM_HEAP_SIZE - 16)"
    by (simp add: heap_init_def heap_of_def Let_def blk_defs)
  then have "\<forall>x. heap_addr x \<longrightarrow> heap_view s3 x = hmem ?h x"
    using s3(4) s2(5) s1(5) by (simp add: wr32_def wr64_def)
  from heap_wf_view [OF heap_init_wf this] have "heap_wf (heap_of ?B (?B + VM_HEAP_SIZE) s3) [(True, 0xFFFFF0)]" .
  moreover have "heap_init_vm code r s = Some (0, ?B, ?B + VM_HEAP_SIZE, s3)" using s1(1) s2(1) s3(1) by (simp add: heap_init_vm_def)
  ultimately show ?thesis using s1(3) s2(3) s3(2,3) by metis
qed

end
