(* ===== verification/Heap_Vm.thy ===== *)
theory Heap_Vm
  imports Demand "HOL-Library.Monad_Syntax"
begin

text \<open>
  The kernel heap running on the machine (\<^verbatim>\<open>src/src/heap.c\<close> on top of \<^verbatim>\<open>vm.c\<close> and \<^verbatim>\<open>idt.c\<close>): the functions of theory \<^verbatim>\<open>Heap\<close>
  with every access to a header going through the page tables, and through the page-fault path where a page has not
  been touched.  They are shown to simulate the functions on plain memory as long as frames are left.  The static
  pointers of \<^verbatim>\<open>heap.c\<close> are the arguments \<^verbatim>\<open>hs\<close> and \<^verbatim>\<open>he\<close>.
\<close>

definition vstore8 where
  "vstore8 code r va v s = map_option (\<lambda>(pa, s1). s1\<lparr>mem := (mem s1)(pa := v)\<rparr>) (vtouch code r 2 va s)"

definition vload8 where
  "vload8 code r va s = map_option (\<lambda>(pa, s1). (mem s1 pa, s1)) (vtouch code r 0 va s)"

definition kmalloc_split_vm ::
  "(isr_reg_t \<Rightarrow> regs_t \<Rightarrow> 'a irq_sys_scheme \<Rightarrow> 'a irq_sys_scheme) \<Rightarrow> regs_t \<Rightarrow> u64 \<Rightarrow> u64 \<Rightarrow> u64 \<Rightarrow> 'a irq_sys_scheme \<Rightarrow>
     (u64 \<times> 'a irq_sys_scheme) heap_res" where
  "kmalloc_split_vm code r need b sz s =
     (let remain = sz - need in
      do {
        s1 \<leftarrow> (if remain \<ge> 16 + 16
               then
                 (let nb = b + 16 + need in
                  do {
                    t1 \<leftarrow> vstore32 code r nb HEAP_MAGIC s;
                    t2 \<leftarrow> vstore32 code r (nb + 4) 1 t1;
                    t3 \<leftarrow> vstore64 code r (nb + 8) (remain - 16) t2;
                    vstore64 code r (b + 8) need t3
                  })
               else Some s);
        s2 \<leftarrow> vstore32 code r (b + 4) 0 s1;
        Some (Inr (b + 16, s2))
      })"

partial_function (option) kmalloc_loop_vm ::
  "(isr_reg_t \<Rightarrow> regs_t \<Rightarrow> 'a irq_sys_scheme \<Rightarrow> 'a irq_sys_scheme) \<Rightarrow> regs_t \<Rightarrow> u64 \<Rightarrow> u64 \<Rightarrow> u64 \<Rightarrow> 'a irq_sys_scheme \<Rightarrow>
     (u64 \<times> 'a irq_sys_scheme) heap_res" where
  "kmalloc_loop_vm code r he need b s =
     (if \<not> b < he then Some (Inr (0, s))
      else do {
        (magic, s1) \<leftarrow> vload32 code r b s;
        if magic \<noteq> HEAP_MAGIC then heap_panic ''M8/HEAP: corrupt magic in kmalloc''
        else do {
          (free, s2) \<leftarrow> vload32 code r (b + 4) s1;
          (sz, s3) \<leftarrow> vload64 code r (b + 8) s2;
          if free \<noteq> 0 \<and> sz \<ge> need then kmalloc_split_vm code r need b sz s3
          else
            (let next = b + 16 + sz
             in if next \<ge> he then Some (Inr (0, s3)) else kmalloc_loop_vm code r he need next s3)
        }
      })"

definition kmalloc_vm ::
  "(isr_reg_t \<Rightarrow> regs_t \<Rightarrow> 'a irq_sys_scheme \<Rightarrow> 'a irq_sys_scheme) \<Rightarrow> regs_t \<Rightarrow> u64 \<Rightarrow> u64 \<Rightarrow> u64 \<Rightarrow> 'a irq_sys_scheme \<Rightarrow>
     (u64 \<times> 'a irq_sys_scheme) heap_res" where
  "kmalloc_vm code r hs he size1 s =
     (if size1 = 0 \<or> size1 > VM_HEAP_SIZE \<or> hs = 0 then Some (Inr (0, s))
      else
        (let need = (size1 + 15) AND NOT 15
         in kmalloc_loop_vm code r he need hs s))"

partial_function (option) kfree_forward_vm ::
  "(isr_reg_t \<Rightarrow> regs_t \<Rightarrow> 'a irq_sys_scheme \<Rightarrow> 'a irq_sys_scheme) \<Rightarrow> regs_t \<Rightarrow> u64 \<Rightarrow> u64 \<Rightarrow> 'a irq_sys_scheme \<Rightarrow>
     'a irq_sys_scheme heap_res" where
  "kfree_forward_vm code r he b s =
     do {
       (sz, s1) \<leftarrow> vload64 code r (b + 8) s;
       let next = b + 16 + sz;
       if next \<ge> he then Some (Inr s1)
       else do {
         (magic, s2) \<leftarrow> vload32 code r next s1;
         if magic \<noteq> HEAP_MAGIC then heap_panic ''M8/HEAP: bad magic in forward merge''
         else do {
           (free, s3) \<leftarrow> vload32 code r (next + 4) s2;
           if free = 0 then Some (Inr s3)
           else do {
             (nsz, s4) \<leftarrow> vload64 code r (next + 8) s3;
             s5 \<leftarrow> vstore64 code r (b + 8) (sz + (16 + nsz)) s4;
             kfree_forward_vm code r he b s5
           }
         }
       }
     }"

partial_function (option) kfree_prev_vm ::
  "(isr_reg_t \<Rightarrow> regs_t \<Rightarrow> 'a irq_sys_scheme \<Rightarrow> 'a irq_sys_scheme) \<Rightarrow> regs_t \<Rightarrow> u64 \<Rightarrow> u64 \<Rightarrow> u64 \<Rightarrow> 'a irq_sys_scheme \<Rightarrow>
     (u64 \<times> 'a irq_sys_scheme) option" where
  "kfree_prev_vm code r b prev cur s =
     (if cur < b
      then do {
        (sz, s1) \<leftarrow> vload64 code r (cur + 8) s;
        kfree_prev_vm code r b cur (cur + 16 + sz) s1
      }
      else Some (prev, s))"

definition kfree_join_vm ::
  "(isr_reg_t \<Rightarrow> regs_t \<Rightarrow> 'a irq_sys_scheme \<Rightarrow> 'a irq_sys_scheme) \<Rightarrow> regs_t \<Rightarrow> u64 \<Rightarrow> u64 \<Rightarrow> 'a irq_sys_scheme \<Rightarrow>
     'a irq_sys_scheme heap_res" where
  "kfree_join_vm code r b prev s =
     (if prev = 0 then Some (Inr s)
      else do {
        (free, s1) \<leftarrow> vload32 code r (prev + 4) s;
        if free = 0 then Some (Inr s1)
        else do {
          (psz, s2) \<leftarrow> vload64 code r (prev + 8) s1;
          (sz, s3) \<leftarrow> vload64 code r (b + 8) s2;
          s4 \<leftarrow> vstore64 code r (prev + 8) (psz + (16 + sz)) s3;
          Some (Inr s4)
        }
      })"

definition kfree_vm ::
  "(isr_reg_t \<Rightarrow> regs_t \<Rightarrow> 'a irq_sys_scheme \<Rightarrow> 'a irq_sys_scheme) \<Rightarrow> regs_t \<Rightarrow> u64 \<Rightarrow> u64 \<Rightarrow> u64 \<Rightarrow> 'a irq_sys_scheme \<Rightarrow>
     'a irq_sys_scheme heap_res" where
  "kfree_vm code r hs he ptr s =
     (if ptr = 0 then Some (Inr s)
      else
        (let b = ptr - 16 in
         if b < hs \<or> b \<ge> he then heap_panic ''M8/HEAP: kfree out of range''
         else do {
           (magic, s1) \<leftarrow> vload32 code r b s;
           if magic \<noteq> HEAP_MAGIC then heap_panic ''M8/HEAP: kfree bad magic''
           else do {
             (free, s2) \<leftarrow> vload32 code r (b + 4) s1;
             if free \<noteq> 0 then heap_panic ''M8/HEAP: double free''
             else do {
               s3 \<leftarrow> vstore32 code r (b + 4) 1 s2;
               fwd \<leftarrow> kfree_forward_vm code r he b s3;
               (case fwd of
                  Inl e \<Rightarrow> Some (Inl e)
                | Inr s4 \<Rightarrow> do {
                    (prev, s5) \<leftarrow> kfree_prev_vm code r b 0 hs s4;
                    kfree_join_vm code r b prev s5
                  })
             }
           }
         }))"

partial_function (option) heap_free_loop_vm ::
  "(isr_reg_t \<Rightarrow> regs_t \<Rightarrow> 'a irq_sys_scheme \<Rightarrow> 'a irq_sys_scheme) \<Rightarrow> regs_t \<Rightarrow> u64 \<Rightarrow> u64 \<Rightarrow> u64 \<Rightarrow> 'a irq_sys_scheme \<Rightarrow>
     (u64 \<times> 'a irq_sys_scheme) heap_res" where
  "heap_free_loop_vm code r he acc b s =
     (if \<not> b < he then Some (Inr (acc, s))
      else do {
        (magic, s1) \<leftarrow> vload32 code r b s;
        if magic \<noteq> HEAP_MAGIC then heap_panic ''M8/HEAP: corrupt magic in free_bytes''
        else do {
          (free, s2) \<leftarrow> vload32 code r (b + 4) s1;
          (sz, s3) \<leftarrow> vload64 code r (b + 8) s2;
          let acc1 = (if free \<noteq> 0 then acc + sz else acc);
          let next = b + 16 + sz;
          if next \<ge> he then Some (Inr (acc1, s3)) else heap_free_loop_vm code r he acc1 next s3
        }
      })"

definition heap_free_bytes_vm where
  "heap_free_bytes_vm code r hs he s = heap_free_loop_vm code r he 0 hs s"

section \<open>Simulation\<close>

text \<open>The pages of the heap, and those that have a frame.\<close>

definition hpage :: "u64 \<Rightarrow> u64" where "hpage x = x AND NOT 4095"

definition heap_pages :: "u64 set" where "heap_pages = {p. heap_addr p \<and> hpage p = p}"

definition heap_mapped :: "'a sys_scheme \<Rightarrow> u64 set" where "heap_mapped s = {p \<in> heap_pages. heap_leaf s p \<noteq> None}"

text \<open>Enough frames for all pages that may still be touched; a fault takes at most four.\<close>

definition heap_backed :: "'a vm_sys_scheme \<Rightarrow> bool" where
  "heap_backed s \<longleftrightarrow> (\<exists>lv. heap_paged lv s) \<and> 4 * card (heap_pages - heap_mapped s) \<le> card (pmm_avail (pmm s))"

text \<open>
  \<^verbatim>\<open>heap_sim U s0 m s\<close>: \<^verbatim>\<open>s\<close> was reached from \<^verbatim>\<open>s0\<close> by heap accesses in the pages \<^verbatim>\<open>U\<close>, its heap holds \<^verbatim>\<open>m\<close>, and the fault
  counter went up by one, and the frames in reserve down by at most four, for every page that got a frame.
\<close>

definition heap_sim :: "u64 set \<Rightarrow> 'a vm_sys_scheme \<Rightarrow> bytes \<Rightarrow> 'a vm_sys_scheme \<Rightarrow> bool" where
  "heap_sim U s0 m s \<longleftrightarrow> heap_backed s \<and> (\<forall>x. heap_addr x \<longrightarrow> heap_view s x = m x) \<and> only_vm s0 s \<and>
     heap_mapped s0 \<subseteq> heap_mapped s \<and> heap_mapped s \<subseteq> heap_mapped s0 \<union> U \<and>
     vm_faults s = vm_faults s0 + of_nat (card (heap_mapped s - heap_mapped s0)) \<and> heap_only s0 s \<and>
     card (pmm_avail (pmm s0)) + 4 * card (heap_pages - heap_mapped s) \<le> card (pmm_avail (pmm s)) + 4 * card (heap_pages - heap_mapped s0)"

lemma hpage_heap:
  assumes "heap_addr x"
  shows "hpage x \<in> heap_pages" "p \<in> heap_pages \<Longrightarrow> same_page x p \<longleftrightarrow> hpage x = p"
proof -
  have "hpage (hpage x) = hpage x" by (simp add: hpage_def and.assoc)
  moreover have "heap_addr (hpage x)" using heap_addr_page [of "hpage x" x] calculation assms by (simp add: hpage_def)
  ultimately show "hpage x \<in> heap_pages" by (simp add: heap_pages_def)
  show "p \<in> heap_pages \<Longrightarrow> same_page x p \<longleftrightarrow> hpage x = p" using heap_same_page [OF assms, of p] by (auto simp: heap_pages_def hpage_def)
qed

lemma heap_mapped_iff: "heap_addr x \<Longrightarrow> hpage x \<in> heap_mapped s \<longleftrightarrow> heap_leaf s x \<noteq> None"
  using hpage_heap(1) [of x] heap_leaf_page [of x "hpage x" s]
  by (auto simp: heap_mapped_def heap_pages_def hpage_def)

lemma touched_mapped:
  assumes "touched va s s'" "heap_addr va"
  shows "heap_mapped s' = insert (hpage va) (heap_mapped s)"
  using assms hpage_heap [OF assms(2)] by (auto simp: touched_def heap_mapped_def)

lemma heap_sim_refl: "heap_backed s \<Longrightarrow> heap_sim U s (heap_view s) s"
  by (simp add: heap_sim_def only_vm_refl)

lemma heap_sim_trans:
  assumes a: "heap_sim U s0 m s1" and b: "heap_sim U s1 m' s2"
  shows "heap_sim U s0 m' s2"
proof -
  have sub: "heap_mapped s0 \<subseteq> heap_mapped s1" "heap_mapped s1 \<subseteq> heap_mapped s2" using a b by (simp_all add: heap_sim_def)
  have "heap_mapped s2 - heap_mapped s0 = (heap_mapped s2 - heap_mapped s1) \<union> (heap_mapped s1 - heap_mapped s0)" using sub by blast
  then have "card (heap_mapped s2 - heap_mapped s0) = card (heap_mapped s2 - heap_mapped s1) + card (heap_mapped s1 - heap_mapped s0)"
    by (simp only:, intro card_Un_disjoint) auto
  then show ?thesis using a b sub only_vm_trans [of s0 s1 s2] heap_only_trans [of s0 s1 s2] by (auto simp: heap_sim_def)
qed

lemma sim_touch:
  assumes sim: "heap_sim U s0 m s" and va: "heap_addr va" and u: "hpage va \<in> U" and err: "err = 0 \<or> err = 2"
  obtains e s' lv' where "vtouch code r err va s = Some (pte_frame e OR (va AND 4095), s')" "heap_paged lv' s'"
    "heap_leaf s' va = Some (1, e)" "heap_sim U s0 m s'" "hpage va \<in> heap_mapped s'"
proof -
  obtain lv where pg: "heap_paged lv s" using sim by (auto simp: heap_sim_def heap_backed_def)
  have room4: "4 * card (heap_pages - heap_mapped s) \<le> card (pmm_avail (pmm s))" using sim by (simp add: heap_sim_def heap_backed_def)
  note hp = hpage_heap(1) [OF va] and mi = heap_mapped_iff [OF va, of s]
  have cd: "card (heap_pages - heap_mapped s) = Suc (card (heap_pages - insert (hpage va) (heap_mapped s)))" if "heap_leaf s va = None"
  proof -
    have "heap_pages - heap_mapped s = insert (hpage va) (heap_pages - insert (hpage va) (heap_mapped s))" 
      using that heap_mapped_iff [OF va, of s] hp by (auto simp del: not_None_eq)
    then show ?thesis by (metis DiffE card_insert_disjoint finite_u64 insertI1)
  qed
  have room: "heap_leaf s va \<noteq> None \<or> 4 \<le> card (pmm_avail (pmm s))" using cd room4 by (cases "heap_leaf s va") simp_all
  from vtouch_ok [OF pg va room err] obtain e s' lv' where
    t: "vtouch code r err va s = Some (pte_frame e OR (va AND 4095), s')" "heap_paged lv' s'" "heap_leaf s' va = Some (1, e)"
      "\<forall>x. heap_addr x \<longrightarrow> heap_view s' x = heap_view s x" and d: "touched va s s'" by metis
  note mp = touched_mapped [OF d va]
  have bk: "heap_backed s'"
    using t(2) d room4 cd mi by (cases "heap_leaf s va") (auto simp: heap_backed_def mp touched_def insert_absorb)
  have new: "card (insert (hpage va) (heap_mapped s) - heap_mapped s0) =
      (if heap_leaf s va = None then Suc (card (heap_mapped s - heap_mapped s0)) else card (heap_mapped s - heap_mapped s0))"
  proof (cases "heap_leaf s va")
    case None
    then have "hpage va \<notin> heap_mapped s" "hpage va \<notin> heap_mapped s0" using mi sim by (auto simp: heap_sim_def)
    then show ?thesis using None by (simp add: insert_Diff_if)
  qed (use mi in \<open>simp add: insert_absorb\<close>)
  have s0: "only_vm s0 s" "heap_mapped s0 \<subseteq> heap_mapped s" "heap_mapped s \<subseteq> heap_mapped s0 \<union> U"
    "vm_faults s = vm_faults s0 + of_nat (card (heap_mapped s - heap_mapped s0))" "\<forall>x. heap_addr x \<longrightarrow> heap_view s x = m x"
    "heap_only s0 s" "card (pmm_avail (pmm s0)) + 4 * card (heap_pages - heap_mapped s) \<le> card (pmm_avail (pmm s)) + 4 * card (heap_pages - heap_mapped s0)"
    using sim by (simp_all add: heap_sim_def)
  have ho: "heap_only s0 s'" using heap_only_trans [OF s0(6)] d by (simp add: touched_def)
  have cost: "card (pmm_avail (pmm s0)) + 4 * card (heap_pages - heap_mapped s') \<le> card (pmm_avail (pmm s')) + 4 * card (heap_pages - heap_mapped s0)"
    using s0(7) d cd mi by (cases "heap_leaf s va") (auto simp: mp touched_def insert_absorb)
  have fl: "vm_faults s' = vm_faults s0 + of_nat (card (heap_mapped s' - heap_mapped s0))"
    using d s0(4) unfolding mp new by (simp add: touched_def)
  have "heap_sim U s0 m s'"
    unfolding heap_sim_def using bk t(4) s0 u fl d only_vm_trans [OF s0(1), of s'] ho cost by (auto simp: mp touched_def)
  then show thesis using that [OF t(1-3)] by (simp add: mp)
qed

lemma sim_poke:
  assumes sim: "heap_sim U s0 m s" and pg: "heap_paged lv s" and va: "heap_addr va" and l: "heap_leaf s va = Some (1, e)" and ip: "in_page va w"
  shows "heap_sim U s0 (poke g w va m) (s\<lparr>mem := poke g w (pte_frame e OR (va AND 4095)) (mem s)\<rparr>)" (is "heap_sim U s0 _ ?s")
proof -
  note vw = view_write [OF pg va l ip, where g = g]
  have leaf: "heap_leaf ?s x = heap_leaf s x" for x
    using paged_write(2) [OF pg va l, of "poke g w (pte_frame e OR (va AND 4095)) (mem s)"] poke_outside [OF ip] by blast
  have mp: "heap_mapped ?s = heap_mapped s" by (simp add: heap_mapped_def leaf)
  have "heap_only s ?s" by (simp add: heap_only_def leaf)
  then have ho: "heap_only s0 ?s" using sim heap_only_trans by (auto simp: heap_sim_def)
  have "heap_backed s" "only_vm s0 s" using sim by (simp_all add: heap_sim_def)
  then have "heap_backed ?s" "only_vm s0 ?s"
    using vw(1) only_vm_trans [OF _ only_vm_mem] by (auto simp: heap_backed_def mp)
  then show ?thesis using sim vw(2) ho by (auto simp: heap_sim_def mp poke_def)
qed

lemma poke8: "m(a := v) = poke (\<lambda>_. v) 1 a (m :: bytes)"
proof -
  have "x - a < 1 \<longleftrightarrow> x = a" for x :: u64 by (simp add: word_less_nat_alt unat_eq_zero)
  then show ?thesis by (auto simp: poke_def fun_eq_iff)
qed

lemma in_page_1: "in_page a 1"
  using and_4095_nat [of a] by (simp add: in_page_def)

lemma sim_store:
  assumes sim: "heap_sim U s0 m s" and va: "heap_addr va" and u: "hpage va \<in> U"
  shows "\<exists>s'. vstore8 code r va v8 s = Some s' \<and> heap_sim U s0 (m(va := v8)) s' \<and> hpage va \<in> heap_mapped s'"
    "in_page va 4 \<Longrightarrow> \<exists>s'. vstore32 code r va v32 s = Some s' \<and> heap_sim U s0 (wr32 m va v32) s'"
    "in_page va 8 \<Longrightarrow> \<exists>s'. vstore64 code r va v64 s = Some s' \<and> heap_sim U s0 (wr64 m va v64) s'"
proof -
  obtain e s1 lv1 where t: "vtouch code r 2 va s = Some (pte_frame e OR (va AND 4095), s1)" "heap_paged lv1 s1"
    "heap_leaf s1 va = Some (1, e)" "heap_sim U s0 m s1" "hpage va \<in> heap_mapped s1"
    by (rule sim_touch [OF sim va u, of 2]) auto
  note p = sim_poke [OF t(4,2) va t(3)]
  show "in_page va 4 \<Longrightarrow> \<exists>s'. vstore32 code r va v32 s = Some s' \<and> heap_sim U s0 (wr32 m va v32) s'"
    using p [of 4] t(1) by (simp add: vstore32_def wr_poke)
  show "in_page va 8 \<Longrightarrow> \<exists>s'. vstore64 code r va v64 s = Some s' \<and> heap_sim U s0 (wr64 m va v64) s'"
    using p [of 8] t(1) by (simp add: vstore64_def wr_poke)
  let ?s = "s1\<lparr>mem := (mem s1)(pte_frame e OR (va AND 4095) := v8)\<rparr>"
  have st: "vstore8 code r va v8 s = Some ?s" using t(1) by (simp add: vstore8_def)
  have sm: "heap_sim U s0 (m(va := v8)) ?s" using p [OF in_page_1, of "\<lambda>_. v8"] unfolding poke8 .
  have "heap_mapped s1 \<subseteq> heap_mapped ?s"
    using paged_write(2) [OF t(2) va t(3), of "mem ?s"] poke_outside [OF in_page_1, of _ e "\<lambda>_. v8" va "mem s1"]
    by (auto simp: heap_mapped_def poke8)
  then show "\<exists>s'. vstore8 code r va v8 s = Some s' \<and> heap_sim U s0 (m(va := v8)) s' \<and> hpage va \<in> heap_mapped s'"
    using st sm t(5) by blast
qed

lemma sim_load:
  assumes sim: "heap_sim U s0 m s" and va: "heap_addr va" and u: "hpage va \<in> U"
  shows "\<exists>s'. vload8 code r va s = Some (m va, s') \<and> heap_sim U s0 m s'"
    "in_page va 4 \<Longrightarrow> \<exists>s'. vload32 code r va s = Some (rd32 m va, s') \<and> heap_sim U s0 m s'"
    "in_page va 8 \<Longrightarrow> \<exists>s'. vload64 code r va s = Some (rd64 m va, s') \<and> heap_sim U s0 m s'"
proof -
  obtain e s1 lv1 where t: "vtouch code r 0 va s = Some (pte_frame e OR (va AND 4095), s1)" "heap_paged lv1 s1"
    "heap_leaf s1 va = Some (1, e)" "heap_sim U s0 m s1"
    by (rule sim_touch [OF sim va u, of 0]) auto
  have b: "mem s1 ((pte_frame e OR (va AND 4095)) + k) = m (va + k)" if "in_page va n" "k < n" for k n
  proof -
    have "(va + k) AND NOT 4095 = va AND NOT 4095" by (rule in_page_near [OF that(1)]) (use that(2) in simp)
    then have "heap_addr (va + k)" using heap_addr_page va by blast
    then show ?thesis using view_read [OF t(2) va t(3) that] t(4) by (simp add: heap_sim_def)
  qed
  show "\<exists>s'. vload8 code r va s = Some (m va, s') \<and> heap_sim U s0 m s'"
    using b [OF in_page_1, of 0] t(1,4) by (simp add: vload8_def)
  show "in_page va 4 \<Longrightarrow> \<exists>s'. vload32 code r va s = Some (rd32 m va, s') \<and> heap_sim U s0 m s'"
    using rd_shift(1) [of "mem s1" "pte_frame e OR (va AND 4095)" m va] b [of 4] t(1,4) by (simp add: vload32_def)
  show "in_page va 8 \<Longrightarrow> \<exists>s'. vload64 code r va s = Some (rd64 m va, s') \<and> heap_sim U s0 m s'"
    using rd_shift(2) [of "mem s1" "pte_frame e OR (va AND 4095)" m va] b [of 8] t(1,4) by (simp add: vload64_def)
qed

section \<open>Headers\<close>

lemma hdr_addrs:
  assumes "HB \<le> b" "b + 16 \<le> HE" "16 dvd b"
  shows "heap_addr (of_nat b)" "heap_addr (of_nat b + 4)" "heap_addr (of_nat b + 8)"
    "in_page (of_nat b) 4" "in_page (of_nat b + 4) 4" "in_page (of_nat b + 8) 8"
    "hpage (of_nat b + 4) = hpage (of_nat b)" "hpage (of_nat b + 8) = hpage (of_nat b)"
proof -
  let ?B = "of_nat b :: u64"
  have lt: "b + 16 < 2 ^ 64" using assms(2) HB_HE(2) by simp
  have u: "unat ?B = b" "unat (?B + 4) = b + 4" "unat (?B + 8) = b + 8"
    using lt by (simp_all add: unat_of_nat_u64 unat_u64_add)
  show "heap_addr ?B" "heap_addr (?B + 4)" "heap_addr (?B + 8)" using u assms(1,2) by (simp_all add: heap_addr_range)
  have "16 dvd b mod 4096" using assms(3) by (simp add: dvd_mod)
  moreover have "b mod 4096 < 4096" by simp
  ultimately have m: "b mod 4096 \<le> 4080" by (auto elim!: dvdE)
  have md: "(b + j) mod 4096 = b mod 4096 + j" if "j < 16" for j
  proof -
    have "(b + j) mod 4096 = (b mod 4096 + j) mod 4096" by (simp add: mod_add_left_eq)
    also have "\<dots> = b mod 4096 + j" using m that by simp
    finally show ?thesis .
  qed
  show "in_page ?B 4" "in_page (?B + 4) 4" "in_page (?B + 8) 8"
    using m u md and_4095_nat [of ?B] and_4095_nat [of "?B + 4"] and_4095_nat [of "?B + 8"] by (simp_all add: in_page_def)
  have "in_page ?B 16" using m u and_4095_nat [of ?B] by (simp add: in_page_def)
  from in_page_near [OF this, of "?B + 4"] in_page_near [OF this, of "?B + 8"]
  show "hpage (?B + 4) = hpage ?B" "hpage (?B + 8) = hpage ?B" by (simp_all add: hpage_def)
qed

text \<open>Addresses of the headers of a list of blocks, and their pages.\<close>

fun hdrs :: "nat \<Rightarrow> block list \<Rightarrow> nat set" where
  "hdrs b [] = {}"
| "hdrs b ((f, n) # bs) = insert b (hdrs (b + 16 + n) bs)"

definition hdr_pages :: "nat \<Rightarrow> block list \<Rightarrow> u64 set" where
  "hdr_pages b bs = (\<lambda>a. hpage (of_nat a)) ` hdrs b bs"

lemma hdr_pages_simps [simp]:
  "hdr_pages b [] = {}" "hdr_pages b ((f, n) # bs) = insert (hpage (of_nat b)) (hdr_pages (b + 16 + n) bs)"
  by (simp_all add: hdr_pages_def)

lemma hdrs_append: "hdrs b (xs @ ys) = hdrs b xs \<union> hdrs (b + span xs) ys"
  by (induction xs arbitrary: b) (auto simp: add.assoc)

lemma hdr_pages_append: "hdr_pages b (xs @ ys) = hdr_pages b xs \<union> hdr_pages (b + span xs) ys"
  by (simp add: hdr_pages_def hdrs_append image_Un)

text \<open>A position in the chain of a heap: where a header can be read and written.\<close>

definition hdr_pos :: "u64 set \<Rightarrow> nat \<Rightarrow> bool" where
  "hdr_pos U b \<longleftrightarrow> HB \<le> b \<and> b + 16 \<le> HE \<and> 16 dvd b \<and> hpage (of_nat b) \<in> U"

lemma hdr_pos_store:
  assumes "heap_sim U s0 m s" "hdr_pos U b"
  shows "\<exists>s'. vstore32 code r (of_nat b) v s = Some s' \<and> heap_sim U s0 (wr32 m (of_nat b) v) s'"
    "\<exists>s'. vstore32 code r (of_nat b + 4) v s = Some s' \<and> heap_sim U s0 (wr32 m (of_nat b + 4) v) s'"
    "\<exists>s'. vstore64 code r (of_nat b + 8) w s = Some s' \<and> heap_sim U s0 (wr64 m (of_nat b + 8) w) s'"
proof -
  have p: "HB \<le> b" "b + 16 \<le> HE" "16 dvd b" "hpage (of_nat b) \<in> U" using assms(2) by (simp_all add: hdr_pos_def)
  note a = hdr_addrs [OF p(1-3)]
  show "\<exists>s'. vstore32 code r (of_nat b) v s = Some s' \<and> heap_sim U s0 (wr32 m (of_nat b) v) s'"
    by (rule sim_store(2) [OF assms(1) a(1) p(4) a(4)])
  show "\<exists>s'. vstore32 code r (of_nat b + 4) v s = Some s' \<and> heap_sim U s0 (wr32 m (of_nat b + 4) v) s'"
    by (rule sim_store(2) [OF assms(1) a(2) _ a(5)]) (simp add: a(7) p(4))
  show "\<exists>s'. vstore64 code r (of_nat b + 8) w s = Some s' \<and> heap_sim U s0 (wr64 m (of_nat b + 8) w) s'"
    by (rule sim_store(3) [OF assms(1) a(3) _ a(6)]) (simp add: a(8) p(4))
qed

lemma hdr_pos_load:
  assumes "heap_sim U s0 m s" "hdr_pos U b"
  shows "\<exists>s'. vload32 code r (of_nat b) s = Some (rd32 m (of_nat b), s') \<and> heap_sim U s0 m s'"
    "\<exists>s'. vload32 code r (of_nat b + 4) s = Some (rd32 m (of_nat b + 4), s') \<and> heap_sim U s0 m s'"
    "\<exists>s'. vload64 code r (of_nat b + 8) s = Some (rd64 m (of_nat b + 8), s') \<and> heap_sim U s0 m s'"
proof -
  have p: "HB \<le> b" "b + 16 \<le> HE" "16 dvd b" "hpage (of_nat b) \<in> U" using assms(2) by (simp_all add: hdr_pos_def)
  note a = hdr_addrs [OF p(1-3)]
  show "\<exists>s'. vload32 code r (of_nat b) s = Some (rd32 m (of_nat b), s') \<and> heap_sim U s0 m s'"
    by (rule sim_load(2) [OF assms(1) a(1) p(4) a(4)])
  show "\<exists>s'. vload32 code r (of_nat b + 4) s = Some (rd32 m (of_nat b + 4), s') \<and> heap_sim U s0 m s'"
    by (rule sim_load(2) [OF assms(1) a(2) _ a(5)]) (simp add: a(7) p(4))
  show "\<exists>s'. vload64 code r (of_nat b + 8) s = Some (rd64 m (of_nat b + 8), s') \<and> heap_sim U s0 m s'"
    by (rule sim_load(3) [OF assms(1) a(3) _ a(6)]) (simp add: a(8) p(4))
qed

lemma hdr_load3:
  assumes "heap_sim U s0 m s" "hdr_pos U b"
  obtains s1 s2 s3 where "vload32 code r (of_nat b) s = Some (rd32 m (of_nat b), s1)"
    "vload32 code r (of_nat b + 4) s1 = Some (rd32 m (of_nat b + 4), s2)"
    "vload64 code r (of_nat b + 8) s2 = Some (rd64 m (of_nat b + 8), s3)" "heap_sim U s0 m s3"
  using hdr_pos_load(1) [OF assms] hdr_pos_load(2,3) [OF _ assms(2)] by metis

lemma chain_pos:
  assumes "chain m b HE ((f, n) # bs)" "HB \<le> b" "16 dvd b"
  shows "hpage (of_nat b) \<in> U \<Longrightarrow> hdr_pos U b" "HB \<le> b + 16 + n" "16 dvd b + 16 + n"
  using assms by (auto simp: hdr_pos_def hdr_ok_def intro: dvd_add)

section \<open>Allocation on the machine\<close>

definition kmalloc_blocks :: "nat \<Rightarrow> block list \<Rightarrow> block list" where
  "kmalloc_blocks k bs = (case first_fit k bs of None \<Rightarrow> bs | Some (xs, n, ys) \<Rightarrow> xs @ split_block k n @ ys)"

lemma kmalloc_blocks_Cons:
  "kmalloc_blocks k ((f, n) # bs) = (if f \<and> k \<le> n then split_block k n @ bs else (f, n) # kmalloc_blocks k bs)"
  by (auto simp: kmalloc_blocks_def split: option.split)

lemma kmalloc_split_sim:
  assumes sim: "heap_sim U s0 (hmem h) s" and c: "chain (hmem h) b HE ((True, n) # bs)" and k: "unat need = k" "k \<le> n" "16 dvd k"
    and b: "HB \<le> b" "16 dvd b" and u: "hdr_pages b (split_block k n) \<subseteq> U"
  shows "\<exists>s'. kmalloc_split_vm code r need (of_nat b) (rd64 (hmem h) (of_nat b + 8)) s = Some (Inr (of_nat b + 16, s')) \<and>
    heap_sim U s0 (hmem (kmalloc_take need (of_nat b) h)) s'"
proof -
  let ?B = "of_nat b :: u64" and ?sz = "rd64 (hmem h) (of_nat b + 8)"
  have hb: "hdr_pos U b" by (rule chain_pos(1) [OF c b]) (use u in \<open>auto simp: split_block_def split: if_splits\<close>)
  have sz: "unat ?sz = n" using chain_first(4) [OF c HB_HE(2)] .
  have rem: "unat (?sz - need) = n - k" using sz k by (simp add: unat_sub word_le_nat_alt)
  show ?thesis
  proof (cases "32 \<le> n - k")
    case False
    then have "\<not> 16 + 16 \<le> ?sz - need" using rem by (simp add: word_le_nat_alt)
    then show ?thesis using hdr_pos_store(2) [OF sim hb, of code r 0] by (auto simp: kmalloc_split_vm_def kmalloc_take_def Let_def blk_defs)
  next
    case True
    then have cond: "16 + 16 \<le> ?sz - need" using rem by (simp add: word_le_nat_alt)
    have N: "?B + 16 + need = of_nat (b + 16 + k)" using k(1) by auto
    have hn: "hdr_pos U (b + 16 + k)"
      using c b k True u by (auto simp: hdr_pos_def split_block_def simp del: of_nat_add intro!: dvd_add)
    obtain t1 where t1: "vstore32 code r (of_nat (b + 16 + k)) HEAP_MAGIC s = Some t1" "heap_sim U s0 (wr32 (hmem h) (of_nat (b + 16 + k)) HEAP_MAGIC) t1"
      using hdr_pos_store(1) [OF sim hn] by blast
    obtain t2 where t2: "vstore32 code r (of_nat (b + 16 + k) + 4) 1 t1 = Some t2"
      "heap_sim U s0 (wr32 (wr32 (hmem h) (of_nat (b + 16 + k)) HEAP_MAGIC) (of_nat (b + 16 + k) + 4) 1) t2"
      using hdr_pos_store(2) [OF t1(2) hn] by blast
    obtain t3 where t3: "vstore64 code r (of_nat (b + 16 + k) + 8) (?sz - need - 16) t2 = Some t3"
      "heap_sim U s0 (wr64 (wr32 (wr32 (hmem h) (of_nat (b + 16 + k)) HEAP_MAGIC) (of_nat (b + 16 + k) + 4) 1) (of_nat (b + 16 + k) + 8) (?sz - need - 16)) t3"
      using hdr_pos_store(3) [OF t2(2) hn] by blast
    obtain t4 where t4: "vstore64 code r (?B + 8) need t3 = Some t4"
      "heap_sim U s0 (wr64 (wr64 (wr32 (wr32 (hmem h) (of_nat (b + 16 + k)) HEAP_MAGIC) (of_nat (b + 16 + k) + 4) 1) (of_nat (b + 16 + k) + 8) (?sz - need - 16)) (?B + 8) need) t4"
      using hdr_pos_store(3) [OF t3(2) hb] by blast
    show ?thesis
      using hdr_pos_store(2) [OF t4(2) hb, of code r 0] t1(1) t2(1) t3(1) t4(1) cond
      unfolding kmalloc_split_vm_def kmalloc_take_def Let_def N by (auto simp: blk_defs simp del: of_nat_add)
  qed
qed

text \<open>One round of the loop, on both sides: a hit, or the next block, or the end.\<close>

lemma kmalloc_round:
  assumes he: "heap_end h = of_nat HE" and k: "unat need = k" and ch: "chain (hmem h) b HE ((f, n) # bs)" and hp: "hdr_pos U b"
    and sim: "heap_sim U s0 (hmem h) s"
  obtains s3 where "heap_sim U s0 (hmem h) s3"
    "kmalloc_loop need (of_nat b) h =
       (if f \<and> k \<le> n then Some (Inr (of_nat b + 16, kmalloc_take need (of_nat b) h))
        else if bs = [] then Some (Inr (0, h)) else kmalloc_loop need (of_nat (b + 16 + n)) h)"
    "kmalloc_loop_vm code r (of_nat HE) need (of_nat b) s =
       (if f \<and> k \<le> n then kmalloc_split_vm code r need (of_nat b) (rd64 (hmem h) (of_nat b + 8)) s3
        else if bs = [] then Some (Inr (0, s3)) else kmalloc_loop_vm code r (of_nat HE) need (of_nat (b + 16 + n)) s3)"
proof -
  let ?B = "of_nat b :: u64"
  note c = chain_first [OF ch HB_HE(2)]
  have ue: "unat (of_nat HE :: u64) = HE" using HB_HE(2) by (simp add: unat_of_nat_u64)
  have lt: "?B < of_nat HE" using c(1,7) ue by (simp add: word_less_nat_alt)
  obtain s1 s2 s3 where l: "vload32 code r ?B s = Some (rd32 (hmem h) ?B, s1)"
    "vload32 code r (?B + 4) s1 = Some (rd32 (hmem h) (?B + 4), s2)"
    "vload64 code r (?B + 8) s2 = Some (rd64 (hmem h) (?B + 8), s3)" "heap_sim U s0 (hmem h) s3"
    by (rule hdr_load3 [OF sim hp])
  have hit: "(rd32 (hmem h) (?B + 4) \<noteq> 0 \<and> need \<le> rd64 (hmem h) (?B + 8)) = (f \<and> k \<le> n)"
    using c(3,4) k by (simp add: word_le_nat_alt)
  have nx: "((of_nat HE :: u64) \<le> of_nat (b + 16 + n)) = (bs = [])"
    using c(6,8) ue ch by (simp add: word_le_nat_alt del: of_nat_add) auto
  have "kmalloc_loop_vm code r (of_nat HE) need ?B s =
      (if f \<and> k \<le> n then kmalloc_split_vm code r need ?B (rd64 (hmem h) (?B + 8)) s3
       else if bs = [] then Some (Inr (0, s3)) else kmalloc_loop_vm code r (of_nat HE) need (of_nat (b + 16 + n)) s3)"
    unfolding kmalloc_loop_vm.simps [of code r "of_nat HE" need ?B s] using lt l(1-3) c(2) nx
    by (simp add: hit c(5) Let_def del: of_nat_add de_Morgan_conj)
  moreover have "kmalloc_loop need ?B h =
      (if f \<and> k \<le> n then Some (Inr (?B + 16, kmalloc_take need ?B h))
       else if bs = [] then Some (Inr (0, h)) else kmalloc_loop need (of_nat (b + 16 + n)) h)"
    unfolding kmalloc_loop.simps [of need ?B h] using lt c(2) nx he hit
    by (simp add: blk_defs kmalloc_take_def c(5) Let_def del: of_nat_add de_Morgan_conj)
  ultimately show thesis using that l(4) by blast
qed

lemma kmalloc_loop_sim:
  assumes he: "heap_end h = of_nat HE" and k: "unat need = k" "16 dvd k"
  shows "chain (hmem h) b HE bs \<Longrightarrow> HB \<le> b \<Longrightarrow> 16 dvd b \<Longrightarrow> hdr_pages b (kmalloc_blocks k bs) \<subseteq> U \<Longrightarrow> heap_sim U s0 (hmem h) s \<Longrightarrow>
    \<exists>p h' s'. kmalloc_loop need (of_nat b) h = Some (Inr (p, h')) \<and>
      kmalloc_loop_vm code r (of_nat HE) need (of_nat b) s = Some (Inr (p, s')) \<and> heap_sim U s0 (hmem h') s'"
proof (induction bs arbitrary: b s)
  case Nil
  then show ?case using he by (simp add: kmalloc_loop.simps kmalloc_loop_vm.simps)
next
  case (Cons x bs)
  obtain f n where x: "x = (f, n)" by force
  note ch = Cons.prems(1) [unfolded x]
  note cp = chain_pos [OF ch Cons.prems(2,3)]
  have hp: "hdr_pos U b"
    by (rule cp(1)) (use Cons.prems(4) in \<open>auto simp: x kmalloc_blocks_Cons split_block_def split: if_splits\<close>)
  obtain s3 where s3: "heap_sim U s0 (hmem h) s3"
    and R: "kmalloc_loop need (of_nat b) h =
       (if f \<and> k \<le> n then Some (Inr (of_nat b + 16, kmalloc_take need (of_nat b) h))
        else if bs = [] then Some (Inr (0, h)) else kmalloc_loop need (of_nat (b + 16 + n)) h)"
      "kmalloc_loop_vm code r (of_nat HE) need (of_nat b) s =
       (if f \<and> k \<le> n then kmalloc_split_vm code r need (of_nat b) (rd64 (hmem h) (of_nat b + 8)) s3
        else if bs = [] then Some (Inr (0, s3)) else kmalloc_loop_vm code r (of_nat HE) need (of_nat (b + 16 + n)) s3)"
    by (rule kmalloc_round [OF he k(1) ch hp Cons.prems(5)])
  consider "f \<and> k \<le> n" | "\<not> (f \<and> k \<le> n)" "bs = []" | "\<not> (f \<and> k \<le> n)" "bs \<noteq> []" by blast
  then show ?case
  proof cases
    case 1
    then obtain s' where "kmalloc_split_vm code r need (of_nat b) (rd64 (hmem h) (of_nat b + 8)) s3 = Some (Inr (of_nat b + 16, s'))"
      "heap_sim U s0 (hmem (kmalloc_take need (of_nat b) h)) s'"
      using kmalloc_split_sim [OF s3 _ k(1) _ k(2) Cons.prems(2,3), of n bs code r] ch Cons.prems(4)
      by (auto simp: x kmalloc_blocks_Cons hdr_pages_append)
    then show ?thesis using 1 unfolding R by simp
  next
    case 2
    then show ?thesis unfolding R using s3 by auto
  next
    case 3
    have "chain (hmem h) (b + 16 + n) HE bs" "hdr_pages (b + 16 + n) (kmalloc_blocks k bs) \<subseteq> U"
      using ch Cons.prems(4) 3(1) by (auto simp: x kmalloc_blocks_Cons)
    from Cons.IH [OF this(1) cp(2,3) this(2) s3] 3 show ?thesis unfolding R by auto
  qed
qed

lemma kmalloc_sim:
  assumes wf: "heap_wf h bs" and sim: "heap_sim U s0 (hmem h) s" and u: "hdr_pages HB (kmalloc_blocks (round16 (unat size1)) bs) \<subseteq> U"
  shows "\<exists>p h' s'. kmalloc size1 h = Some (Inr (p, h')) \<and>
    kmalloc_vm code r (heap_start h) (heap_end h) size1 s = Some (Inr (p, s')) \<and> heap_sim U s0 (hmem h') s'"
proof -
  note w = heap_wf_ends [OF wf]
  let ?need = "(size1 + 15) AND NOT 15"
  show ?thesis
  proof (cases "size1 = 0 \<or> size1 > VM_HEAP_SIZE \<or> heap_start h = 0")
    case True
    then show ?thesis using sim by (auto simp: kmalloc_def kmalloc_vm_def)
  next
    case False
    then have "unat size1 \<le> 0x1000000" by (simp add: not_less word_le_nat_alt VM_HEAP_SIZE_def)
    from need_round16 [OF this] have need: "unat ?need = round16 (unat size1)" .
    from kmalloc_loop_sim [OF w(2) need round16(2) w(1) order_refl HB_HE(3) u sim, of code r] False show ?thesis
      unfolding kmalloc_def kmalloc_vm_def Let_def w(2,3) by simp
  qed
qed

section \<open>Release on the machine\<close>

lemma chain_dvd: "chain m a e ws \<Longrightarrow> 16 dvd span ws"
  by (induction m a e ws rule: chain.induct) (auto simp: hdr_ok_def)

lemma absorb_hdrs: "hdr_pages (b + fst (absorb n ys)) (snd (absorb n ys)) \<subseteq> hdr_pages (b + n) ys"
  by (induction n ys rule: absorb.induct) (auto simp: add.assoc)

text \<open>One round of the forward merge, on both sides: the next block is taken in if it is free.\<close>

lemma kfree_round:
  fixes b n :: nat
  defines "B \<equiv> of_nat b" and "N \<equiv> of_nat (b + 16 + n)"
  defines "v \<equiv> \<lambda>m. rd64 m (B + 8) + (16 + rd64 m (N + 8))"
  assumes he: "heap_end h = of_nat HE" and ch: "chain (hmem h) b HE ((f, n) # (g, m) # ys)" and hb: "hdr_pos U b" and hn: "hdr_pos U (b + 16 + n)"
    and sim: "heap_sim U s0 (hmem h) s"
  obtains s3 s5 where "heap_sim U s0 (hmem h) s3" "heap_sim U s0 (hmem (set_size B (v (hmem h)) h)) s5"
    "kfree_forward B h = (if g then kfree_forward B (set_size B (v (hmem h)) h) else Some (Inr h))"
    "kfree_forward_vm code r (of_nat HE) B s = (if g then kfree_forward_vm code r (of_nat HE) B s5 else Some (Inr s3))"
proof -
  have "chain (hmem h) (b + 16 + n) HE ((g, m) # ys)" using ch by simp
  note cf = chain_first [OF ch HB_HE(2), folded B_def N_def] and cn = chain_first [OF this HB_HE(2), folded N_def]
  obtain s1 where l1: "vload64 code r (B + 8) s = Some (rd64 (hmem h) (B + 8), s1)" "heap_sim U s0 (hmem h) s1"
    using hdr_pos_load(3) [OF sim hb] unfolding B_def by blast
  obtain s2 s3 s4 where l: "vload32 code r N s1 = Some (rd32 (hmem h) N, s2)"
    "vload32 code r (N + 4) s2 = Some (rd32 (hmem h) (N + 4), s3)" "heap_sim U s0 (hmem h) s3"
    "vload64 code r (N + 8) s3 = Some (rd64 (hmem h) (N + 8), s4)" "heap_sim U s0 (hmem h) s4"
    using hdr_pos_load(1) [OF l1(2) hn] hdr_pos_load(2,3) [OF _ hn] unfolding N_def by metis
  obtain s5 where l5: "vstore64 code r (B + 8) (v (hmem h)) s4 = Some s5" "heap_sim U s0 (wr64 (hmem h) (B + 8) (v (hmem h))) s5"
    using hdr_pos_store(3) [OF l(5) hb] unfolding B_def by blast
  have ue: "unat (of_nat HE :: u64) = HE" using HB_HE(2) by (simp add: unat_of_nat_u64)
  have lt: "\<not> N \<ge> of_nat HE" using cn(1,7) ue by (simp add: word_le_nat_alt)
  have "kfree_forward B h = (if g then kfree_forward B (set_size B (v (hmem h)) h) else Some (Inr h))"
    using lt cn(2,3) he unfolding kfree_forward.simps [of B h] Let_def blk_size_def cf(5) v_def by (simp add: blk_defs)
  moreover have "kfree_forward_vm code r (of_nat HE) B s = (if g then kfree_forward_vm code r (of_nat HE) B s5 else Some (Inr s3))"
    using lt cn(2,3) l1(1) l(1,2,4) l5(1) unfolding kfree_forward_vm.simps [of code r "of_nat HE" B s] v_def
    by (simp add: cf(5) Let_def)
  moreover have "heap_sim U s0 (hmem (set_size B (v (hmem h)) h)) s5" using l5(2) by (simp add: set_size_def)
  ultimately show thesis using that l(3) by blast
qed

lemma kfree_forward_sim:
  "heap_end h = of_nat HE \<Longrightarrow> chain (hmem h) b HE ((f, n) # ys) \<Longrightarrow> HB \<le> b \<Longrightarrow> 16 dvd b \<Longrightarrow> hdr_pages b ((f, n) # ys) \<subseteq> U \<Longrightarrow>
     heap_sim U s0 (hmem h) s \<Longrightarrow>
   \<exists>h' s'. kfree_forward (of_nat b) h = Some (Inr h') \<and> kfree_forward_vm code r (of_nat HE) (of_nat b) s = Some (Inr s') \<and>
     heap_sim U s0 (hmem h') s'"
proof (induction n ys arbitrary: h s rule: absorb.induct)
  case (1 n)
  let ?B = "of_nat b :: u64"
  note cf = chain_first [OF 1(2) HB_HE(2)]
  have hp: "hdr_pos U b" using chain_pos(1) [OF 1(2-4)] 1(5) by simp
  obtain s1 where l: "vload64 code r (?B + 8) s = Some (rd64 (hmem h) (?B + 8), s1)" "heap_sim U s0 (hmem h) s1"
    using hdr_pos_load(3) [OF 1(6) hp] by blast
  have eq: "b + 16 + n = HE" using cf(8) by simp
  have "kfree_forward ?B h = Some (Inr h)"
    using 1(1) cf(5) eq unfolding kfree_forward.simps [of ?B h] by (simp add: blk_defs)
  moreover have "kfree_forward_vm code r (of_nat HE) ?B s = Some (Inr s1)"
    using cf(5) eq l(1) unfolding kfree_forward_vm.simps [of code r "of_nat HE" ?B s] by simp
  ultimately show ?case using l(2) by blast
next
  case (2 n g m ys)
  let ?B = "of_nat b :: u64" and ?N = "of_nat (b + 16 + n) :: u64"
  let ?h = "set_size ?B (rd64 (hmem h) (?B + 8) + (16 + rd64 (hmem h) (?N + 8))) h"
  note cf = chain_first [OF 2(3) HB_HE(2)] and cp = chain_pos [OF 2(3-5)]
  have c2: "chain (hmem h) (b + 16 + n) HE ((g, m) # ys)" using 2(3) by simp
  have hb: "hdr_pos U b" using cp(1) 2(6) by simp
  have hn: "hdr_pos U (b + 16 + n)" using chain_pos(1) [OF c2 cp(2,3)] 2(6) by simp
  obtain s3 s5 where s: "heap_sim U s0 (hmem h) s3" "heap_sim U s0 (hmem ?h) s5"
    "kfree_forward ?B h = (if g then kfree_forward ?B ?h else Some (Inr h))"
    "kfree_forward_vm code r (of_nat HE) ?B s = (if g then kfree_forward_vm code r (of_nat HE) ?B s5 else Some (Inr s3))"
    by (rule kfree_round [OF 2(2,3) hb hn 2(7)])
  show ?case
  proof (cases g)
    case False
    then show ?thesis unfolding s(3,4) using s(1) by simp
  next
    case True
    have ch: "chain (hmem ?h) b HE ((f, n + (16 + m)) # ys)"
      using set_size_chain(1) [OF 2(3) HB_HE(2) size_sum [OF 2(3) HB_HE(2)]] by (simp add: blk_size_def)
    have sub: "hdr_pages b ((f, n + (16 + m)) # ys) \<subseteq> U" using 2(6) by (simp add: ac_simps)
    have he: "heap_end ?h = of_nat HE" using 2(2) by (simp add: set_size_def)
    from 2(1) [OF True he ch 2(4,5) sub s(2)] True show ?thesis unfolding s(3,4) by simp
  qed
qed

lemma kfree_prev_sim:
  assumes e: "a + span xs \<le> HE"
  shows "chain (hmem h) a (a + span xs) xs \<Longrightarrow> HB \<le> a \<Longrightarrow> 16 dvd a \<Longrightarrow> hdr_pages a xs \<subseteq> U \<Longrightarrow> heap_sim U s0 (hmem h) s \<Longrightarrow>
    \<exists>q s'. kfree_prev (of_nat (a + span xs)) p (of_nat a) h = Some q \<and>
      kfree_prev_vm code r (of_nat (a + span xs)) p (of_nat a) s = Some (q, s') \<and> heap_sim U s0 (hmem h) s'"
  using e
proof (induction xs arbitrary: a p s)
  case Nil
  then show ?case by (simp add: kfree_prev.simps kfree_prev_vm.simps)
next
  case (Cons x xs)
  obtain f n where x: "x = (f, n)" by force
  let ?e = "a + span (x # xs)" and ?A = "of_nat a :: u64"
  have sp: "?e = a + 16 + n + span xs" by (simp add: x)
  have el: "?e < 2 ^ 64" using Cons.prems(6) HB_HE(2) by simp
  note cf = chain_first [OF Cons.prems(1) [unfolded x] el [unfolded x]]
  have h: "hdr_ok (hmem h) ?A f n" using Cons.prems(1) by (simp add: x)
  have ha: "hdr_pos U a" using Cons.prems by (simp add: hdr_pos_def x)
  have nxt: "HB \<le> a + 16 + n" "16 dvd a + 16 + n" using Cons.prems(2,3) h by (auto simp: hdr_ok_def intro: dvd_add)
  have lt: "?A < (of_nat ?e :: u64)"
    using cf(1,7) el by (simp add: word_less_nat_alt unat_of_nat_u64 x del: of_nat_add)
  obtain s1 where l: "vload64 code r (?A + 8) s = Some (rd64 (hmem h) (?A + 8), s1)" "heap_sim U s0 (hmem h) s1"
    using hdr_pos_load(3) [OF Cons.prems(5) ha] by blast
  have ch: "chain (hmem h) (a + 16 + n) (a + 16 + n + span xs) xs" using Cons.prems(1) by (simp add: x add.assoc)
  have sub: "hdr_pages (a + 16 + n) xs \<subseteq> U" using Cons.prems(4) by (simp add: x)
  have le: "a + 16 + n + span xs \<le> HE" using Cons.prems(6) by (simp add: x)
  have ab: "kfree_prev (of_nat ?e) p ?A h = kfree_prev (of_nat ?e) ?A (of_nat (a + 16 + n)) h"
    using lt cf(5) by (simp add: kfree_prev.simps [of _ p] blk_size_def del: of_nat_add)
  have vm: "kfree_prev_vm code r (of_nat ?e) p ?A s = kfree_prev_vm code r (of_nat ?e) ?A (of_nat (a + 16 + n)) s1"
    using lt l(1) cf(5) by (simp add: kfree_prev_vm.simps [of _ _ _ p] del: of_nat_add)
  from Cons.IH [OF ch nxt sub l(2) le, of ?A] show ?case unfolding ab vm unfolding sp .
qed

lemma kfree_join_sim:
  assumes sim: "heap_sim U s0 (hmem h) s" and wf: "heap_wf h (xs @ (True, n) # ys)" and u: "hdr_pages HB (xs @ (True, n) # ys) \<subseteq> U"
  shows "\<exists>s'. kfree_join_vm code r (of_nat (HB + span xs)) (if xs = [] then 0 else of_nat (HB + span (butlast xs))) s = Some (Inr s') \<and>
    heap_sim U s0 (hmem (join_at xs h)) s'"
proof (cases xs rule: rev_cases)
  case Nil
  then show ?thesis using sim by (simp add: kfree_join_vm_def join_at_def)
next
  case (snoc zs z)
  obtain f m where z: "z = (f, m)" by force
  have wf2: "heap_wf h (zs @ (f, m) # (True, n) # ys)" using wf by (simp add: snoc z)
  note q = heap_wf_parts [OF wf2]
  have b: "HB + span xs = HB + span zs + 16 + m" by (simp add: snoc z)
  let ?P = "of_nat (HB + span zs) :: u64" and ?B = "of_nat (HB + span zs + 16 + m) :: u64"
  have al: "16 dvd HB + span zs" using q(1) HB_HE(3) chain_dvd by (auto intro: dvd_add)
  have c2: "chain (hmem h) (HB + span zs + 16 + m) HE ((True, n) # ys)" using q(2) by simp
  note cp = chain_pos [OF q(2) _ al]
  have hP: "hdr_pos U (HB + span zs)" using cp(1) u by (simp add: snoc z hdr_pages_append)
  have hB: "hdr_pos U (HB + span zs + 16 + m)" using chain_pos(1) [OF c2] cp(2,3) u by (simp add: snoc z hdr_pages_append)
  have P0: "?P \<noteq> 0" using q(4) HB_HE(4) by (metis add_is_0 less_numeral_extra(3) unat_0)
  obtain s1 s2 s3 where l: "vload32 code r (?P + 4) s = Some (rd32 (hmem h) (?P + 4), s1)" "heap_sim U s0 (hmem h) s1"
    "vload64 code r (?P + 8) s1 = Some (rd64 (hmem h) (?P + 8), s2)" "vload64 code r (?B + 8) s2 = Some (rd64 (hmem h) (?B + 8), s3)"
    "heap_sim U s0 (hmem h) s3"
    using hdr_pos_load(2) [OF sim hP] hdr_pos_load(3) [OF _ hP] hdr_pos_load(3) [OF _ hB] by metis
  show ?thesis
    using P0 l hdr_pos_store(3) [OF l(5) hP, of code r "rd64 (hmem h) (?P + 8) + (16 + rd64 (hmem h) (?B + 8))"]
    unfolding kfree_join_vm_def join_at_def b by (auto simp: snoc blk_defs Let_def simp del: of_nat_add)
qed

lemma kfree_sim:
  assumes wf: "heap_wf h (xs @ (False, n) # ys)" and sim: "heap_sim U s0 (hmem h) s" and u: "hdr_pages HB (xs @ (False, n) # ys) \<subseteq> U"
  defines "p \<equiv> of_nat (HB + span xs) + 16 :: u64"
  shows "\<exists>h' s'. kfree p h = Some (Inr h') \<and> kfree_vm code r (heap_start h) (heap_end h) p s = Some (Inr s') \<and> heap_sim U s0 (hmem h') s'"
proof -
  let ?b = "of_nat (HB + span xs) :: u64"
  note w = heap_wf_ends [OF wf] and q = heap_wf_parts [OF wf]
  note cf = chain_first [OF q(2) HB_HE(2)] and fr = set_free_chain [OF q(2) HB_HE(2)]
  have al: "16 dvd HB + span xs" using q(1) HB_HE(3) chain_dvd by (auto intro: dvd_add)
  have hb: "hdr_pos U (HB + span xs)" using chain_pos(1) [OF q(2) _ al] u by (simp add: hdr_pages_append)
  have rng: "\<not> (?b < heap_start h \<or> heap_end h \<le> ?b)"
    using q(3,4) HB_HE(2) w(2,3) by (simp add: word_less_nat_alt word_le_nat_alt unat_of_nat_u64 del: of_nat_add)
  obtain s1 s2 where l: "vload32 code r ?b s = Some (HEAP_MAGIC, s1)" "vload32 code r (?b + 4) s1 = Some (0, s2)" "heap_sim U s0 (hmem h) s2"
    using hdr_pos_load(1) [OF sim hb, of code r] hdr_pos_load(2) [OF _ hb] cf(2,3) by (metis (full_types))
  obtain s3 where s3: "vstore32 code r (?b + 4) 1 s2 = Some s3" "heap_sim U s0 (hmem (set_free ?b 1 h)) s3"
    using hdr_pos_store(2) [OF l(3) hb, of code r 1] by (auto simp: set_free_def)
  have he: "heap_end (set_free ?b 1 h) = of_nat HE" using w(2) by (simp add: set_free_def)
  have sub: "hdr_pages (HB + span xs) ((True, n) # ys) \<subseteq> U" "hdr_pages HB xs \<subseteq> U" using u by (simp_all add: hdr_pages_append)
  obtain h4 s4 where s4: "kfree_forward ?b (set_free ?b 1 h) = Some (Inr h4)"
    "kfree_forward_vm code r (of_nat HE) ?b s3 = Some (Inr s4)" "heap_sim U s0 (hmem h4) s4"
    using kfree_forward_sim [OF he fr(1) _ al sub(1) s3(2)] by force
  obtain h4' where h4: "kfree_forward ?b (set_free ?b 1 h) = Some (Inr h4')" "chain (hmem h4') HB (HB + span xs) xs"
    "chain (hmem h4') (HB + span xs) HE ((True, fst (absorb n ys)) # snd (absorb n ys))"
    "heap_start h4' = heap_start h" "heap_end h4' = heap_end h"
    "kfree_prev ?b 0 (heap_start h4') h4' = Some (if xs = [] then 0 else of_nat (HB + span (butlast xs)))"
    by (rule kfree_merge [OF wf]) 
  have eq: "h4' = h4" using h4(1) s4(1) by simp
  have wf4: "heap_wf h4 (xs @ (True, fst (absorb n ys)) # snd (absorb n ys))"
    using wf h4(2-5) by (simp add: heap_wf_def chain_append eq)
  have u4: "hdr_pages HB (xs @ (True, fst (absorb n ys)) # snd (absorb n ys)) \<subseteq> U"
    using u absorb_hdrs [of "HB + span xs + 16" n ys] by (auto simp: hdr_pages_append add.assoc)
  have le: "HB + span xs \<le> HE" using q(3) by simp
  from kfree_prev_sim [OF le h4(2) [unfolded eq] order_refl HB_HE(3) sub(2) s4(3), of 0 code r] obtain s5 where
    s5: "kfree_prev_vm code r ?b 0 (of_nat HB) s4 = Some (if xs = [] then 0 else of_nat (HB + span (butlast xs)), s5)" "heap_sim U s0 (hmem h4) s5"
    using h4(4,6) w(3) by (auto simp: eq)
  obtain s6 where s6: "kfree_join_vm code r ?b (if xs = [] then 0 else of_nat (HB + span (butlast xs))) s5 = Some (Inr s6)"
    "heap_sim U s0 (hmem (join_at xs h4)) s6"
    using kfree_join_sim [OF s5(2) wf4 u4] by blast
  have "kfree_vm code r (heap_start h) (heap_end h) p s = Some (Inr s6)"
    using rng q(5) l(1,2) s3(1) s4(2) s5(1) s6(1) unfolding kfree_vm_def Let_def p_def w(2,3) by (simp del: of_nat_add)
  moreover have "kfree p h = Some (Inr (join_at xs h4))"
    using rng q(5) cf(2,3) s4(1) h4(6) unfolding kfree_def Let_def join_at_def p_def eq by (simp add: blk_defs del: of_nat_add)
  ultimately show ?thesis using s6(2) by blast
qed

lemma heap_free_loop_sim:
  assumes he: "heap_end h = of_nat HE"
  shows "chain (hmem h) b HE bs \<Longrightarrow> HB \<le> b \<Longrightarrow> 16 dvd b \<Longrightarrow> hdr_pages b bs \<subseteq> U \<Longrightarrow> heap_sim U s0 (hmem h) s \<Longrightarrow>
    \<exists>v s'. heap_free_loop acc (of_nat b) h = Some (Inr v) \<and>
      heap_free_loop_vm code r (of_nat HE) acc (of_nat b) s = Some (Inr (v, s')) \<and> heap_sim U s0 (hmem h) s'"
proof (induction bs arbitrary: b acc s)
  case Nil
  then show ?case using he by (simp add: heap_free_loop.simps heap_free_loop_vm.simps)
next
  case (Cons x bs)
  obtain f n where x: "x = (f, n)" by force
  let ?B = "of_nat b :: u64"
  note c = chain_first [OF Cons.prems(1) [unfolded x] HB_HE(2)]
  note cp = chain_pos [OF Cons.prems(1) [unfolded x] Cons.prems(2,3)]
  have hp: "hdr_pos U b" by (rule cp(1)) (use Cons.prems(4) in \<open>simp add: x\<close>)
  have ue: "unat (of_nat HE :: u64) = HE" using HB_HE(2) by (simp add: unat_of_nat_u64)
  have lt: "?B < of_nat HE" using c(1,7) ue by (simp add: word_less_nat_alt)
  obtain s1 s2 s3 where l: "vload32 code r ?B s = Some (rd32 (hmem h) ?B, s1)"
    "vload32 code r (?B + 4) s1 = Some (rd32 (hmem h) (?B + 4), s2)"
    "vload64 code r (?B + 8) s2 = Some (rd64 (hmem h) (?B + 8), s3)" "heap_sim U s0 (hmem h) s3"
    by (rule hdr_load3 [OF Cons.prems(5) hp])
  have nx: "((of_nat HE :: u64) \<le> of_nat (b + 16 + n)) = (bs = [])"
    using c(6,8) ue Cons.prems(1) x by (simp add: word_le_nat_alt del: of_nat_add) auto
  let ?acc = "if f then acc + rd64 (hmem h) (?B + 8) else acc"
  have ab: "heap_free_loop acc ?B h = (if bs = [] then Some (Inr ?acc) else heap_free_loop ?acc (of_nat (b + 16 + n)) h)"
    using lt c(2,3) nx he unfolding heap_free_loop.simps [of acc ?B h] Let_def blk_size_def c(5) by (simp add: blk_defs del: of_nat_add)
  have vm: "heap_free_loop_vm code r (of_nat HE) acc ?B s =
      (if bs = [] then Some (Inr (?acc, s3)) else heap_free_loop_vm code r (of_nat HE) ?acc (of_nat (b + 16 + n)) s3)"
    using lt c(2,3) nx l(1-3) unfolding heap_free_loop_vm.simps [of code r "of_nat HE" acc ?B s] by (simp add: c(5) Let_def del: of_nat_add)
  have ch: "chain (hmem h) (b + 16 + n) HE bs" "hdr_pages (b + 16 + n) bs \<subseteq> U" using Cons.prems(1,4) x by simp_all
  show ?case
  proof (cases "bs = []")
    case True
    then show ?thesis unfolding ab vm using l(4) by simp
  next
    case False
    from Cons.IH [OF ch(1) cp(2,3) ch(2) l(4), of ?acc] False show ?thesis unfolding ab vm by simp
  qed
qed

lemma heap_free_bytes_sim:
  assumes wf: "heap_wf h bs" and sim: "heap_sim U s0 (hmem h) s" and u: "hdr_pages HB bs \<subseteq> U"
  shows "\<exists>v s'. heap_free_bytes h = Some (Inr v) \<and> heap_free_bytes_vm code r (heap_start h) (heap_end h) s = Some (Inr (v, s')) \<and>
    heap_sim U s0 (hmem h) s'"
  using heap_free_loop_sim [OF heap_wf_ends(2) [OF wf] heap_wf_ends(1) [OF wf] order_refl HB_HE(3) u sim, of 0 code r]
  unfolding heap_free_bytes_def heap_free_bytes_vm_def heap_wf_ends(2,3) [OF wf] .

section \<open>The contract, on the machine\<close>

definition kheap :: "'a sys_scheme \<Rightarrow> heap_st" where
  "kheap s = heap_of VM_HEAP_BASE (VM_HEAP_BASE + VM_HEAP_SIZE) s"

abbreviation kmalloc_k where "kmalloc_k code r \<equiv> kmalloc_vm code r VM_HEAP_BASE (VM_HEAP_BASE + VM_HEAP_SIZE)"
abbreviation kfree_k where "kfree_k code r \<equiv> kfree_vm code r VM_HEAP_BASE (VM_HEAP_BASE + VM_HEAP_SIZE)"


definition vm_heap_fresh :: "'a vm_sys_scheme \<Rightarrow> bool" where
  "vm_heap_fresh s \<longleftrightarrow> heap_backed s \<and> heap_wf (kheap s) [(True, 0xFFFFF0)]"


lemma kheap_fields [simp]: "heap_start (kheap s) = VM_HEAP_BASE" "heap_end (kheap s) = VM_HEAP_BASE + VM_HEAP_SIZE" "hmem (kheap s) = heap_view s"
  by (simp_all add: kheap_def heap_of_def)

lemma heap_wf_sim: "heap_wf h bs \<Longrightarrow> heap_sim U s0 (hmem h) s \<Longrightarrow> heap_wf (kheap s) bs"
  using heap_wf_view [of h bs s] by (simp add: heap_sim_def kheap_def)



lemma kmalloc_vm_runs:
  assumes "heap_backed s" "heap_wf (kheap s) bs"
  obtains p h' s' where "kmalloc n (kheap s) = Some (Inr (p, h'))" "kmalloc_k code r n s = Some (Inr (p, s'))" "heap_sim UNIV s (hmem h') s'"
  using kmalloc_sim [OF assms(2), of UNIV s s n code r] heap_sim_refl [OF assms(1)] by auto




section \<open>Properties\<close>

text \<open>
  (C10) The heap on the machine is the heap on plain memory.  While enough frames are left for the pages not touched yet,
  \<^verbatim>\<open>kmalloc\<close>, \<^verbatim>\<open>kfree\<close> of a used block and \<^verbatim>\<open>heap_free_bytes\<close>, run with every access going through the page tables and the
  page-fault handler, return what the same functions return on the memory the page tables show, leave that memory as
  they do, keep the tables well formed and the reserve of frames sufficient, and print nothing.
\<close>

theorem heap_on_machine_refines:
  assumes "heap_backed s" and "heap_wf (kheap s) (xs @ (False, m) # ys)"
  shows "(\<exists>p h s'. kmalloc n (kheap s) = Some (Inr (p, h)) \<and> kmalloc_k code r n s = Some (Inr (p, s')) \<and>
      heap_backed s' \<and> con s' = con s \<and> (\<forall>x. heap_addr x \<longrightarrow> heap_view s' x = hmem h x)) \<and>
    (\<exists>h s'. kfree (of_nat (HB + span xs) + 16) (kheap s) = Some (Inr h) \<and> kfree_k code r (of_nat (HB + span xs) + 16) s = Some (Inr s') \<and>
      heap_backed s' \<and> con s' = con s \<and> (\<forall>x. heap_addr x \<longrightarrow> heap_view s' x = hmem h x)) \<and>
    (\<exists>v s'. heap_free_bytes (kheap s) = Some (Inr v) \<and> heap_free_bytes_vm code r VM_HEAP_BASE (VM_HEAP_BASE + VM_HEAP_SIZE) s = Some (Inr (v, s')) \<and>
      heap_backed s' \<and> con s' = con s \<and> (\<forall>x. heap_addr x \<longrightarrow> heap_view s' x = heap_view s x))"
proof -
  have r0: "heap_sim UNIV s (hmem (kheap s)) s" using heap_sim_refl [OF assms(1)] by simp
  have sim: "heap_backed s' \<and> con s' = con s \<and> (\<forall>x. heap_addr x \<longrightarrow> heap_view s' x = m x)" if "heap_sim UNIV s m s'" for m s'
    using that only_vm_fields(1) by (auto simp: heap_sim_def)
  from kmalloc_sim [OF assms(2) r0, of n code r] kfree_sim [OF assms(2) r0, of code r] heap_free_bytes_sim [OF assms(2) r0, of code r]
  show ?thesis using sim by (simp del: of_nat_add) blast
qed

lemma heap_init_vm_sim:
  assumes bk: "heap_backed s" and u: "hpage VM_HEAP_BASE \<in> U"
  obtains s' where "heap_init_vm code r s = Some (0, VM_HEAP_BASE, VM_HEAP_BASE + VM_HEAP_SIZE, s')" "vm_heap_fresh s'"
    "heap_sim U s (hmem (snd (heap_init (kheap s)))) s'"
proof -
  have b: "of_nat HB = VM_HEAP_BASE" by (rule HB_HE(5))
  have hp: "hdr_pos U HB" using u HB_HE(1,3) by (simp add: hdr_pos_def b)
  obtain s1 s2 s3 where s: "vstore32 code r VM_HEAP_BASE HEAP_MAGIC s = Some s1" "vstore32 code r (VM_HEAP_BASE + 4) 1 s1 = Some s2"
    "vstore64 code r (VM_HEAP_BASE + 8) (VM_HEAP_SIZE - 16) s2 = Some s3"
    "heap_sim U s (wr64 (wr32 (wr32 (heap_view s) VM_HEAP_BASE HEAP_MAGIC) (VM_HEAP_BASE + 4) 1) (VM_HEAP_BASE + 8) (VM_HEAP_SIZE - 16)) s3"
    using hdr_pos_store(1) [OF heap_sim_refl [OF bk] hp, unfolded b] hdr_pos_store(2,3) [OF _ hp, unfolded b] by metis
  have m: "hmem (snd (heap_init (kheap s))) =
      wr64 (wr32 (wr32 (heap_view s) VM_HEAP_BASE HEAP_MAGIC) (VM_HEAP_BASE + 4) 1) (VM_HEAP_BASE + 8) (VM_HEAP_SIZE - 16)"
    by (simp add: heap_init_def Let_def blk_defs)
  have sim: "heap_sim U s (hmem (snd (heap_init (kheap s)))) s3" using s(4) m by simp
  have "vm_heap_fresh s3" using heap_wf_sim [OF heap_init_wf sim] sim by (simp add: vm_heap_fresh_def heap_sim_def)
  then show thesis using that s(1-3) sim by (simp add: heap_init_vm_def)
qed

lemma card_heap_pages: "card heap_pages \<le> 4096"
proof -
  have "heap_pages \<subseteq> (\<lambda>k. of_nat (HB + 4096 * k)) ` {..<4096}"
  proof
    fix p assume p: "p \<in> heap_pages"
    then have r: "HB \<le> unat p" "unat p < HE" by (simp_all add: heap_pages_def heap_addr_range)
    have "p AND 4095 = 0" using p page_plus [of p] by (simp add: heap_pages_def hpage_def)
    then have "4096 dvd unat p" by (simp add: aligned4096_iff)
    moreover have "4096 dvd HB" by (simp add: HB_def VM_HEAP_BASE_def)
    ultimately have "4096 dvd unat p - HB" by (rule dvd_diff_nat)
    then obtain k where k: "unat p - HB = 4096 * k" by (elim dvdE)
    then have "unat p = HB + 4096 * k" "k < 4096" using r HB_HE(1) by simp_all
    then show "p \<in> (\<lambda>k. of_nat (HB + 4096 * k)) ` {..<4096}" by (intro image_eqI [of _ _ k]) (metis of_nat_unat ucast_id, simp)
  qed
  then have "card heap_pages \<le> card ((\<lambda>k. of_nat (HB + 4096 * k) :: u64) ` {..<4096})" by (rule card_mono [rotated]) simp
  also have "\<dots> \<le> 4096" using card_image_le [of "{..<4096::nat}" "\<lambda>k. of_nat (HB + 4096 * k) :: u64"] by simp
  finally show ?thesis .
qed

lemma demo_idt_backed: "heap_backed demo_idt"
proof -
  have "pmm demo_idt = demo_pmm" by (simp add: demo_idt_def)
  moreover have "card (heap_pages - heap_mapped demo_idt) \<le> card heap_pages" by (rule card_mono) auto
  ultimately show ?thesis
    using demo_idt_paged(1) demo_pmm_card card_heap_pages by (auto simp: heap_backed_def)
qed

lemma demo_fresh: "\<exists>s :: idt_sys. vm_heap_fresh s"
  using heap_init_vm_sim [OF demo_idt_backed UNIV_I] by metis

theorem heap_on_machine_refines_witness:
  "\<exists>(s :: idt_sys) s'. heap_wf (kheap s) ([] @ (False, 112) # [(True, 0xFFFF70)]) \<and> kfree_k (\<lambda>_ _ s. s) (demo_regs 0 0) (VM_HEAP_BASE + 16) s = Some (Inr s')"
proof -
  obtain s0 :: idt_sys where s0: "heap_backed s0" "heap_wf (kheap s0) [(True, 0xFFFFF0)]" using demo_fresh by (auto simp: vm_heap_fresh_def)
  have "kmalloc_fit 100 [(True, 0xFFFFF0)] = Some ([], 0xFFFFF0, [])" by (simp add: kmalloc_fit_def round16_def)
  from kmalloc_spec(2) [OF s0(2) this] obtain h where h: "kmalloc 100 (kheap s0) = Some (Inr (VM_HEAP_BASE + 16, h))"
    "heap_wf h ([] @ (False, 112) # [(True, 0xFFFF70)])" using HB_HE(5) by (auto simp: round16_def split_block_def)
  obtain p h' s where k: "kmalloc 100 (kheap s0) = Some (Inr (p, h'))" "heap_sim UNIV s0 (hmem h') s"
    by (rule kmalloc_vm_runs [OF s0, of 100 "\<lambda>_ _ s. s" "demo_regs 0 0"]) blast
  have wf: "heap_wf (kheap s) ([] @ (False, 112) # [(True, 0xFFFF70)])" using heap_wf_sim [OF h(2)] k h(1) by simp
  have "heap_backed s" using k(2) by (simp add: heap_sim_def)
  from heap_on_machine_refines [OF this wf, of 0 "\<lambda>_ _ s. s" "demo_regs 0 0"] wf show ?thesis using HB_HE(5) by auto
qed



end
