(* ===== verification/Heap_Test.thy ===== *)
theory Heap_Test
  imports Heap_Vm Vga_Format
begin

text \<open>
  The heap's self test (\<^verbatim>\<open>heap_self_test\<close> and its two helpers, \<^verbatim>\<open>src/src/heap.c\<close>), run at every boot, on the machine: all
  its accesses go through the page tables.  It is shown to pass, and to leave the heap full.
\<close>

section \<open>The test\<close>

text \<open>The sequence of two heap calls: a panic ends both.\<close>

definition hbind :: "'a heap_res \<Rightarrow> ('a \<Rightarrow> 'b heap_res) \<Rightarrow> 'b heap_res" where
  "hbind m f = (case m of None \<Rightarrow> None | Some (Inl e) \<Rightarrow> Some (Inl e) | Some (Inr x) \<Rightarrow> f x)"

definition ranges_overlap :: "u64 \<Rightarrow> u64 \<Rightarrow> u64 \<Rightarrow> u64 \<Rightarrow> bool" where
  "ranges_overlap p plen q qlen =
     (let ps = p; pe = ps + plen; qs = q; qe = qs + qlen
      in ps < qe \<and> qs < pe)"

fun pattern_check ::
  "(isr_reg_t \<Rightarrow> regs_t \<Rightarrow> 'a irq_sys_scheme \<Rightarrow> 'a irq_sys_scheme) \<Rightarrow> regs_t \<Rightarrow> u64 \<Rightarrow> u8 \<Rightarrow> nat list \<Rightarrow> 'a irq_sys_scheme \<Rightarrow> (int \<times> 'a irq_sys_scheme) option" where
  "pattern_check code r p seed [] s = Some (0, s)"
| "pattern_check code r p seed (i # is) s =
     do {
       (c, s1) \<leftarrow> vload8 code r (p + of_nat i) s;
       if c \<noteq> seed XOR of_nat i then Some (-1, s1) else pattern_check code r p seed is s1
     }"

definition write_read_pattern ::
  "(isr_reg_t \<Rightarrow> regs_t \<Rightarrow> 'a irq_sys_scheme \<Rightarrow> 'a irq_sys_scheme) \<Rightarrow> regs_t \<Rightarrow> u64 \<Rightarrow> u64 \<Rightarrow> u8 \<Rightarrow> 'a irq_sys_scheme \<Rightarrow> (int \<times> 'a irq_sys_scheme) option" where
  "write_read_pattern code r p len seed s =
     do {
       s1 \<leftarrow> each (\<lambda>i. vstore8 code r (p + of_nat i) (seed XOR of_nat i)) [0..<unat len] s;
       pattern_check code r p seed [0..<unat len] s1
     }"

text \<open>The parts of \<^verbatim>\<open>heap_self_test\<close> in order.  The flag is the variable \<^verbatim>\<open>ok\<close>.\<close>

definition heap_test_align :: "u64 \<Rightarrow> u64 \<Rightarrow> u64 \<Rightarrow> bool \<times> 'a sys_scheme \<Rightarrow> bool \<times> 'a sys_scheme" where
  "heap_test_align a b c = (\<lambda>(ok, s).
     if a AND 15 \<noteq> 0 \<or> b AND 15 \<noteq> 0 \<or> c AND 15 \<noteq> 0
     then (False, kprintf (''M8/HEAP: FAIL align'' @ nl) [] s)
     else (ok, kprintf ''M8/HEAP: align PASS  '' [] s))"

definition heap_test_overlap :: "u64 \<Rightarrow> u64 \<Rightarrow> u64 \<Rightarrow> bool \<times> 'a sys_scheme \<Rightarrow> bool \<times> 'a sys_scheme" where
  "heap_test_overlap a b c = (\<lambda>(ok, s).
     if ranges_overlap a 16 b 200 \<or> ranges_overlap a 16 c 1000 \<or> ranges_overlap b 200 c 1000
     then (False, kprintf (''M8/HEAP: FAIL overlap'' @ nl) [] s)
     else (ok, kprintf ''overlap PASS  '' [] s))"

definition heap_test_pattern ::
  "(isr_reg_t \<Rightarrow> regs_t \<Rightarrow> 'a irq_sys_scheme \<Rightarrow> 'a irq_sys_scheme) \<Rightarrow> regs_t \<Rightarrow> u64 \<Rightarrow> u64 \<Rightarrow> u64 \<Rightarrow> bool \<times> 'a irq_sys_scheme \<Rightarrow> (bool \<times> 'a irq_sys_scheme) heap_res" where
  "heap_test_pattern code r a b c = (\<lambda>(ok, s).
     do {
       (ra, s1) \<leftarrow> write_read_pattern code r a 16 0xA0 s;
       (rb, s2) \<leftarrow> (if ra \<noteq> 0 then Some (ra, s1) else write_read_pattern code r b 200 0xB0 s1);
       (rc, s3) \<leftarrow> (if rb \<noteq> 0 then Some (rb, s2) else write_read_pattern code r c 1000 0xC0 s2);
       if rc \<noteq> 0 then Some (Inr (False, kprintf (''FAIL pattern'' @ nl) [] s3))
       else Some (Inr (ok, kprintf (''pattern PASS'' @ nl) [] s3))
     })"

definition heap_test_oom where
  "heap_test_oom code r hs he = (\<lambda>(ok, s).
     hbind (kmalloc_vm code r hs he VM_HEAP_SIZE s) (\<lambda>(oom, s1).
       if oom \<noteq> 0 then Some (Inr (False, kprintf (''M8/HEAP: FAIL oom returned %p'' @ nl) [VInt oom] s1))
       else Some (Inr (ok, kprintf (''M8/HEAP: oom PASS'' @ nl) [] s1))))"

text \<open>\<^verbatim>\<open>for (size_t i = 0; i < 100000; i += 4096)\<close>, and the loop that compares without leaving early.\<close>

definition big_steps :: "nat list" where "big_steps = map (\<lambda>k. 4096 * k) [0..<25]"

fun big_check where
  "big_check code r big pattern_ok [] s = Some (pattern_ok, s)"
| "big_check code r big pattern_ok (i # is) s =
     do {
       (c, s1) \<leftarrow> vload8 code r (big + of_nat i) s;
       big_check code r big (if c \<noteq> ucast (drop_bit 12 (of_nat i :: u64)) then False else pattern_ok) is s1
     }"

definition heap_test_big where
  "heap_test_big code r hs he = (\<lambda>(ok, s).
     let f0 = vm_fault_count s in
     hbind (kmalloc_vm code r hs he 100000 s) (\<lambda>(big, s1).
       if big = 0 then Some (Inr (False, kprintf (''M8/HEAP: FAIL big alloc'' @ nl) [] s1))
       else do {
         s2 \<leftarrow> each (\<lambda>i. vstore8 code r (big + of_nat i) (ucast (drop_bit 12 (of_nat i :: u64)))) big_steps s1;
         (pattern_ok, s3) \<leftarrow> big_check code r big True big_steps s2;
         let f1 = vm_fault_count s3;
         if \<not> pattern_ok \<or> f1 \<le> f0
         then Some (Inr (False, kprintf (''M8/HEAP: FAIL cross-page pattern=%d faults=%llu'' @ nl)
                [VInt (if pattern_ok then 1 else 0), VInt (f1 - f0)] s3))
         else Some (Inr (ok, kprintf (''M8/HEAP: cross-page fault PASS (faults +%llu)'' @ nl) [VInt (f1 - f0)] s3))
       }))"

definition heap_test_fill where
  "heap_test_fill code r hs he = (\<lambda>(ok, s).
     if \<not> ok then Some (Inr (ok, s))
     else
       hbind (heap_free_bytes_vm code r hs he s) (\<lambda>(free_total, s1).
       hbind (kmalloc_vm code r hs he free_total s1) (\<lambda>(fill, s2).
       hbind (if fill = 0 then Some (Inr (True, s2))
              else hbind (heap_free_bytes_vm code r hs he s2) (\<lambda>(left, s3). Some (Inr (left \<noteq> 0, s3)))) (\<lambda>(bad, s4).
         if bad
         then hbind (heap_free_bytes_vm code r hs he s4) (\<lambda>(left, s5).
                Some (Inr (False, kprintf (''M8/HEAP: FAIL fill (asked=0x%lx left=0x%lx)'' @ nl) [VInt free_total, VInt left] s5)))
         else Some (Inr (ok, s4))))))"

definition heap_test_coalesce where
  "heap_test_coalesce code r hs he a b = (\<lambda>(ok, s).
     if \<not> ok then Some (Inr (ok, s))
     else
       hbind (kfree_vm code r hs he b s) (\<lambda>s1.
       hbind (kfree_vm code r hs he a s1) (\<lambda>s2.
       hbind (heap_free_bytes_vm code r hs he s2) (\<lambda>(free_after, s3).
       hbind (kmalloc_vm code r hs he 224 s3) (\<lambda>(d, s4).
         if d = 0 then Some (Inr (False, kprintf (''M8/HEAP: FAIL coalesce (free=0x%lx)'' @ nl) [VInt free_after] s4))
         else Some (Inr (ok, kprintf (''M8/HEAP: coalesce PASS (free=0x%lx)'' @ nl) [VInt free_after] s4)))))))"

definition heap_self_test ::
  "(isr_reg_t \<Rightarrow> regs_t \<Rightarrow> 'a irq_sys_scheme \<Rightarrow> 'a irq_sys_scheme) \<Rightarrow> regs_t \<Rightarrow> u64 \<Rightarrow> u64 \<Rightarrow> 'a irq_sys_scheme \<Rightarrow>
     (int \<times> 'a irq_sys_scheme) heap_res" where
  "heap_self_test code r hs he s =
     hbind (kmalloc_vm code r hs he 16 s) (\<lambda>(a, s1).
     hbind (kmalloc_vm code r hs he 200 s1) (\<lambda>(b, s2).
     hbind (kmalloc_vm code r hs he 1000 s2) (\<lambda>(c, s3).
       if a = 0 \<or> b = 0 \<or> c = 0
       then Some (Inr (-1, kprintf (''M8/HEAP: FAIL alloc a=%p b=%p c=%p'' @ nl) [VInt a, VInt b, VInt c] s3))
       else
         (let s4 = kprintf (''M8/HEAP: a=%p b=%p c=%p'' @ nl) [VInt a, VInt b, VInt c] s3 in
          hbind (heap_test_pattern code r a b c (heap_test_overlap a b c (heap_test_align a b c (True, s4)))) (\<lambda>t1.
          hbind (heap_test_oom code r hs he t1) (\<lambda>t2.
          hbind (heap_test_big code r hs he t2) (\<lambda>t3.
          hbind (heap_test_fill code r hs he t3) (\<lambda>t4.
          hbind (heap_test_coalesce code r hs he a b t4) (\<lambda>(ok, s5).
            Some (Inr (if ok then 0 else -1, s5)))))))))))"

section \<open>Loops\<close>

lemma hbind_simps [simp]: "hbind (Some (Inr x)) f = f x" "hbind (Some (Inl e)) f = Some (Inl e)" "hbind None f = None"
  by (simp_all add: hbind_def)

lemma heap_sim_here: "heap_sim U s0 m s \<Longrightarrow> heap_sim V s m s"
  by (simp add: heap_sim_def only_vm_refl)

lemma heap_sim_mapped: "heap_sim U s0 m s \<Longrightarrow> heap_mapped s0 \<subseteq> heap_mapped s"
  by (simp add: heap_sim_def)

text \<open>Memory after the stores of a loop.\<close>

fun fill :: "('i \<Rightarrow> u64) \<Rightarrow> ('i \<Rightarrow> u8) \<Rightarrow> 'i list \<Rightarrow> bytes \<Rightarrow> bytes" where
  "fill a v [] m = m"
| "fill a v (i # is) m = fill a v is (m(a i := v i))"

lemma each_store:
  assumes a: "\<forall>i \<in> set is. heap_addr (a i) \<and> hpage (a i) \<in> U"
  shows "heap_sim U s0 m s \<Longrightarrow> \<exists>s'. each (\<lambda>i. vstore8 code r (a i) (v i)) is s = Some s' \<and>
    heap_sim U s0 (fill a v is m) s' \<and> heap_mapped s \<subseteq> heap_mapped s' \<and> (\<forall>i \<in> set is. hpage (a i) \<in> heap_mapped s')"
  using a
proof (induction "is" arbitrary: m s)
  case (Cons i "is")
  have ai: "heap_addr (a i)" "hpage (a i) \<in> U" using Cons.prems(2) by simp_all
  obtain s1 where s1: "vstore8 code r (a i) (v i) s = Some s1" "heap_sim U s (m(a i := v i)) s1" "hpage (a i) \<in> heap_mapped s1"
    using sim_store(1) [OF heap_sim_here [OF Cons.prems(1)] ai] by blast
  note sim1 = heap_sim_trans [OF Cons.prems(1) s1(2)]
  have rest: "\<forall>i \<in> set is. heap_addr (a i) \<and> hpage (a i) \<in> U" using Cons.prems(2) by simp
  from Cons.IH [OF sim1 rest] obtain s' where
    s': "each (\<lambda>i. vstore8 code r (a i) (v i)) is s1 = Some s'" "heap_sim U s0 (fill a v is (m(a i := v i))) s'"
      "heap_mapped s1 \<subseteq> heap_mapped s'" "\<forall>i \<in> set is. hpage (a i) \<in> heap_mapped s'" by blast
  then show ?case using s1 heap_sim_mapped [OF s1(2)] by auto
qed simp

lemma fill_other: "x \<notin> a ` set is \<Longrightarrow> fill a v is m x = m x"
  by (induction "is" arbitrary: m) auto

lemma fill_at: "inj_on a (set is) \<Longrightarrow> distinct is \<Longrightarrow> i \<in> set is \<Longrightarrow> fill a v is m (a i) = v i"
proof (induction "is" arbitrary: m)
  case (Cons j "is")
  show ?case
  proof (cases "i = j")
    case True
    then have "a i \<notin> a ` set is" using Cons.prems by (auto simp: inj_on_def)
    then show ?thesis using True by (simp add: fill_other)
  next
    case False
    then show ?thesis using Cons by auto
  qed
qed simp

lemma pattern_check_sim:
  assumes "\<forall>i \<in> set is. heap_addr (p + of_nat i) \<and> hpage (p + of_nat i) \<in> U \<and> m (p + of_nat i) = seed XOR of_nat i"
  shows "heap_sim U s0 m s \<Longrightarrow> \<exists>s'. pattern_check code r p seed is s = Some (0, s') \<and> heap_sim U s0 m s'"
  using assms
proof (induction "is" arbitrary: s)
  case (Cons i "is")
  then obtain s1 where s1: "vload8 code r (p + of_nat i) s = Some (seed XOR of_nat i, s1)" "heap_sim U s0 m s1"
    using sim_load(1) [OF Cons.prems(1), of "p + of_nat i" code r] by auto
  from Cons.IH [OF s1(2)] Cons.prems(2) s1(1) show ?case by simp
qed simp

lemma big_check_sim:
  assumes "\<forall>i \<in> set is. heap_addr (p + of_nat i) \<and> hpage (p + of_nat i) \<in> U \<and> m (p + of_nat i) = ucast (drop_bit 12 (of_nat i :: u64))"
  shows "heap_sim U s0 m s \<Longrightarrow> \<exists>s'. big_check code r p True is s = Some (True, s') \<and> heap_sim U s0 m s'"
  using assms
proof (induction "is" arbitrary: s)
  case (Cons i "is")
  then obtain s1 where s1: "vload8 code r (p + of_nat i) s = Some (ucast (drop_bit 12 (of_nat i :: u64)), s1)" "heap_sim U s0 m s1"
    using sim_load(1) [OF Cons.prems(1), of "p + of_nat i" code r] by auto
  from Cons.IH [OF s1(2)] Cons.prems(2) s1(1) show ?case by simp
qed simp

section \<open>Between the phases\<close>

text \<open>
  \<^verbatim>\<open>heap_now U s0 bs s\<close>: since \<^verbatim>\<open>s0\<close> there were heap accesses in the pages \<^verbatim>\<open>U\<close> and output, and the heap consists of the
  blocks \<^verbatim>\<open>bs\<close>.
\<close>

definition heap_now :: "u64 set \<Rightarrow> 'a vm_sys_scheme \<Rightarrow> block list \<Rightarrow> 'a vm_sys_scheme \<Rightarrow> bool" where
  "heap_now U s0 bs s \<longleftrightarrow> (\<exists>c. heap_sim U (s0\<lparr>con := c\<rparr>) (heap_view s) s) \<and> heap_wf (kheap s) bs"

lemma con_fields [simp]:
  "heap_view (s\<lparr>con := c\<rparr>) = heap_view s" "heap_leaf (s\<lparr>con := c\<rparr>) = heap_leaf s" "heap_mapped (s\<lparr>con := c\<rparr>) = heap_mapped s"
  "kheap (s\<lparr>con := c\<rparr>) = kheap s"
  by (simp_all add: heap_view_def heap_leaf_def heap_mapped_def kheap_def heap_of_def fun_eq_iff split: option.split)

lemma backed_con [simp]: "heap_backed (s\<lparr>con := c\<rparr>) = heap_backed s"
  by (simp add: heap_backed_def heap_paged_def vm_wf_def)

lemma only_vm_con: "only_vm s0 s \<Longrightarrow> only_vm (s0\<lparr>con := c\<rparr>) (s\<lparr>con := c\<rparr>)"
proof -
  assume "only_vm s0 s"
  then obtain m p t a f where s: "s = s0\<lparr>mem := m, pmm := p, tlb := t, cr2 := a, vm_faults := f\<rparr>" by (auto simp: only_vm_def)
  show ?thesis using only_vmI [where s = "s0\<lparr>con := c\<rparr>" and c = a and m = m and p = p and t = t and f = f]
    by (cases s0) (simp add: s)
qed

lemma heap_sim_con: "heap_sim U s0 m s \<Longrightarrow> heap_sim U (s0\<lparr>con := c\<rparr>) m (s\<lparr>con := c\<rparr>)"
  by (simp add: heap_sim_def only_vm_con heap_only_def)

lemma heap_now_print: "heap_now U s0 bs s \<Longrightarrow> heap_now U s0 bs (kprintf f as s)"
proof -
  assume n: "heap_now U s0 bs s"
  obtain c where k: "kprintf f as s = s\<lparr>con := c\<rparr>" using kprintf_con by blast
  from n obtain c0 where "heap_sim U (s0\<lparr>con := c0\<rparr>) (heap_view s) s" by (auto simp: heap_now_def)
  from heap_sim_con [OF this, of c] n show ?thesis by (auto simp: heap_now_def k)
qed

lemma heap_now_refl: "heap_backed s \<Longrightarrow> heap_wf (kheap s) bs \<Longrightarrow> heap_now U s bs s"
  unfolding heap_now_def using heap_sim_refl [of s U] by (auto intro: exI [of _ "con s"])

lemma heap_nowD:
  assumes "heap_now U s0 bs s"
  shows "heap_backed s" "heap_wf (kheap s) bs" "heap_mapped s0 \<subseteq> heap_mapped s" "heap_mapped s \<subseteq> heap_mapped s0 \<union> U"
    "vm_faults s = vm_faults s0 + of_nat (card (heap_mapped s - heap_mapped s0))" "vm_rest s = vm_rest s0"
proof -
  obtain c where c: "heap_sim U (s0\<lparr>con := c\<rparr>) (heap_view s) s" and w: "heap_wf (kheap s) bs" using assms by (auto simp: heap_now_def)
  show "heap_wf (kheap s) bs" by (rule w)
  show "heap_backed s" "heap_mapped s0 \<subseteq> heap_mapped s" "heap_mapped s \<subseteq> heap_mapped s0 \<union> U"
    "vm_faults s = vm_faults s0 + of_nat (card (heap_mapped s - heap_mapped s0))" using c by (simp_all add: heap_sim_def)
  have "vm_rest s = vm_rest (s0\<lparr>con := c\<rparr>)" using c by (intro vm_rest_only) (simp add: heap_sim_def)
  also have "\<dots> = vm_rest s0" by (rule vm_rest_sys) simp
  finally show "vm_rest s = vm_rest s0" .
qed

lemma heap_nowE:
  assumes "heap_now U s0 bs s"
  obtains c where "heap_sim U (s0\<lparr>con := c\<rparr>) (hmem (kheap s)) s" "heap_wf (kheap s) bs"
  using assms by (auto simp: heap_now_def)

lemma heap_nowI: "heap_sim U (s0\<lparr>con := c\<rparr>) (hmem h) s \<Longrightarrow> heap_wf h bs \<Longrightarrow> heap_now U s0 bs s"
proof -
  assume sim: "heap_sim U (s0\<lparr>con := c\<rparr>) (hmem h) s" and wf: "heap_wf h bs"
  have "heap_sim U (s0\<lparr>con := c\<rparr>) (heap_view s) s" using sim by (auto simp: heap_sim_def)
  then show ?thesis using heap_wf_sim [OF wf sim] unfolding heap_now_def by blast
qed

lemma heap_now_alloc:
  assumes n: "heap_now U s0 bs s" and u: "hdr_pages HB (kmalloc_blocks (round16 (unat size1)) bs) \<subseteq> U"
  shows "kmalloc_fit size1 bs = None \<Longrightarrow> \<exists>s'. kmalloc_k code r size1 s = Some (Inr (0, s')) \<and> heap_now U s0 bs s'"
    "kmalloc_fit size1 bs = Some (xs, k, ys) \<Longrightarrow> \<exists>s'. kmalloc_k code r size1 s = Some (Inr (of_nat (HB + span xs) + 16, s')) \<and>
       heap_now U s0 (xs @ split_block (round16 (unat size1)) k @ ys) s'"
proof -
  obtain c where c: "heap_sim U (s0\<lparr>con := c\<rparr>) (hmem (kheap s)) s" "heap_wf (kheap s) bs" by (rule heap_nowE [OF n])
  obtain p h s' where k: "kmalloc size1 (kheap s) = Some (Inr (p, h))" "kmalloc_k code r size1 s = Some (Inr (p, s'))"
    "heap_sim U (s0\<lparr>con := c\<rparr>) (hmem h) s'"
    using kmalloc_sim [OF c(2,1) u, of code r] by auto
  show "kmalloc_fit size1 bs = None \<Longrightarrow> \<exists>s'. kmalloc_k code r size1 s = Some (Inr (0, s')) \<and> heap_now U s0 bs s'"
    using kmalloc_spec(1) [OF c(2), of size1] k heap_nowI [OF k(3)] c(2) by auto
  show "kmalloc_fit size1 bs = Some (xs, k, ys) \<Longrightarrow> \<exists>s'. kmalloc_k code r size1 s = Some (Inr (of_nat (HB + span xs) + 16, s')) \<and>
       heap_now U s0 (xs @ split_block (round16 (unat size1)) k @ ys) s'"
    using kmalloc_spec(2) [OF c(2), of size1 xs k ys] k(1,2) heap_nowI [OF k(3)] by (auto simp del: of_nat_add)
qed

lemma heap_now_free:
  assumes n: "heap_now U s0 (xs @ (False, n) # ys) s" and u: "hdr_pages HB (xs @ (False, n) # ys) \<subseteq> U"
  shows "\<exists>s'. kfree_k code r (of_nat (HB + span xs) + 16) s = Some (Inr s') \<and> heap_now U s0 (release xs n ys) s'"
proof -
  obtain c where c: "heap_sim U (s0\<lparr>con := c\<rparr>) (hmem (kheap s)) s" "heap_wf (kheap s) (xs @ (False, n) # ys)" by (rule heap_nowE [OF n])
  obtain h s' where k: "kfree (of_nat (HB + span xs) + 16) (kheap s) = Some (Inr h)" "kfree_k code r (of_nat (HB + span xs) + 16) s = Some (Inr s')"
    "heap_sim U (s0\<lparr>con := c\<rparr>) (hmem h) s'"
    using kfree_sim [OF c(2,1) u, of code r] by auto
  then show ?thesis using kfree_spec [OF c(2)] heap_nowI [OF k(3)] by (auto simp del: of_nat_add)
qed

lemma heap_now_free_bytes:
  assumes n: "heap_now U s0 bs s" and u: "hdr_pages HB bs \<subseteq> U"
  shows "\<exists>s'. heap_free_bytes_vm code r VM_HEAP_BASE (VM_HEAP_BASE + VM_HEAP_SIZE) s = Some (Inr (of_nat (free_sum bs), s')) \<and> heap_now U s0 bs s'"
proof -
  obtain c where c: "heap_sim U (s0\<lparr>con := c\<rparr>) (hmem (kheap s)) s" "heap_wf (kheap s) bs" by (rule heap_nowE [OF n])
  note w = heap_wf_ends [OF c(2)]
  have "heap_free_bytes (kheap s) = Some (Inr (of_nat (free_sum bs)))"
    using heap_free_loop_spec [OF w(2) HB_HE(2) w(1), of 0] unfolding heap_free_bytes_def w(3) by simp
  then show ?thesis
    using heap_free_bytes_sim [OF c(2,1) u, of code r] heap_nowI [OF _ c(2)] by auto
qed

lemma payload_index:
  assumes "heap_wf h (xs @ (False, n) # ys)" "i < n"
  shows "unat (of_nat (HB + span xs) + 16 + of_nat i :: u64) = HB + span xs + 16 + i" "heap_addr (of_nat (HB + span xs) + 16 + of_nat i)"
proof -
  have le: "HB + span xs + 16 + n \<le> HE" by (rule heap_wf_parts(3) [OF assms(1)])
  have "(of_nat (HB + span xs) + 16 + of_nat i :: u64) = of_nat (HB + span xs + 16 + i)" by simp
  then show u: "unat (of_nat (HB + span xs) + 16 + of_nat i :: u64) = HB + span xs + 16 + i"
    using le assms(2) HB_HE(2) by (simp only:) (simp add: unat_of_nat_u64 del: of_nat_add)
  show "heap_addr (of_nat (HB + span xs) + 16 + of_nat i)" using u le assms(2) by (simp add: heap_addr_range del: of_nat_add)
qed

text \<open>A loop that stores into the payload of a used block.\<close>

lemma heap_now_fill:
  fixes xs :: "block list"
  defines "p \<equiv> of_nat (HB + span xs) + 16 :: u64"
  assumes n: "heap_now U s0 (xs @ (False, n) # ys) s" and i: "\<forall>i \<in> set is. i < n \<and> hpage (p + of_nat i) \<in> U" and d: "distinct is"
  obtains c m s' where "each (\<lambda>i. vstore8 code r (p + of_nat i) (v i)) is s = Some s'" "heap_sim U (s0\<lparr>con := c\<rparr>) m s'"
    "heap_wf ((kheap s)\<lparr>hmem := m\<rparr>) (xs @ (False, n) # ys)" "\<forall>i \<in> set is. m (p + of_nat i) = v i"
    "heap_mapped s \<subseteq> heap_mapped s'" "\<forall>i \<in> set is. hpage (p + of_nat i) \<in> heap_mapped s'"
proof -
  obtain c where c: "heap_sim U (s0\<lparr>con := c\<rparr>) (hmem (kheap s)) s" "heap_wf (kheap s) (xs @ (False, n) # ys)" by (rule heap_nowE [OF n])
  note px = payload_index [OF c(2), folded p_def]
  let ?a = "\<lambda>i. p + of_nat i" and ?m = "fill (\<lambda>i. p + of_nat i) v is (hmem (kheap s))"
  have ad: "\<forall>i \<in> set is. heap_addr (?a i) \<and> hpage (?a i) \<in> U" using i px(2) by blast
  have inj: "inj_on ?a (set is)" by (rule inj_onI) (use i px(1) in \<open>metis add_left_cancel\<close>)
  have w: "writes_in (hmem (kheap s)) ?m (HB + span xs + 16) (HB + span xs + 16 + n)"
  proof (unfold writes_in_def, intro allI impI fill_other notI)
    fix x assume x: "\<not> (HB + span xs + 16 \<le> unat x \<and> unat x < HB + span xs + 16 + n)" "x \<in> ?a ` set is"
    then obtain j where "j < n" "x = ?a j" using i by blast
    then show False using x(1) px(1) by simp
  qed
  show thesis
    using that [of _ c ?m] each_store [OF ad c(1), of code r v] payload_wf [OF c(2) w] fill_at [OF inj d] by blast
qed

lemma heap_now_pattern:
  fixes xs :: "block list"
  defines "p \<equiv> of_nat (HB + span xs) + 16 :: u64"
  assumes n: "heap_now U s0 (xs @ (False, n) # ys) s" and l: "unat len \<le> n" and u: "\<forall>i < n. hpage (p + of_nat i) \<in> U"
  shows "\<exists>s'. write_read_pattern code r p len seed s = Some (0, s') \<and> heap_now U s0 (xs @ (False, n) # ys) s'"
proof -
  have i: "\<forall>i \<in> set [0..<unat len]. i < n \<and> hpage (p + of_nat i) \<in> U" using l u by auto
  obtain c m s1 where s1: "each (\<lambda>i. vstore8 code r (p + of_nat i) (seed XOR of_nat i)) [0..<unat len] s = Some s1"
    "heap_sim U (s0\<lparr>con := c\<rparr>) m s1" "heap_wf ((kheap s)\<lparr>hmem := m\<rparr>) (xs @ (False, n) # ys)"
    "\<forall>i \<in> set [0..<unat len]. m (p + of_nat i) = seed XOR of_nat i"
    unfolding p_def
    by (rule heap_now_fill [OF n i [unfolded p_def] distinct_upt, where v = "\<lambda>i. seed XOR of_nat i" and code = code and r = r]) blast
  have "\<forall>i \<in> set [0..<unat len]. heap_addr (p + of_nat i) \<and> hpage (p + of_nat i) \<in> U \<and> m (p + of_nat i) = seed XOR of_nat i"
    using i s1(4) payload_index(2) [OF s1(3), folded p_def] by blast
  from pattern_check_sim [OF this s1(2), of code r] s1(1) obtain s2 where
    "write_read_pattern code r p len seed s = Some (0, s2)" "heap_sim U (s0\<lparr>con := c\<rparr>) m s2" by (auto simp: write_read_pattern_def)
  then show ?thesis using heap_nowI [OF _ s1(3)] by auto
qed

section \<open>The phases of the test\<close>

lemma hpage_near:
  assumes "k < 4096" "j < 4096"
  shows "hpage (of_nat (HB + 4096 * j + k)) = of_nat (HB + 4096 * j)"
proof -
  have a: "4096 dvd HB" by (simp add: HB_def VM_HEAP_BASE_def)
  have lt: "HB + 4096 * j + k < 2 ^ 64" using assms by (simp add: HB_def VM_HEAP_BASE_def)
  have u: "unat (of_nat (HB + 4096 * j + k) :: u64) = HB + 4096 * j + k" "unat (of_nat (HB + 4096 * j) :: u64) = HB + 4096 * j"
    using lt by (simp_all add: unat_of_nat_u64 del: of_nat_add)
  obtain q where q: "HB = 4096 * q" using a by (elim dvdE)
  have e: "HB + 4096 * j + k = k + 4096 * (q + j)" by (simp add: q)
  have "(k + 4096 * (q + j)) mod 4096 = k" using assms(1) by (simp only: mod_mult_self2 mod_less)
  then have "(HB + 4096 * j + k) mod 4096 = k" by (simp only: e)
  moreover have "unat (hpage x) = unat x - unat x mod 4096" for x by (simp add: hpage_def and_not_4095_nat)
  ultimately have "unat (hpage (of_nat (HB + 4096 * j + k))) = HB + 4096 * j" by (simp only: u)
  then show ?thesis using u(2) by (metis word_unat_eq_iff)
qed

lemma hpage_low: "k < 4096 \<Longrightarrow> hpage (of_nat (HB + k)) = VM_HEAP_BASE" "hpage VM_HEAP_BASE = VM_HEAP_BASE"
  "k < 4096 \<Longrightarrow> hpage (of_nat (k + HB)) = VM_HEAP_BASE"
  using hpage_near [of k 0] hpage_near [of 0 0] HB_HE(5) by (simp_all add: add.commute)

lemma hpage_payload: "span xs + 16 + i < 4096 \<Longrightarrow> hpage (of_nat (HB + span xs) + 16 + of_nat i) = VM_HEAP_BASE"
  using hpage_low(1) [of "span xs + 16 + i"] by (simp add: add.assoc)

lemmas test_simps = kmalloc_fit_def kmalloc_blocks_def round16_def split_block_def

abbreviation "blocks3 \<equiv> [(False, 16), (False, 208), (False, 1008), (True, 16775920)] :: block list"

lemma test_allocs:
  assumes "vm_heap_fresh s"
  obtains s1 s2 s3 where "kmalloc_k code r 16 s = Some (Inr (VM_HEAP_BASE + 16, s1))"
    "kmalloc_k code r 200 s1 = Some (Inr (VM_HEAP_BASE + 48, s2))" "kmalloc_k code r 1000 s2 = Some (Inr (VM_HEAP_BASE + 272, s3))"
    "heap_now {VM_HEAP_BASE} s blocks3 s3"
proof -
  note sm = test_simps hpage_low HB_HE(5)
  have n0: "heap_now {VM_HEAP_BASE} s [(True, 0xFFFFF0)] s" using assms heap_now_refl by (auto simp: vm_heap_fresh_def)
  have f1: "kmalloc_fit 16 [(True, 0xFFFFF0)] = Some ([], 0xFFFFF0, [])" by (simp add: sm)
  obtain s1 where s1: "kmalloc_k code r 16 s = Some (Inr (VM_HEAP_BASE + 16, s1))" "heap_now {VM_HEAP_BASE} s [(False, 16), (True, 16777168)] s1"
    using heap_now_alloc(2) [OF n0 _ f1, of code r] by (simp add: sm del: of_nat_add) blast
  have f2: "kmalloc_fit 200 [(False, 16), (True, 16777168)] = Some ([(False, 16)], 16777168, [])" by (simp add: sm)
  obtain s2 where s2: "kmalloc_k code r 200 s1 = Some (Inr (of_nat (HB + 32) + 16, s2))"
    "heap_now {VM_HEAP_BASE} s [(False, 16), (False, 208), (True, 16776944)] s2"
    using heap_now_alloc(2) [OF s1(2) _ f2, of code r] by (simp add: sm del: of_nat_add) blast
  have f3: "kmalloc_fit 1000 [(False, 16), (False, 208), (True, 16776944)] = Some ([(False, 16), (False, 208)], 16776944, [])" by (simp add: sm)
  obtain s3 where s3: "kmalloc_k code r 1000 s2 = Some (Inr (of_nat (HB + 256) + 16, s3))" "heap_now {VM_HEAP_BASE} s blocks3 s3"
    using heap_now_alloc(2) [OF s2(2) _ f3, of code r] by (simp add: sm del: of_nat_add) blast
  have "of_nat (HB + 32) + 16 = VM_HEAP_BASE + 48" "of_nat (HB + 256) + 16 = VM_HEAP_BASE + 272" using HB_HE(5) by simp_all
  then show thesis using that s1(1) s2(1) s3 by simp
qed

lemma test_pattern:
  assumes n: "heap_now {VM_HEAP_BASE} s0 blocks3 s"
  obtains s' where "heap_test_pattern code r (VM_HEAP_BASE + 16) (VM_HEAP_BASE + 48) (VM_HEAP_BASE + 272) (ok, s) = Some (Inr (ok, s'))"
    "heap_now {VM_HEAP_BASE} s0 blocks3 s'"
proof -
  have a: "of_nat (HB + span ([] :: block list)) + 16 = VM_HEAP_BASE + 16" "of_nat (HB + span [(False, 16)]) + 16 = VM_HEAP_BASE + 48"
    "of_nat (HB + span [(False, 16), (False, 208)]) + 16 = VM_HEAP_BASE + 272" using HB_HE(5) by simp_all
  have u: "\<forall>i < n. hpage (of_nat (HB + span xs) + 16 + of_nat i) \<in> {VM_HEAP_BASE}" if "span xs + 16 + n \<le> 4096" for xs n
    using that hpage_payload by simp
  obtain s1 where s1: "write_read_pattern code r (VM_HEAP_BASE + 16) 16 0xA0 s = Some (0, s1)" "heap_now {VM_HEAP_BASE} s0 blocks3 s1"
    using heap_now_pattern [where U = "{VM_HEAP_BASE}" and xs = "[]" and n = 16 and ys = "[(False, 208), (False, 1008), (True, 16775920)]" and len = 16 and code = code and r = r and s = s and ?s0.0 = s0 and seed = "0xA0"] n u [of "[]" 16] unfolding a by auto
  obtain s2 where s2: "write_read_pattern code r (VM_HEAP_BASE + 48) 200 0xB0 s1 = Some (0, s2)" "heap_now {VM_HEAP_BASE} s0 blocks3 s2"
    using heap_now_pattern [where U = "{VM_HEAP_BASE}" and xs = "[(False, 16)]" and n = 208 and ys = "[(False, 1008), (True, 16775920)]" and len = 200 and code = code and r = r and s = s1 and ?s0.0 = s0 and seed = "0xB0"] s1(2) u [of "[(False, 16)]" 208] unfolding a by auto
  obtain s3 where s3: "write_read_pattern code r (VM_HEAP_BASE + 272) 1000 0xC0 s2 = Some (0, s3)" "heap_now {VM_HEAP_BASE} s0 blocks3 s3"
    using heap_now_pattern [where U = "{VM_HEAP_BASE}" and xs = "[(False, 16), (False, 208)]" and n = 1008 and ys = "[(True, 16775920)]" and len = 1000 and code = code and r = r and s = s2 and ?s0.0 = s0 and seed = "0xC0"] s2(2) u [of "[(False, 16), (False, 208)]" 1008]
    unfolding a by auto
  show thesis using that s1(1) s2(1) s3 heap_now_print [OF s3(2)] by (simp add: heap_test_pattern_def)
qed

lemma test_oom:
  assumes n: "heap_now {VM_HEAP_BASE} s0 blocks3 s"
  obtains s' where "heap_test_oom code r VM_HEAP_BASE (VM_HEAP_BASE + VM_HEAP_SIZE) (ok, s) = Some (Inr (ok, s'))"
    "heap_now {VM_HEAP_BASE} s0 blocks3 s'"
proof -
  have f: "kmalloc_fit VM_HEAP_SIZE blocks3 = None" "kmalloc_blocks (round16 (unat VM_HEAP_SIZE)) blocks3 = blocks3"
    by (simp_all add: test_simps VM_HEAP_SIZE_def)
  have u: "hdr_pages HB blocks3 \<subseteq> {VM_HEAP_BASE}" by (simp add: hpage_low HB_HE(5) del: of_nat_add)
  obtain s1 where s1: "kmalloc_k code r VM_HEAP_SIZE s = Some (Inr (0, s1))" "heap_now {VM_HEAP_BASE} s0 blocks3 s1"
    using heap_now_alloc(1) [OF n _ f(1), of code r] u f(2) by auto
  show thesis using that s1(1) heap_now_print [OF s1(2)] by (simp add: heap_test_oom_def)
qed

text \<open>The allocation across pages: the second page of the heap was not mapped, so the fault counter goes up.\<close>

abbreviation "blocks4 \<equiv> [(False, 16), (False, 208), (False, 1008), (False, 100000), (True, 16675904)] :: block list"

lemma heap_now_reset: "heap_now U s0 bs s \<Longrightarrow> heap_now V s bs s"
  using heap_nowD(1,2) heap_now_refl by blast

lemma test_big:
  assumes n: "heap_now {VM_HEAP_BASE} s0 blocks3 s" and un: "VM_HEAP_BASE + 4096 \<notin> heap_mapped s0" and f: "unat (vm_faults s0) < 2 ^ 63"
  obtains s' where "heap_test_big code r VM_HEAP_BASE (VM_HEAP_BASE + VM_HEAP_SIZE) (ok, s) = Some (Inr (ok, s'))"
    "heap_now UNIV s blocks4 s'"
proof -
  let ?xs = "[(False, 16), (False, 208), (False, 1008)] :: block list" and ?v = "\<lambda>i. ucast (drop_bit 12 (of_nat i :: u64)) :: u8"
  have n0: "heap_now UNIV s blocks3 s" by (rule heap_now_reset [OF n])
  have f1: "kmalloc_fit 100000 blocks3 = Some (?xs, 16775920, [])" by (simp add: test_simps)
  obtain s1 where s1: "kmalloc_k code r 100000 s = Some (Inr (of_nat (HB + span ?xs) + 16, s1))" "heap_now UNIV s blocks4 s1"
    using heap_now_alloc(2) [OF n0 _ f1, of code r] by (simp add: test_simps del: of_nat_add) blast
  let ?p = "of_nat (HB + span ?xs) + 16 :: u64"
  have n1: "heap_now UNIV s (?xs @ (False, 100000) # [(True, 16675904)]) s1" using s1(2) by simp
  have st: "\<forall>i \<in> set big_steps. i < 100000 \<and> hpage (?p + of_nat i) \<in> UNIV" "distinct big_steps" "4096 \<in> set big_steps"
    by (auto simp: big_steps_def distinct_map inj_on_def)
  obtain c m s2 where s2: "each (\<lambda>i. vstore8 code r (?p + of_nat i) (?v i)) big_steps s1 = Some s2"
    "heap_sim UNIV (s\<lparr>con := c\<rparr>) m s2" "heap_wf ((kheap s1)\<lparr>hmem := m\<rparr>) (?xs @ (False, 100000) # [(True, 16675904)])"
    "\<forall>i \<in> set big_steps. m (?p + of_nat i) = ?v i" "\<forall>i \<in> set big_steps. hpage (?p + of_nat i) \<in> heap_mapped s2"
    by (rule heap_now_fill [OF n1 st(1,2), where v = ?v and code = code and r = r]) blast
  have ck: "\<forall>i \<in> set big_steps. heap_addr (?p + of_nat i) \<and> hpage (?p + of_nat i) \<in> UNIV \<and> m (?p + of_nat i) = ?v i"
    using st(1) s2(4) payload_index(2) [OF s2(3)] by blast
  obtain s3 where s3: "big_check code r ?p True big_steps s2 = Some (True, s3)" "heap_sim UNIV (s\<lparr>con := c\<rparr>) m s3"
    and m3: "heap_mapped s2 \<subseteq> heap_mapped s3"
    using big_check_sim [OF ck heap_sim_here [OF s2(2)], of code r] heap_sim_trans [OF s2(2)] heap_sim_mapped by blast
  have n3: "heap_now UNIV s blocks4 s3" using heap_nowI [OF _ s2(3)] s3(2) by auto
  have pg: "hpage (?p + of_nat 4096) = VM_HEAP_BASE + 4096" using hpage_near [of 1296 1] HB_HE(5) by (simp add: add.assoc)
  then have "VM_HEAP_BASE + 4096 \<in> heap_mapped s3" using s2(5) st(3) m3 by force
  moreover have "VM_HEAP_BASE + 4096 \<notin> heap_mapped s" using un heap_nowD(4) [OF n] by auto
  ultimately have pos: "0 < card (heap_mapped s3 - heap_mapped s)" by (auto simp: card_gt_0_iff)
  have cl: "card (A - B) \<le> 4096" if "A \<subseteq> heap_pages" for A B :: "u64 set"
    using card_mono [of heap_pages "A - B"] that card_heap_pages by force
  have le: "card (heap_mapped s3 - heap_mapped s) \<le> 4096" "card (heap_mapped s - heap_mapped s0) \<le> 4096"
    by (rule cl; auto simp: heap_mapped_def)+
  have "unat (vm_faults s) < 2 ^ 63 + 4097"
    using heap_nowD(5) [OF n] le(2) f by (simp add: unat_u64_add unat_of_nat_u64)
  then have "unat (vm_faults s3) = unat (vm_faults s) + card (heap_mapped s3 - heap_mapped s)"
    unfolding heap_nowD(5) [OF n3] using le(1) by (subst unat_u64_add) (simp_all add: unat_of_nat_u64)
  then have "\<not> vm_faults s3 \<le> vm_faults s" using pos unfolding word_le_nat_alt by linarith
  moreover have "?p \<noteq> 0" by (rule heap_wf_parts(5) [OF s2(3)])
  ultimately have "heap_test_big code r VM_HEAP_BASE (VM_HEAP_BASE + VM_HEAP_SIZE) (ok, s) =
      Some (Inr (ok, kprintf (''M8/HEAP: cross-page fault PASS (faults +%llu)'' @ nl) [VInt (vm_faults s3 - vm_faults s)] s3))"
    using s1(1) s2(1) s3(1) by (simp add: heap_test_big_def vm_fault_count_def Let_def del: of_nat_add)
  then show thesis by (rule that [OF _ heap_now_print [OF n3]])
qed


lemma test_fill:
  assumes n: "heap_now UNIV s0 blocks4 s"
  obtains s' where "heap_test_fill code r VM_HEAP_BASE (VM_HEAP_BASE + VM_HEAP_SIZE) (True, s) = Some (Inr (True, s'))"
    "heap_now UNIV s0 [(False, 16), (False, 208), (False, 1008), (False, 100000), (False, 16675904)] s'"
proof -
  let ?xs = "[(False, 16), (False, 208), (False, 1008), (False, 100000)] :: block list"
  have fs: "free_sum blocks4 = 16675904" "free_sum [(False, 16), (False, 208), (False, 1008), (False, 100000), (False, 16675904)] = 0" by (simp_all add: free_sum_def)
  obtain s1 where s1: "heap_free_bytes_vm code r VM_HEAP_BASE (VM_HEAP_BASE + VM_HEAP_SIZE) s = Some (Inr (16675904, s1))" "heap_now UNIV s0 blocks4 s1"
    using heap_now_free_bytes [OF n, of code r] by (auto simp: fs)
  have f: "kmalloc_fit 16675904 blocks4 = Some (?xs, 16675904, [])" by (simp add: test_simps)
  obtain s2 where s2: "kmalloc_k code r 16675904 s1 = Some (Inr (of_nat (HB + span ?xs) + 16, s2))" "heap_now UNIV s0 (?xs @ [(False, 16675904)]) s2"
    using heap_now_alloc(2) [OF s1(2) _ f, of code r] by (simp add: test_simps del: of_nat_add) blast
  obtain s3 where s3: "heap_free_bytes_vm code r VM_HEAP_BASE (VM_HEAP_BASE + VM_HEAP_SIZE) s2 = Some (Inr (0, s3))" "heap_now UNIV s0 (?xs @ [(False, 16675904)]) s3"
    using heap_now_free_bytes [OF s2(2), of code r] by (auto simp: fs)
  have "(of_nat (HB + span ?xs) + 16 :: u64) \<noteq> 0" using heap_wf_parts(5) [of _ ?xs] heap_nowD(2) [OF s2(2)] by blast
  then have "heap_test_fill code r VM_HEAP_BASE (VM_HEAP_BASE + VM_HEAP_SIZE) (True, s) = Some (Inr (True, s3))"
    using s1(1) s2(1) s3(1) by (simp add: heap_test_fill_def del: of_nat_add)
  then show thesis using that s3(2) by simp
qed

abbreviation "blocks_full \<equiv> [(False, 240), (False, 1008), (False, 100000), (False, 16675904)] :: block list"

lemma test_coalesce:
  assumes n: "heap_now UNIV s0 [(False, 16), (False, 208), (False, 1008), (False, 100000), (False, 16675904)] s"
  obtains s' where "heap_test_coalesce code r VM_HEAP_BASE (VM_HEAP_BASE + VM_HEAP_SIZE) (VM_HEAP_BASE + 16) (VM_HEAP_BASE + 48) (True, s) =
      Some (Inr (True, s'))" "heap_now UNIV s0 blocks_full s'"
proof -
  let ?ys = "[(False, 1008), (False, 100000), (False, 16675904)] :: block list"
  have r: "release [(False, 16)] 208 ?ys = [] @ (False, 16) # (True, 208) # ?ys" "release [] 16 ((True, 208) # ?ys) = (True, 240) # ?ys"
    by (simp_all add: release_def)
  have a: "of_nat (HB + span [(False, 16)]) + 16 = VM_HEAP_BASE + 48" "of_nat (HB + span ([] :: block list)) + 16 = VM_HEAP_BASE + 16"
    using HB_HE(5) by simp_all
  obtain s1 where s1: "kfree_k code r (VM_HEAP_BASE + 48) s = Some (Inr s1)" "heap_now UNIV s0 ([] @ (False, 16) # (True, 208) # ?ys) s1"
    using heap_now_free [where xs = "[(False, 16)]" and n = 208 and ys = ?ys and U = UNIV and ?s0.0 = s0 and s = s and code = code and r = r] n
    unfolding r a by auto
  obtain s2 where s2: "kfree_k code r (VM_HEAP_BASE + 16) s1 = Some (Inr s2)" "heap_now UNIV s0 ((True, 240) # ?ys) s2"
    using heap_now_free [OF s1(2), of code r] unfolding r a by auto
  obtain s3 where s3: "heap_free_bytes_vm code r VM_HEAP_BASE (VM_HEAP_BASE + VM_HEAP_SIZE) s2 = Some (Inr (240, s3))" "heap_now UNIV s0 ((True, 240) # ?ys) s3"
    using heap_now_free_bytes [OF s2(2), of code r] by (auto simp: free_sum_def)
  have f: "kmalloc_fit 224 ((True, 240) # ?ys) = Some ([], 240, ?ys)" by (simp add: test_simps)
  obtain s4 where s4: "kmalloc_k code r 224 s3 = Some (Inr (VM_HEAP_BASE + 16, s4))" "heap_now UNIV s0 blocks_full s4"
    using heap_now_alloc(2) [OF s3(2) _ f, of code r] HB_HE(5) by (auto simp: test_simps)
  have "VM_HEAP_BASE + 16 \<noteq> 0" by (simp add: VM_HEAP_BASE_def)
  then have "heap_test_coalesce code r VM_HEAP_BASE (VM_HEAP_BASE + VM_HEAP_SIZE) (VM_HEAP_BASE + 16) (VM_HEAP_BASE + 48) (True, s) =
      Some (Inr (True, kprintf (''M8/HEAP: coalesce PASS (free=0x%lx)'' @ nl) [VInt 240] s4))"
    using s1(1) s2(1) s3(1) s4(1) by (simp add: heap_test_coalesce_def)
  then show thesis by (rule that [OF _ heap_now_print [OF s4(2)]])
qed

section \<open>Properties\<close>

lemma heap_self_test_runs:
  assumes fresh: "vm_heap_fresh s" and un: "VM_HEAP_BASE + 4096 \<notin> heap_mapped s" and f: "unat (vm_faults s) < 2 ^ 63"
  obtains s' where "heap_self_test code r VM_HEAP_BASE (VM_HEAP_BASE + VM_HEAP_SIZE) s = Some (Inr (0, s'))" "heap_backed s'"
    "heap_wf (kheap s') blocks_full" "vm_rest s' = vm_rest s"
proof -
  let ?A = "VM_HEAP_BASE + 16" and ?B = "VM_HEAP_BASE + 48" and ?C = "VM_HEAP_BASE + 272" and ?E = "VM_HEAP_BASE + VM_HEAP_SIZE"
  obtain s1 s2 s3 where a: "kmalloc_k code r 16 s = Some (Inr (?A, s1))" "kmalloc_k code r 200 s1 = Some (Inr (?B, s2))"
    "kmalloc_k code r 1000 s2 = Some (Inr (?C, s3))" "heap_now {VM_HEAP_BASE} s blocks3 s3" by (rule test_allocs [OF fresh])
  define s4 where "s4 = kprintf (''M8/HEAP: a=%p b=%p c=%p'' @ nl) [VInt ?A, VInt ?B, VInt ?C] s3"
  define s5 where "s5 = kprintf ''M8/HEAP: align PASS  '' [] s4"
  define s6 where "s6 = kprintf ''overlap PASS  '' [] s5"
  have al: "heap_test_align ?A ?B ?C (True, s4) = (True, s5)" by (simp add: heap_test_align_def s5_def VM_HEAP_BASE_def)
  have ov: "heap_test_overlap ?A ?B ?C (True, s5) = (True, s6)"
    by (simp add: heap_test_overlap_def s6_def ranges_overlap_def Let_def VM_HEAP_BASE_def)
  have n6: "heap_now {VM_HEAP_BASE} s blocks3 s6" unfolding s6_def s5_def s4_def by (intro heap_now_print a(4))
  obtain s7 where s7: "heap_test_pattern code r ?A ?B ?C (True, s6) = Some (Inr (True, s7))" "heap_now {VM_HEAP_BASE} s blocks3 s7"
    by (rule test_pattern [OF n6])
  obtain s8 where s8: "heap_test_oom code r VM_HEAP_BASE ?E (True, s7) = Some (Inr (True, s8))" "heap_now {VM_HEAP_BASE} s blocks3 s8"
    by (rule test_oom [OF s7(2)])
  obtain s9 where s9: "heap_test_big code r VM_HEAP_BASE ?E (True, s8) = Some (Inr (True, s9))" "heap_now UNIV s8 blocks4 s9"
    by (rule test_big [OF s8(2) un f])
  obtain t1 where t1: "heap_test_fill code r VM_HEAP_BASE ?E (True, s9) = Some (Inr (True, t1))"
    "heap_now UNIV s8 [(False, 16), (False, 208), (False, 1008), (False, 100000), (False, 16675904)] t1" by (rule test_fill [OF s9(2)])
  obtain t2 where t2: "heap_test_coalesce code r VM_HEAP_BASE ?E ?A ?B (True, t1) = Some (Inr (True, t2))" "heap_now UNIV s8 blocks_full t2"
    by (rule test_coalesce [OF t1(2)])
  have nz: "?A \<noteq> 0" "?B \<noteq> 0" "?C \<noteq> 0" by (simp_all add: VM_HEAP_BASE_def)
  have "heap_self_test code r VM_HEAP_BASE ?E s = Some (Inr (0, t2))"
    unfolding heap_self_test_def using a(1-3) s7(1) s8(1) s9(1) t1(1) t2(1) nz by (simp add: al ov s4_def [symmetric] Let_def del: append.simps)
  moreover have "vm_rest t2 = vm_rest s" using heap_nowD(6) [OF t2(2)] heap_nowD(6) [OF s8(2)] by simp
  ultimately show thesis using that heap_nowD(1,2) [OF t2(2)] by blast
qed

text \<open>
  (C12) The heap's self test passes.  On a fresh heap with enough frames in reserve, whose second page has not been touched, and
  with a fault counter far from its limit, \<^verbatim>\<open>heap_self_test\<close> returns 0: every loop ends, no access halts the kernel, no panic is
  reached and none of its checks fails.  It ends with the whole arena allocated in four blocks that nobody will release,
  so that from then on every \<^verbatim>\<open>kmalloc\<close> returns the null pointer.
\<close>

theorem heap_self_test_passes:
  assumes "vm_heap_fresh s" and "VM_HEAP_BASE + 4096 \<notin> heap_mapped s" and "unat (vm_faults s) < 2 ^ 63"
  shows "\<exists>s'. heap_self_test code r VM_HEAP_BASE (VM_HEAP_BASE + VM_HEAP_SIZE) s = Some (Inr (0, s')) \<and>
    heap_wf (kheap s') [(False, 240), (False, 1008), (False, 100000), (False, 16675904)] \<and>
    (\<forall>n. \<exists>s''. kmalloc_k code r n s' = Some (Inr (0, s'')))"
proof -
  obtain s' where s': "heap_self_test code r VM_HEAP_BASE (VM_HEAP_BASE + VM_HEAP_SIZE) s = Some (Inr (0, s'))" "heap_backed s'"
    "heap_wf (kheap s') blocks_full" by (rule heap_self_test_runs [OF assms])
  have "kmalloc_fit n blocks_full = None" for n by (simp add: kmalloc_fit_def first_fit_None)
  then have "\<exists>s''. kmalloc_k code r n s' = Some (Inr (0, s''))" for n
    using heap_now_alloc(1) [OF heap_now_refl [OF s'(2,3)], of n UNIV code r] by auto
  then show ?thesis using s' by blast
qed

lemma demo_idt_unmapped: "heap_mapped demo_idt = {}"
  using demo_idt_paged(3) by (auto simp: heap_mapped_def heap_pages_def)

theorem heap_self_test_passes_witness:
  "\<exists>(s :: idt_sys) s'. vm_heap_fresh s \<and>
     heap_self_test (\<lambda>_ _ s. s) (demo_regs 0 0) VM_HEAP_BASE (VM_HEAP_BASE + VM_HEAP_SIZE) s = Some (Inr (0, s'))"
proof -
  have u: "hpage VM_HEAP_BASE \<in> {VM_HEAP_BASE}" by (simp add: hpage_low)
  obtain s where s: "vm_heap_fresh s" "heap_sim {VM_HEAP_BASE} demo_idt (hmem (snd (heap_init (kheap demo_idt)))) s"
    by (rule heap_init_vm_sim [OF demo_idt_backed u])
  have "vm_faults demo_idt = 0" by (simp add: demo_idt_def)
  then have m: "heap_mapped s \<subseteq> {VM_HEAP_BASE}" and f: "vm_faults s = of_nat (card (heap_mapped s))"
    using s(2) by (simp_all add: heap_sim_def demo_idt_unmapped)
  have "card (heap_mapped s) \<le> 1" using card_mono [OF _ m] by simp
  then have "unat (vm_faults s) < 2 ^ 63" unfolding f by (simp add: unat_of_nat_u64)
  moreover have "VM_HEAP_BASE + 4096 \<notin> heap_mapped s" using m by (auto simp: VM_HEAP_BASE_def)
  ultimately show ?thesis using heap_self_test_passes [OF s(1), of "\<lambda>_ _ s. s" "demo_regs 0 0"] s(1) by blast
qed

end
