(* ===== verification/Pmm_Test.thy ===== *)
theory Pmm_Test
  imports Demand Vga_Format "HOL-Library.Monad_Syntax"
begin

text \<open>
  The self test of the frame allocator (\<^verbatim>\<open>pmm_self_test\<close>, \<^verbatim>\<open>src/src/pmm.c\<close>): it takes 512 frames, writes to them through the page
  tables and gives them back.  The address \<^verbatim>\<open>__bss_end\<close> of the linker is a parameter.  The test is shown to pass, and to
  leave the allocator and everything outside the available frames as they were.
\<close>

definition PMM_SELF_TEST_FRAMES :: nat where "PMM_SELF_TEST_FRAMES = 512"

definition pmm_pattern :: "nat \<Rightarrow> u64" where "pmm_pattern i = 0xA5A5A5A5A5A5A5A5 XOR of_nat i"

text \<open>
  The first loop, with \<^verbatim>\<open>frames[0..allocated)\<close> as a list: whether all checks passed, the frames, the largest address and
  the machine.
\<close>

fun pmm_test_alloc :: "u64 \<Rightarrow> nat list \<Rightarrow> u64 list \<Rightarrow> u64 \<Rightarrow> 'a sys_scheme \<Rightarrow> bool \<times> u64 list \<times> u64 \<times> 'a sys_scheme" where
  "pmm_test_alloc kernel_end [] frames max_pa s = (True, frames, max_pa, s)"
| "pmm_test_alloc kernel_end (i # is) frames max_pa s =
     (let (pa, s1) = alloc_frame s in
      if pa = 0 then (False, frames, max_pa, kprintf (''M8/PMM: FAIL alloc frame %d'' @ nl) [VInt (of_nat i)] s1)
      else
        (let frames1 = frames @ [pa] in
         if pa AND (PMM_FRAME_SIZE - 1) \<noteq> 0
         then (False, frames1, max_pa, kprintf (''M8/PMM: FAIL frame not aligned: %p'' @ nl) [VInt pa] s1)
         else if pa < kernel_end
         then (False, frames1, max_pa, kprintf (''M8/PMM: FAIL frame inside kernel: %p < %p'' @ nl) [VInt pa, VInt kernel_end] s1)
         else if pa < pmm_info_end (pmm s1) \<and> pa + PMM_FRAME_SIZE > pmm_mb_info (pmm s1)
         then (False, frames1, max_pa, kprintf (''M8/PMM: FAIL frame overlaps mb_info: %p'' @ nl) [VInt pa] s1)
         else pmm_test_alloc kernel_end is frames1 (if pa > max_pa then pa else max_pa) s1))"

fun pmm_test_check where
  "pmm_test_check code r frames [] s = Some (True, s)"
| "pmm_test_check code r frames (i # is) s =
     do {
       (v, s1) \<leftarrow> vload64 code r (frames ! i) s;
       if v \<noteq> pmm_pattern i
       then Some (False, kprintf (''M8/PMM: FAIL pattern mismatch at %p'' @ nl) [VInt (frames ! i)] s1)
       else pmm_test_check code r frames is s1
     }"

definition pmm_test_pattern where
  "pmm_test_pattern code r frames max_pa s =
     (let s1 = kprintf (''M8/PMM: 512 frames, max_pa=%p'' @ nl) [VInt max_pa] s in
      do {
        s2 \<leftarrow> each (\<lambda>i. vstore64 code r (frames ! i) (pmm_pattern i)) [0..<PMM_SELF_TEST_FRAMES] s1;
        (ok, s3) \<leftarrow> pmm_test_check code r frames [0..<PMM_SELF_TEST_FRAMES] s2;
        Some (ok, if ok then kprintf (''M8/PMM: pattern PASS'' @ nl) [] s3 else s3)
      })"

fun pmm_test_reuse :: "nat list \<Rightarrow> u64 list \<Rightarrow> 'a sys_scheme \<Rightarrow> bool \<times> u64 list \<times> 'a sys_scheme" where
  "pmm_test_reuse [] frames s = (True, frames, s)"
| "pmm_test_reuse (i # is) frames s =
     (let (pa, s1) = alloc_frame s in
      if pa = 0 then (False, frames, kprintf (''M8/PMM: FAIL reuse alloc frame %d'' @ nl) [VInt (of_nat i)] s1)
      else pmm_test_reuse is (frames @ [pa]) s1)"

definition pmm_self_test ::
  "(isr_reg_t \<Rightarrow> regs_t \<Rightarrow> 'a irq_sys_scheme \<Rightarrow> 'a irq_sys_scheme) \<Rightarrow> regs_t \<Rightarrow> u64 \<Rightarrow> 'a irq_sys_scheme \<Rightarrow>
     (int \<times> 'a irq_sys_scheme) option" where
  "pmm_self_test code r bss_end s =
     (let before = pmm_free_frames (pmm s);
          kernel_end = pmm_align_up_4k bss_end;
          s0 = kprintf (''M8/PMM: total=%llu free=%llu'' @ nl) [VInt PMM_FRAME_COUNT, VInt before] s;
          (ok1, frames, max_pa, s1) = pmm_test_alloc kernel_end [0..<PMM_SELF_TEST_FRAMES] [] 0 s0;
          (ok2, s2) =
            (if ok1 \<and> max_pa \<le> PMM_2MB
             then (False, kprintf (''M8/PMM: FAIL no frame above 2MB (max_pa=%p)'' @ nl) [VInt max_pa] s1) else (ok1, s1))
      in do {
        (ok3, s3) \<leftarrow> (if ok2 then pmm_test_pattern code r frames max_pa s2 else Some (ok2, s2));
        let s4 = fold free_frame frames s3;
        let now = pmm_free_frames (pmm s4);
        let (ok5, s5) =
          (if ok3 \<and> now \<noteq> before
           then (False, kprintf (''M8/PMM: FAIL free-after-free=%llu, expected %llu'' @ nl) [VInt now, VInt before] s4)
           else (ok3, if ok3 then kprintf (''M8/PMM: free-after-free=%llu'' @ nl) [VInt now] s4 else s4));
        let (ok6, s6) =
          (if ok5
           then
             (let (ok, again, t) = pmm_test_reuse [0..<PMM_SELF_TEST_FRAMES] [] s5;
                  t1 = fold free_frame again t
              in (ok, if ok then kprintf (''M8/PMM: reuse PASS'' @ nl) [] t1 else t1))
           else (ok5, s5));
        Some (if ok6 then 0 else -1, s6)
      })"

section \<open>Allocating and releasing many frames\<close>

lemma alloc_next:
  assumes "pmm_inv (pmm s)" "pmm_avail (pmm s) \<noteq> {}"
  obtains pa p where "alloc_frame s = (pa, s\<lparr>pmm := p\<rparr>)" "pa \<in> pmm_avail (pmm s)" "is_frame pa" "pmm_inv p"
    "pmm_avail p = pmm_avail (pmm s) - {pa}" "pmm_info_end p = pmm_info_end (pmm s)" "pmm_mb_info p = pmm_mb_info (pmm s)"
  using assms(1)
proof (cases rule: alloc_frame_cases)
  case none
  then show ?thesis using assms(2) by simp
next
  case (frame pa p)
  obtain pb b where ab: "pmm_alloc_frame (pmm s) = (pb, b)" by fastforce
  have eq: "pb = pa" "s\<lparr>pmm := b\<rparr> = s\<lparr>pmm := p\<rparr>" using frame(1) ab by (simp_all add: alloc_frame_def)
  have "b = p" using arg_cong [OF eq(2), of pmm] by simp
  with ab eq(1) have "pmm_alloc_frame (pmm s) = (pa, p)" by simp
  then show ?thesis using that [OF frame] pmm_static_alloc by (simp add: pmm_static_def)
qed

text \<open>Frames that the checks of the loop accept.\<close>

definition frame_clear :: "u64 \<Rightarrow> pmm_st \<Rightarrow> u64 \<Rightarrow> bool" where
  "frame_clear kernel_end p pa \<longleftrightarrow> kernel_end \<le> pa \<and> \<not> (pa < pmm_info_end p \<and> pmm_mb_info p < pa + PMM_FRAME_SIZE)"

lemma pmm_test_alloc_ok:
  assumes "pmm_inv (pmm s)" "length is \<le> card (pmm_avail (pmm s))" "\<forall>pa \<in> pmm_avail (pmm s). frame_clear ke (pmm s) pa"
  shows "\<exists>fs mx p. pmm_test_alloc ke is frames max_pa s = (True, frames @ fs, mx, s\<lparr>pmm := p\<rparr>) \<and> distinct fs \<and>
    set fs \<subseteq> pmm_avail (pmm s) \<and> pmm_avail p = pmm_avail (pmm s) - set fs \<and> pmm_inv p \<and> length fs = length is \<and>
    max_pa \<le> mx \<and> (\<forall>f \<in> set fs. f \<le> mx)"
  using assms
proof (induction "is" arbitrary: frames max_pa s)
  case Nil
  then show ?case by (auto intro!: exI [of _ "pmm s"])
next
  case (Cons i "is")
  have ne: "pmm_avail (pmm s) \<noteq> {}" using Cons.prems(2) by auto
  obtain pa p where a: "alloc_frame s = (pa, s\<lparr>pmm := p\<rparr>)" "pa \<in> pmm_avail (pmm s)" "is_frame pa" "pmm_inv p"
    "pmm_avail p = pmm_avail (pmm s) - {pa}" "pmm_info_end p = pmm_info_end (pmm s)" "pmm_mb_info p = pmm_mb_info (pmm s)"
    by (rule alloc_next [OF Cons.prems(1) ne])
  let ?s = "s\<lparr>pmm := p\<rparr>" and ?mx = "if pa > max_pa then pa else max_pa"
  have c: "pa \<noteq> 0" "pa AND (PMM_FRAME_SIZE - 1) = 0" using a(3) by (simp_all add: is_frame_def PMM_FRAME_SIZE_def)
  have cl: "(pa < ke) = False" "(pa < pmm_info_end p \<and> pmm_mb_info p < pa + PMM_FRAME_SIZE) = False"
    using Cons.prems(3) a(2,6,7) by (auto simp: frame_clear_def)
  have step: "pmm_test_alloc ke (i # is) frames max_pa s = pmm_test_alloc ke is (frames @ [pa]) ?mx ?s"
    using a(1) c by (simp add: Let_def cl del: append.simps)
  have prem: "pmm_inv (pmm ?s)" "length is \<le> card (pmm_avail (pmm ?s))" "\<forall>pa \<in> pmm_avail (pmm ?s). frame_clear ke (pmm ?s) pa"
    using a Cons.prems(2,3) by (auto simp: card_Diff_singleton frame_clear_def)
  from Cons.IH [OF prem, of "frames @ [pa]" ?mx] obtain fs mx p' where
    r: "pmm_test_alloc ke is (frames @ [pa]) ?mx ?s = (True, (frames @ [pa]) @ fs, mx, ?s\<lparr>pmm := p'\<rparr>)" "distinct fs"
      "set fs \<subseteq> pmm_avail p" "pmm_avail p' = pmm_avail p - set fs" "pmm_inv p'" "length fs = length is" "?mx \<le> mx" "\<forall>f \<in> set fs. f \<le> mx"
    by auto
  show ?case unfolding step
    using r a(2,5) by (intro exI [of _ "pa # fs"] exI [of _ mx] exI [of _ p']) (auto split: if_splits)
qed

lemma pmm_test_reuse_ok:
  assumes "pmm_inv (pmm s)" "length is \<le> card (pmm_avail (pmm s))"
  shows "\<exists>fs p. pmm_test_reuse is frames s = (True, frames @ fs, s\<lparr>pmm := p\<rparr>) \<and> set fs \<subseteq> pmm_avail (pmm s) \<and>
    pmm_avail p = pmm_avail (pmm s) - set fs \<and> pmm_inv p"
  using assms
proof (induction "is" arbitrary: frames s)
  case Nil
  then show ?case by (auto intro!: exI [of _ "pmm s"])
next
  case (Cons i "is")
  have ne: "pmm_avail (pmm s) \<noteq> {}" using Cons.prems(2) by auto
  obtain pa p where a: "alloc_frame s = (pa, s\<lparr>pmm := p\<rparr>)" "pa \<in> pmm_avail (pmm s)" "is_frame pa" "pmm_inv p"
    "pmm_avail p = pmm_avail (pmm s) - {pa}" by (rule alloc_next [OF Cons.prems(1) ne])
  have prem: "pmm_inv (pmm (s\<lparr>pmm := p\<rparr>))" "length is \<le> card (pmm_avail (pmm (s\<lparr>pmm := p\<rparr>)))"
    using a Cons.prems(2) by (simp_all add: card_Diff_singleton)
  have nz: "pa \<noteq> 0" using a(3) by (simp add: is_frame_def)
  from Cons.IH [OF prem, of "frames @ [pa]"] obtain fs p' where
    r: "pmm_test_reuse is (frames @ [pa]) (s\<lparr>pmm := p\<rparr>) = (True, (frames @ [pa]) @ fs, s\<lparr>pmm := p'\<rparr>)"
      "set fs \<subseteq> pmm_avail p" "pmm_avail p' = pmm_avail p - set fs" "pmm_inv p'" by auto
  show ?case using r a nz by (intro exI [of _ "pa # fs"] exI [of _ p']) auto
qed

lemma free_frames_ok:
  assumes "pmm_inv (pmm s)" "\<forall>f \<in> set fs. is_frame f"
  shows "\<exists>p. fold free_frame fs s = s\<lparr>pmm := p\<rparr> \<and> pmm_inv p \<and> pmm_avail p = pmm_avail (pmm s) \<union> set fs"
  using assms
proof (induction fs arbitrary: s)
  case Nil
  then show ?case by (auto intro!: exI [of _ "pmm s"])
next
  case (Cons f fs)
  let ?s = "free_frame f s"
  have p: "pmm ?s = pmm_free_frame f (pmm s)" "?s = s\<lparr>pmm := pmm_free_frame f (pmm s)\<rparr>" by (simp_all add: free_frame_def)
  have i: "pmm_inv (pmm ?s)" "pmm_avail (pmm ?s) = insert f (pmm_avail (pmm s))"
    unfolding p(1) using pmm.release_ok [OF Cons.prems(1)] pmm.release_avail [OF Cons.prems(1)] Cons.prems(2) by simp_all
  from Cons.IH [OF i(1)] Cons.prems(2) obtain q where "fold free_frame fs ?s = ?s\<lparr>pmm := q\<rparr>" "pmm_inv q" "pmm_avail q = pmm_avail (pmm ?s) \<union> set fs"
    by auto
  then show ?case using i(2) by (intro exI [of _ q]) (simp add: p(2))
qed

section \<open>Writing to the frames\<close>

text \<open>Memory after the stores of the pattern loop.\<close>

fun fill64 :: "(nat \<Rightarrow> u64) \<Rightarrow> (nat \<Rightarrow> u64) \<Rightarrow> nat list \<Rightarrow> bytes \<Rightarrow> bytes" where
  "fill64 a v [] m = m"
| "fill64 a v (i # is) m = fill64 a v is (wr64 m (a i) (v i))"

lemma wr64_in_frame: "f AND 4095 = 0 \<Longrightarrow> x AND NOT 4095 \<noteq> f \<Longrightarrow> wr64 m f v x = m x"
  using slot_outside [of f 0 x m v] by (simp add: slot_def)

lemma fill64_outside: "\<forall>i \<in> set is. a i AND 4095 = 0 \<and> x AND NOT 4095 \<noteq> a i \<Longrightarrow> fill64 a v is m x = m x"
  by (induction "is" arbitrary: m) (auto simp: wr64_in_frame)

lemma frame_aligned8: "f AND 4095 = 0 \<Longrightarrow> f AND 7 = (0 :: u64)"
  by (auto simp: aligned4096_iff aligned8_iff elim: dvdE)

lemma fill64_rd:
  "\<forall>i \<in> set is. a i AND 4095 = 0 \<Longrightarrow> b AND 4095 = 0 \<Longrightarrow> b \<notin> a ` set is \<Longrightarrow> rd64 (fill64 a v is m) b = rd64 m b"
  by (induction "is" arbitrary: m) (auto simp: rd64_wr64_aligned frame_aligned8)

lemma fill64_at:
  "\<forall>i \<in> set is. a i AND 4095 = 0 \<Longrightarrow> inj_on a (set is) \<Longrightarrow> distinct is \<Longrightarrow> i \<in> set is \<Longrightarrow> rd64 (fill64 a v is m) (a i) = v i"
proof (induction "is" arbitrary: m)
  case (Cons j "is")
  show ?case
  proof (cases "i = j")
    case True
    then have "a i \<notin> a ` set is" using Cons.prems by (auto simp: inj_on_def)
    then show ?thesis using True Cons.prems(1) by (simp add: fill64_rd)
  next
    case False
    then show ?thesis using Cons by auto
  qed
qed simp

lemma each_store64:
  assumes "vm_wf lv s" "lv (pte_frame (cr3 s)) = 4"
    "\<forall>i \<in> set is. lv (a i) = 0 \<and> a i AND 4095 = 0 \<and> mmu (mem s) (cr3 s) (a i) = Some (a i)"
  shows "each (\<lambda>i. vstore64 code r (a i) (v i)) is s = Some (s\<lparr>mem := fill64 a v is (mem s)\<rparr>)"
  using assms
proof (induction "is" arbitrary: s)
  case (Cons i "is")
  let ?m = "wr64 (mem s) (a i) (v i)"
  have f: "lv (a i) = 0" "a i AND 4095 = 0" "mmu (mem s) (cr3 s) (a i) = Some (a i)" using Cons.prems(3) by simp_all
  have out: "lv (x AND NOT 4095) \<noteq> 0 \<Longrightarrow> ?m x = mem s x" for x using f(1) by (intro wr64_in_frame [OF f(2)]) auto
  note k = tables_kept [OF Cons.prems(1,2) out]
  have wf: "vm_wf lv (s\<lparr>mem := ?m\<rparr>)" using k(3) Cons.prems(1) by (simp add: vm_wf_def)
  have "vstore64 code r (a i) (v i) s = Some (s\<lparr>mem := ?m\<rparr>)" using f(3) by (simp add: vstore64_def vtouch_def)
  then show ?case using Cons.IH [OF wf] Cons.prems(2,3) k(2) by simp
qed simp

lemma pmm_test_check_ok:
  assumes "\<forall>i \<in> set is. mmu (mem s) (cr3 s) (frames ! i) = Some (frames ! i) \<and> rd64 (mem s) (frames ! i) = pmm_pattern i"
  shows "pmm_test_check code r frames is s = Some (True, s)"
  using assms by (induction "is") (simp_all add: vload64_def vtouch_def)

text \<open>Among 512 frames above 1MB one lies above 2MB.\<close>

lemma frame_above_2mb:
  assumes d: "distinct fs" "length fs = 512" and f: "\<forall>f \<in> set fs. f AND 4095 = 0 \<and> 0x100000 \<le> f \<and> f \<le> mx"
  shows "\<not> mx \<le> PMM_2MB"
proof
  assume le: "mx \<le> PMM_2MB"
  have "set fs \<subseteq> (\<lambda>k. of_nat (4096 * k)) ` {256..512}"
  proof
    fix x assume x: "x \<in> set fs"
    then obtain k where k: "unat x = 4096 * k" using f by (auto simp: aligned4096_iff elim: dvdE)
    have "0x100000 \<le> unat x" "unat x \<le> 0x200000"
      using f x le by (auto simp: word_le_nat_alt PMM_2MB_def)
    then have "k \<in> {256..512}" using k by simp
    moreover have "x = of_nat (4096 * k)" using k by (metis of_nat_unat ucast_id)
    ultimately show "x \<in> (\<lambda>k. of_nat (4096 * k)) ` {256..512}" by blast
  qed
  then have "card (set fs) \<le> card ((\<lambda>k. of_nat (4096 * k) :: u64) ` {256..512})" by (rule card_mono [rotated]) simp
  also have "\<dots> \<le> 257" using card_image_le [of "{256..512::nat}" "\<lambda>k. of_nat (4096 * k) :: u64"] by simp
  finally show False using d by (simp add: distinct_card)
qed

lemma pmm_test_pattern_ok:
  assumes wf: "vm_wf lv s" and r4: "lv (pte_frame (cr3 s)) = 4" and d: "distinct fs" "length fs = 512"
    and f: "\<forall>f \<in> set fs. lv f = 0 \<and> f AND 4095 = 0 \<and> mmu (mem s) (cr3 s) f = Some f"
  shows "\<exists>m c. pmm_test_pattern code r fs mx s = Some (True, s\<lparr>mem := m, con := c\<rparr>) \<and> (\<forall>x. x AND NOT 4095 \<notin> set fs \<longrightarrow> m x = mem s x)"
proof -
  let ?is = "[0..<PMM_SELF_TEST_FRAMES]" and ?a = "\<lambda>i. fs ! i"
  obtain c where c: "kprintf (''M8/PMM: 512 frames, max_pa=%p'' @ nl) [VInt mx] s = s\<lparr>con := c\<rparr>" using kprintf_con by blast
  define m where "m = fill64 ?a pmm_pattern ?is (mem s)"
  define s2 where "s2 = s\<lparr>con := c, mem := m\<rparr>"
  have ix: "i \<in> set ?is \<Longrightarrow> ?a i \<in> set fs" for i using d(2) by (simp add: PMM_SELF_TEST_FRAMES_def)
  have inj: "inj_on ?a (set ?is)" using d by (auto simp: inj_on_def nth_eq_iff_index_eq PMM_SELF_TEST_FRAMES_def)
  have wfc: "vm_wf lv (s\<lparr>con := c\<rparr>)" using wf by (simp add: vm_wf_def)
  have st: "each (\<lambda>i. vstore64 code r (?a i) (pmm_pattern i)) ?is (s\<lparr>con := c\<rparr>) = Some s2"
    using each_store64 [OF wfc, of ?is ?a code r pmm_pattern] r4 f ix by (simp add: s2_def m_def)
  have out: "m x = mem s x" if "x AND NOT 4095 \<notin> set fs" for x
    unfolding m_def by (rule fill64_outside) (use that f ix in auto)
  have mm: "mmu m (cr3 s) va = mmu (mem s) (cr3 s) va" for va
    by (rule tables_kept(2) [OF wf r4]) (use out f in force)
  have "\<forall>i \<in> set ?is. mmu (mem s2) (cr3 s2) (fs ! i) = Some (fs ! i) \<and> rd64 (mem s2) (fs ! i) = pmm_pattern i"
    using f ix fill64_at [OF _ inj distinct_upt, of _ pmm_pattern "mem s"] mm by (simp add: s2_def m_def)
  from pmm_test_check_ok [OF this, of code r] st obtain c' where
    "pmm_test_pattern code r fs mx s = Some (True, s2\<lparr>con := c'\<rparr>)"
    using kprintf_con [of "''M8/PMM: pattern PASS'' @ nl" "[]" s2] by (auto simp: pmm_test_pattern_def c simp del: append.simps)
  then show ?thesis using out by (intro exI [of _ m] exI [of _ c']) (simp add: s2_def)
qed

lemma pmm_count_eq: "pmm_inv p \<Longrightarrow> pmm_inv q \<Longrightarrow> pmm_avail p = pmm_avail q \<Longrightarrow> pmm_free_frames p = pmm_free_frames q"
  using pmm_count_avail [of p] pmm_count_avail [of q] by (simp add: pmm_free_count_def word_unat_eq_iff)

lemma pmm_self_test_runs:
  assumes wf: "vm_wf lv s" and r4: "lv (pte_frame (cr3 s)) = 4" and room: "512 \<le> card (pmm_avail (pmm s))"
    and ident: "\<forall>pa \<in> pmm_avail (pmm s). mmu (mem s) (cr3 s) pa = Some pa"
    and clear: "\<forall>pa \<in> pmm_avail (pmm s). frame_clear (pmm_align_up_4k bss_end) (pmm s) pa" and bss: "0x100000 \<le> pmm_align_up_4k bss_end"
  obtains m p c where "pmm_self_test code r bss_end s = Some (0, s\<lparr>mem := m, pmm := p, con := c\<rparr>)" "pmm_inv p"
    "pmm_avail p = pmm_avail (pmm s)" "\<forall>x. x AND NOT 4095 \<notin> pmm_avail (pmm s) \<longrightarrow> m x = mem s x"
proof -
  let ?n = "[0..<PMM_SELF_TEST_FRAMES]" and ?ke = "pmm_align_up_4k bss_end" and ?A = "pmm_avail (pmm s)"
  have inv: "pmm_inv (pmm s)" and wt: "wf_tables lv (mem s) ?A" using wf by (simp_all add: vm_wf_def)
  obtain c0 where c0: "kprintf (''M8/PMM: total=%llu free=%llu'' @ nl) [VInt PMM_FRAME_COUNT, VInt (pmm_free_frames (pmm s))] s = s\<lparr>con := c0\<rparr>"
    using kprintf_con by blast
  have len: "length ?n \<le> card ?A" using room by (simp add: PMM_SELF_TEST_FRAMES_def)
  from pmm_test_alloc_ok [of "s\<lparr>con := c0\<rparr>" ?n ?ke "[]" 0] inv len clear obtain fs mx p1 where
    a: "pmm_test_alloc ?ke ?n [] 0 (s\<lparr>con := c0\<rparr>) = (True, fs, mx, s\<lparr>con := c0, pmm := p1\<rparr>)" "distinct fs" "set fs \<subseteq> ?A"
      "pmm_avail p1 = ?A - set fs" "pmm_inv p1" "length fs = 512" "\<forall>f \<in> set fs. f \<le> mx"
    by (auto simp: PMM_SELF_TEST_FRAMES_def)
  let ?s1 = "s\<lparr>con := c0, pmm := p1\<rparr>"
  have fr: "\<forall>f \<in> set fs. is_frame f" using a(3) pmm.avail_frames [OF inv] by blast
  have lo: "0x100000 \<le> f" if "f \<in> set fs" for f
    using order_trans [OF bss, of f] clear a(3) that by (auto simp: frame_clear_def)
  have big: "\<not> mx \<le> PMM_2MB"
    by (rule frame_above_2mb [OF a(2,6)]) (use a(7) fr lo in \<open>simp add: is_frame_def\<close>)
  have wf1: "vm_wf lv ?s1" using wf_tables_avail [OF wt, of "pmm_avail p1"] wf_frame(4) [OF wt] a(4,5) by (auto simp: vm_wf_def)
  have "\<forall>f \<in> set fs. lv f = 0 \<and> f AND 4095 = 0 \<and> mmu (mem ?s1) (cr3 ?s1) f = Some f"
    using a(3) wf_frame(4) [OF wt] ident fr by (fastforce simp: is_frame_def)
  from pmm_test_pattern_ok [OF wf1 _ a(2,6) this, of code r mx] r4 obtain m c1 where
    pt: "pmm_test_pattern code r fs mx ?s1 = Some (True, ?s1\<lparr>mem := m, con := c1\<rparr>)" "\<forall>x. x AND NOT 4095 \<notin> set fs \<longrightarrow> m x = mem s x"
    by auto
  let ?s3 = "?s1\<lparr>mem := m, con := c1\<rparr>"
  from free_frames_ok [of ?s3 fs] a(3,4,5) fr obtain p2 where
    p2: "fold free_frame fs ?s3 = ?s3\<lparr>pmm := p2\<rparr>" "pmm_inv p2" "pmm_avail p2 = ?A"
    by (auto simp: Un_absorb2)
  let ?s4 = "?s3\<lparr>pmm := p2\<rparr>"
  have cnt: "pmm_free_frames p2 = pmm_free_frames (pmm s)" by (rule pmm_count_eq [OF p2(2) inv p2(3)])
  obtain c2 where c2: "kprintf (''M8/PMM: free-after-free=%llu'' @ nl) [VInt (pmm_free_frames (pmm s))] ?s4 = ?s4\<lparr>con := c2\<rparr>"
    using kprintf_con by blast
  from pmm_test_reuse_ok [of "?s4\<lparr>con := c2\<rparr>" ?n "[]"] p2 len obtain gs p3 where
    g: "pmm_test_reuse ?n [] (?s4\<lparr>con := c2\<rparr>) = (True, gs, ?s4\<lparr>con := c2, pmm := p3\<rparr>)" "set gs \<subseteq> ?A" "pmm_avail p3 = ?A - set gs" "pmm_inv p3"
    by auto
  have frg: "\<forall>f \<in> set gs. is_frame f" using g(2) pmm.avail_frames [OF inv] by blast
  from free_frames_ok [of "?s4\<lparr>con := c2, pmm := p3\<rparr>" gs] g frg obtain p4 where
    p4: "fold free_frame gs (?s4\<lparr>con := c2, pmm := p3\<rparr>) = ?s4\<lparr>con := c2, pmm := p4\<rparr>" "pmm_inv p4" "pmm_avail p4 = ?A"
    by (auto simp: Un_absorb2)
  obtain c3 where c3: "kprintf (''M8/PMM: reuse PASS'' @ nl) [] (?s4\<lparr>con := c2, pmm := p4\<rparr>) = ?s4\<lparr>con := c2, pmm := p4\<rparr>\<lparr>con := c3\<rparr>"
    using kprintf_con by blast
  have "pmm_self_test code r bss_end s = Some (0, ?s4\<lparr>con := c2, pmm := p4\<rparr>\<lparr>con := c3\<rparr>)"
    unfolding pmm_self_test_def Let_def c0 a(1) prod.case
    using big pt(1) p2(1) cnt c2 g(1) p4(1) c3 by (simp del: append.simps)
  moreover have "?s4\<lparr>con := c2, pmm := p4\<rparr>\<lparr>con := c3\<rparr> = s\<lparr>mem := m, pmm := p4, con := c3\<rparr>" by (cases s) simp
  ultimately have "pmm_self_test code r bss_end s = Some (0, s\<lparr>mem := m, pmm := p4, con := c3\<rparr>)" by simp
  then show thesis by (rule that) (use p4(2,3) pt(2) a(3) in auto)
qed

section \<open>Filling the boot directory\<close>

text \<open>Changing a table none of whose entries leads on to another table keeps the tables well formed.\<close>

lemma wf_tables_leafy:
  assumes w: "wf_tables lv m av" and t: "t AND 4095 = 0" and out: "\<And>x. \<not> x - t < 4096 \<Longrightarrow> m' x = m x"
    and leafy: "\<And>i. i < 512 \<Longrightarrow> child m' t i = None"
  shows "wf_tables lv m' av"
proof -
  have c: "child m u i = Some c" if "child m' u i = Some c" "0 < lv u" "i < 512" for u i c
  proof -
    have "u \<noteq> t" using leafy [OF that(3)] that(1) by auto
    then have "rd64 m' (slot u i) = rd64 m (slot u i)"
      by (intro rd64_cong out) (metis slot_page [OF wf_frame(1) [OF w that(2)] that(3)] page_of_iff [OF t])
    then show ?thesis using that(1) by (simp add: child_def)
  qed
  have "\<forall>u. 0 < lv u \<longrightarrow> lv u \<le> 4 \<and> is_frame u \<and> u \<notin> av" using wf_frame [OF w] by blast
  moreover have "\<forall>u i c. 2 \<le> lv u \<longrightarrow> i < 512 \<longrightarrow> child m' u i = Some c \<longrightarrow> lv c = lv u - 1"
    using wf_child [OF w _ _ c] by fastforce
  moreover have "\<forall>u i u' i' c. 2 \<le> lv u \<longrightarrow> 2 \<le> lv u' \<longrightarrow> i < 512 \<longrightarrow> i' < 512 \<longrightarrow>
      child m' u i = Some c \<longrightarrow> child m' u' i' = Some c \<longrightarrow> i = i' \<and> (u = u' \<or> lv u = 4 \<and> (i = 0 \<or> 256 \<le> i))"
  proof (intro allI impI)
    fix u i u' i' k
    assume a: "2 \<le> lv u" "2 \<le> lv u'" "i < 512" "i' < 512" "child m' u i = Some k" "child m' u' i' = Some k"
    have "child m u i = Some k" "child m u' i' = Some k" using c a by simp_all
    from wf_parent [OF w a(1-4) this] show "i = i' \<and> (u = u' \<or> lv u = 4 \<and> (i = 0 \<or> 256 \<le> i))" unfolding shared_ix_def .
  qed
  ultimately show ?thesis unfolding wf_tables_def by (intro conjI)
qed

section \<open>Properties\<close>

text \<open>
  (C13) The self test of the frame allocator passes.  With well-formed tables, at least 512 available frames, all of them
  identity mapped, above the kernel image and clear of the boot information, \<^verbatim>\<open>pmm_self_test\<close> returns 0: the frames it is
  given are aligned and different, at least one lies above 2MB because they cannot all fit between 1MB and 2MB, the
  patterns it writes through the page tables are read back, and the count of free frames is restored.  Afterwards the
  same frames are available, and nothing outside them was written.
\<close>

theorem pmm_self_test_passes:
  assumes "vm_wf lv s" and "lv (pte_frame (cr3 s)) = 4" and "512 \<le> card (pmm_avail (pmm s))"
    and "\<forall>pa \<in> pmm_avail (pmm s). mmu (mem s) (cr3 s) pa = Some pa"
    and "\<forall>pa \<in> pmm_avail (pmm s). frame_clear (pmm_align_up_4k bss_end) (pmm s) pa" and "0x100000 \<le> pmm_align_up_4k bss_end"
  shows "\<exists>m p c. pmm_self_test code r bss_end s = Some (0, s\<lparr>mem := m, pmm := p, con := c\<rparr>) \<and> pmm_inv p \<and>
    pmm_avail p = pmm_avail (pmm s) \<and> (\<forall>x. x AND NOT 4095 \<notin> pmm_avail (pmm s) \<longrightarrow> m x = mem s x)"
  by (rule pmm_self_test_runs [OF assms, of code r]) blast

text \<open>A machine for the witness: the boot tables after the identity map was extended to 129MB.\<close>

definition demo_full :: idt_sys where
  "demo_full = snd (pmm_extend_identity 0x8100000 demo_idt)"

lemma demo_full_ok:
  "vm_wf boot_lv demo_full" "boot_lv (pte_frame (cr3 demo_full)) = 4" "512 \<le> card (pmm_avail (pmm demo_full))"
  "\<forall>pa \<in> pmm_avail (pmm demo_full). mmu (mem demo_full) (cr3 demo_full) pa = Some pa"
  "\<forall>pa \<in> pmm_avail (pmm demo_full). frame_clear 0x110000 (pmm demo_full) pa"
proof -
  have i: "mem demo_idt = boot_mem" "cr3 demo_idt = 0x1000" "pmm demo_idt = demo_pmm" by (simp_all add: demo_idt_def)
  obtain s' where s': "pmm_extend_identity 0x8100000 demo_idt = (0, s')" "boot_kept demo_idt s'" "identity_mapped s' 0 0x8100000"
    using pmm_extend_identity_spec [of demo_idt "0x8100000"] boot_mem_tables(1) i by auto
  have d: "demo_full = s'" using s'(1) by (simp add: demo_full_def)
  have f: "cr3 demo_full = 0x1000" "pmm demo_full = demo_pmm" using boot_kept_fields [OF s'(2)] i d by simp_all
  have k: "boot_tables (mem demo_full) 0x1000" "boot_pd (mem demo_full) 0x1000 = 0x3000"
    "\<And>x. \<not> x - 0x3000 < 4096 \<Longrightarrow> mem demo_full x = boot_mem x"
    using s'(2) boot_mem_tables(2) i d by (simp_all add: boot_kept_def)
  have "wf_tables boot_lv boot_mem (pmm_avail demo_pmm)" using demo_idt_fault(1) i by (simp add: vm_wf_def)
  then have "wf_tables boot_lv (mem demo_full) (pmm_avail demo_pmm)"
    by (rule wf_tables_leafy [where t = "0x3000"]) (use k in \<open>auto simp: boot_tables_def identity_entry_def child_def Let_def\<close>)
  then show "vm_wf boot_lv demo_full" by (simp add: vm_wf_def f demo_pmm_ok)
  show "boot_lv (pte_frame (cr3 demo_full)) = 4" using demo_idt_fault(2) i f by simp
  show "512 \<le> card (pmm_avail (pmm demo_full))" using demo_pmm_card f by simp
  have av: "0x110000 \<le> unat pa \<and> unat pa < 0x8100000" if "pa \<in> pmm_avail demo_pmm" for pa
  proof -
    have p: "pa AND 4095 = 0" "pa < PMM_MAX_PHYS" "\<not> pmm_bit_test (pa div PMM_FRAME_SIZE) demo_pmm"
      using that unfolding pmm_avail_iff by simp_all
    then have "0x110 \<le> unat pa div 4096" "unat pa div 4096 < 0x8100"
      using demo_pmm_bits [of "pa div PMM_FRAME_SIZE"] frame_of_addr(1) by (auto simp: PMM_FRAME_SIZE_def unat_div_distrib)
    then show ?thesis by linarith
  qed
  show "\<forall>pa \<in> pmm_avail (pmm demo_full). mmu (mem demo_full) (cr3 demo_full) pa = Some pa"
    using s'(3) av d f by (simp add: identity_mapped_def)
  have "pmm_info_end demo_pmm = 0x9040" by (simp add: demo_pmm_def)
  then show "\<forall>pa \<in> pmm_avail (pmm demo_full). frame_clear 0x110000 (pmm demo_full) pa"
    using av f by (fastforce simp: frame_clear_def word_le_nat_alt word_less_nat_alt)
qed

theorem pmm_self_test_passes_witness:
  "\<exists>m p c. pmm_self_test (\<lambda>_ _ s. s) (demo_regs 14 2) 0x110000 demo_full = Some (0, demo_full\<lparr>mem := m, pmm := p, con := c\<rparr>)"
proof -
  have e: "pmm_align_up_4k 0x110000 = 0x110000" by (simp add: pmm_align_up_4k_def PMM_FRAME_SIZE_def)
  show ?thesis
    using pmm_self_test_passes [OF demo_full_ok(1-4), of "0x110000" "\<lambda>_ _ s. s" "demo_regs 14 2"] demo_full_ok(5) unfolding e by auto
qed

end
