(* ===== verification/Vm_Test.thy ===== *)
theory Vm_Test
  imports Heap_Test Pmm_Test
begin

text \<open>
  The self test of paging (\<^verbatim>\<open>vm_self_test\<close>, \<^verbatim>\<open>src/src/vm.c\<close>).  Accesses through the page under test go through the page
  tables (\<^verbatim>\<open>vstore64\<close>, \<^verbatim>\<open>vload64\<close>), with the page-fault path behind them.  The test is shown to pass, to leave the kernel's
  translations as they were except for the heap page it touches, and to leave the heap intact.
\<close>

section \<open>The test\<close>

definition VM_SCRATCH_BASE :: u64 where "VM_SCRATCH_BASE = 0xFFFF800001000000"
definition VM_SPACE_TEST_BASE :: u64 where "VM_SPACE_TEST_BASE = 0x400000000000"

definition vm_test_readback where
  "vm_test_readback code r s =
     do {
       s1 \<leftarrow> vstore64 code r VM_SCRATCH_BASE 0x1122334455667788 s;
       (v, s2) \<leftarrow> vload64 code r VM_SCRATCH_BASE s1;
       if v \<noteq> 0x1122334455667788
       then
         do {
           (w, s3) \<leftarrow> vload64 code r VM_SCRATCH_BASE s2;
           Some (False, kprintf (''M8/VM: FAIL map readback got %p'' @ nl) [VInt w] s3)
         }
       else Some (True, kprintf (''M8/VM: map PASS'' @ nl) [] s2)
     }"

definition vm_test_unmap :: "u64 \<Rightarrow> u64 \<Rightarrow> bool \<times> 'a sys_scheme \<Rightarrow> bool \<times> 'a sys_scheme" where
  "vm_test_unmap ks frame = (\<lambda>(ok, s).
     let (pa, s1) = vm_unmap ks VM_SCRATCH_BASE s in
     if pa \<noteq> frame then (False, kprintf (''M8/VM: FAIL unmap'' @ nl) [] s1)
     else (ok, kprintf (''M8/VM: unmap PASS'' @ nl) [] s1))"

definition vm_test_huge :: "u64 \<Rightarrow> u64 \<Rightarrow> bool \<times> 'a sys_scheme \<Rightarrow> bool \<times> 'a sys_scheme" where
  "vm_test_huge ks frame = (\<lambda>(ok, s).
     let (e, s1) = vm_map ks 0x100000 frame (VM_PTE_PRESENT OR VM_PTE_WRITE) s in
     if e \<noteq> -1 then (False, kprintf (''M8/VM: FAIL huge-page reject'' @ nl) [] s1)
     else (ok, kprintf (''M8/VM: huge-page reject PASS'' @ nl) [] s1))"

definition vm_test_double :: "u64 \<Rightarrow> u64 \<Rightarrow> bool \<times> 'a sys_scheme \<Rightarrow> bool \<times> 'a sys_scheme" where
  "vm_test_double ks frame = (\<lambda>(ok, s).
     let (e, s1) = vm_map ks VM_SCRATCH_BASE frame (VM_PTE_PRESENT OR VM_PTE_WRITE) s in
     if e \<noteq> 0 then (False, kprintf (''M8/VM: FAIL remap for double-map test'' @ nl) [] s1)
     else
       (let (e2, s2) = vm_map ks VM_SCRATCH_BASE frame (VM_PTE_PRESENT OR VM_PTE_WRITE) s1 in
        if e2 \<noteq> -1 then (False, kprintf (''M8/VM: FAIL double-map reject'' @ nl) [] s2)
        else (ok, kprintf (''M8/VM: double-map reject PASS'' @ nl) [] s2)))"

definition vm_test_demand where
  "vm_test_demand code r = (\<lambda>(ok, s).
     if \<not> ok then Some (ok, s)
     else
       (let c0 = vm_fault_count s; hp = VM_HEAP_BASE + VM_HEAP_SIZE - VM_PAGE_SIZE in
        do {
          s1 \<leftarrow> vstore64 code r hp 0x5A5A5A5A5A5A5A5A s;
          let c1 = vm_fault_count s1;
          (hv, s2) \<leftarrow> vload64 code r hp s1;
          let c2 = vm_fault_count s2;
          if c1 \<noteq> c0 + 1 \<or> c2 \<noteq> c1 \<or> hv \<noteq> 0x5A5A5A5A5A5A5A5A
          then Some (False, kprintf (''M8/VM: FAIL demand fault c0=%llu c1=%llu c2=%llu got=%p'' @ nl) [VInt c0, VInt c1, VInt c2, VInt hv] s2)
          else Some (ok, kprintf (''M8/VM: demand fault c0=%llu c1=%llu c2=%llu PASS'' @ nl) [VInt c0, VInt c1, VInt c2] s2)
        }))"

text \<open>The two new address spaces \<^verbatim>\<open>a\<close>, \<^verbatim>\<open>b\<close> and their frames \<^verbatim>\<open>fa\<close>, \<^verbatim>\<open>fb\<close>.\<close>

definition vm_test_create :: "bool \<times> 'a vm_sys_scheme \<Rightarrow> u64 \<times> u64 \<times> bool \<times> 'a vm_sys_scheme" where
  "vm_test_create = (\<lambda>(ok, s).
     if \<not> ok then (0, 0, ok, s)
     else
       (let (a, s1) = vm_create_space s;
            (b, s2) = vm_create_space s1
        in if a = 0 \<or> b = 0 then (a, b, False, kprintf (''M8/VM: FAIL create space'' @ nl) [] s2) else (a, b, ok, s2)))"

definition vm_test_frames :: "bool \<times> 'a sys_scheme \<Rightarrow> u64 \<times> u64 \<times> bool \<times> 'a sys_scheme" where
  "vm_test_frames = (\<lambda>(ok, s).
     if \<not> ok then (0, 0, ok, s)
     else
       (let (fa, s1) = alloc_frame s;
            (fb, s2) = alloc_frame s1
        in if fa = 0 \<or> fb = 0 then (fa, fb, False, kprintf (''M8/VM: FAIL space alloc frame'' @ nl) [] s2) else (fa, fb, ok, s2)))"

definition vm_test_maps :: "u64 \<Rightarrow> u64 \<Rightarrow> u64 \<Rightarrow> u64 \<Rightarrow> bool \<times> 'a sys_scheme \<Rightarrow> bool \<times> 'a sys_scheme" where
  "vm_test_maps a b fa fb = (\<lambda>(ok, s).
     if \<not> ok then (ok, s)
     else
       (let (e1, s1) = vm_map a VM_SPACE_TEST_BASE fa (VM_PTE_PRESENT OR VM_PTE_WRITE) s in
        if e1 \<noteq> 0 then (False, kprintf (''M8/VM: FAIL space map'' @ nl) [] s1)
        else
          (let (e2, s2) = vm_map b VM_SPACE_TEST_BASE fb (VM_PTE_PRESENT OR VM_PTE_WRITE) s1 in
           if e2 \<noteq> 0 then (False, kprintf (''M8/VM: FAIL space map'' @ nl) [] s2) else (ok, s2))))"

definition vm_test_switch where
  "vm_test_switch code r a b = (\<lambda>(ok, s).
     if \<not> ok then Some (ok, s)
     else
       do {
         s1 \<leftarrow> vstore64 code r VM_SPACE_TEST_BASE 0xAAAAAAAAAAAAAAAA (vm_switch a s);
         s2 \<leftarrow> vstore64 code r VM_SPACE_TEST_BASE 0xBBBBBBBBBBBBBBBB (vm_switch b s1);
         (va, s3) \<leftarrow> vload64 code r VM_SPACE_TEST_BASE (vm_switch a s2);
         (vb, s4) \<leftarrow> vload64 code r VM_SPACE_TEST_BASE (vm_switch b s3);
         let s5 = vm_switch_kernel s4;
         if va \<noteq> 0xAAAAAAAAAAAAAAAA \<or> vb \<noteq> 0xBBBBBBBBBBBBBBBB
         then Some (False, kprintf (''M8/VM: FAIL space A=%p B=%p'' @ nl) [VInt va, VInt vb] s5)
         else Some (ok, kprintf (''M8/VM: space A=%p B=%p PASS'' @ nl) [VInt va, VInt vb] s5)
       })"

definition vm_test_cleanup :: "u64 \<Rightarrow> u64 \<Rightarrow> u64 \<Rightarrow> u64 \<Rightarrow> 'a sys_scheme \<Rightarrow> 'a sys_scheme" where
  "vm_test_cleanup a b fa fb s =
     (let s1 = (if a \<noteq> 0 then snd (vm_unmap a VM_SPACE_TEST_BASE s) else s);
          s2 = (if b \<noteq> 0 then snd (vm_unmap b VM_SPACE_TEST_BASE s1) else s1);
          s3 = (if fa \<noteq> 0 then free_frame fa s2 else s2)
      in if fb \<noteq> 0 then free_frame fb s3 else s3)"

definition vm_self_test ::
  "(isr_reg_t \<Rightarrow> regs_t \<Rightarrow> 'a irq_sys_scheme \<Rightarrow> 'a irq_sys_scheme) \<Rightarrow> regs_t \<Rightarrow> 'a irq_sys_scheme \<Rightarrow> (int \<times> 'a irq_sys_scheme) option" where
  "vm_self_test code r s =
     (let ks = vm_kernel_space s in
      if ks = 0 then Some (-1, kprintf (''M8/VM: FAIL no kernel space'' @ nl) [] s)
      else
        (let (frame, s1) = alloc_frame s in
         if frame = 0 then Some (-1, kprintf (''M8/VM: FAIL no free frame'' @ nl) [] s1)
         else
           (let (e, s2) = vm_map ks VM_SCRATCH_BASE frame (VM_PTE_PRESENT OR VM_PTE_WRITE) s1 in
            if e \<noteq> 0 then Some (-1, free_frame frame (kprintf (''M8/VM: FAIL map'' @ nl) [] s2))
            else
              do {
                t1 \<leftarrow> vm_test_readback code r s2;
                let (ok, s3) = vm_test_double ks frame (vm_test_huge ks frame (vm_test_unmap ks frame t1));
                let s4 = free_frame frame (snd (vm_unmap ks VM_SCRATCH_BASE s3));
                t2 \<leftarrow> vm_test_demand code r (ok, s4);
                let (a, b, t3) = vm_test_create t2;
                let (fa, fb, t4) = vm_test_frames t3;
                (ok2, s5) \<leftarrow> vm_test_switch code r a b (vm_test_maps a b fa fb t4);
                Some (if ok2 then 0 else -1, vm_test_cleanup a b fa fb s5)
              })))"

section \<open>Working on the frames that were available\<close>

text \<open>
  \<^verbatim>\<open>s\<close> was reached from \<^verbatim>\<open>s0\<close> by taking frames from \<^verbatim>\<open>A\<close> and giving them back: tables were kept, new ones lie in \<^verbatim>\<open>A\<close>, and no
  byte outside the tables and \<^verbatim>\<open>A\<close> was written.
\<close>

definition vm_kept :: "u64 set \<Rightarrow> (u64 \<Rightarrow> nat) \<Rightarrow> 'a sys_scheme \<Rightarrow> (u64 \<Rightarrow> nat) \<Rightarrow> 'a sys_scheme \<Rightarrow> bool" where
  "vm_kept A lv0 s0 lv s \<longleftrightarrow> vm_wf lv s \<and> (\<forall>t. 0 < lv0 t \<longrightarrow> lv t = lv0 t) \<and> (\<forall>t. 0 < lv t \<longrightarrow> 0 < lv0 t \<or> t \<in> A) \<and>
     pmm_avail (pmm s) \<subseteq> A \<and> (\<forall>x. lv (x AND NOT 4095) = 0 \<and> x AND NOT 4095 \<notin> A \<longrightarrow> mem s x = mem s0 x)"

lemma vm_kept_refl: "vm_wf lv s \<Longrightarrow> vm_kept (pmm_avail (pmm s)) lv s lv s"
  by (simp add: vm_kept_def)

lemma vm_kept_wf: "vm_kept A lv0 s0 lv s \<Longrightarrow> vm_wf lv s"
  by (simp add: vm_kept_def)

lemma vm_kept_fields [simp]: "vm_kept A lv0 s0 lv (s\<lparr>con := c\<rparr>) = vm_kept A lv0 s0 lv s" "vm_kept A lv0 s0 lv (s\<lparr>cr3 := r, tlb := t\<rparr>) = vm_kept A lv0 s0 lv s"
  "vm_kept A lv0 s0 lv (kprintf f as s) = vm_kept A lv0 s0 lv s"
  by (simp_all add: vm_kept_def vm_wf_def)

lemma vm_kept_alloc:
  assumes k: "vm_kept A lv0 s0 lv s" and ne: "0 < card (pmm_avail (pmm s))"
  obtains pa p where "alloc_frame s = (pa, s\<lparr>pmm := p\<rparr>)" "pa \<in> pmm_avail (pmm s)" "pa \<in> A" "is_frame pa" "lv pa = 0"
    "pmm_avail p = pmm_avail (pmm s) - {pa}" "vm_kept A lv0 s0 lv (s\<lparr>pmm := p\<rparr>)" "card (pmm_avail (pmm s)) \<le> card (pmm_avail p) + 1"
proof -
  have inv: "pmm_inv (pmm s)" and w: "wf_tables lv (mem s) (pmm_avail (pmm s))" using k by (simp_all add: vm_kept_def vm_wf_def)
  from inv show thesis
  proof (cases rule: alloc_frame_cases)
    case none
    then show thesis using ne by simp
  next
    case (frame pa p)
    have l: "lv pa = 0" using wf_frame(4) [OF w, of pa] frame(2) by (cases "lv pa") auto
    have "wf_tables lv (mem s) (pmm_avail p)" by (rule wf_tables_avail [OF w]) (use wf_frame(4) [OF w] frame(5) in blast)
    then have "vm_kept A lv0 s0 lv (s\<lparr>pmm := p\<rparr>)" using k frame(4,5) by (auto simp: vm_kept_def vm_wf_def)
    moreover have "pa \<in> A" using k frame(2) by (auto simp: vm_kept_def)
    ultimately show thesis
      by (intro that [OF frame(1,2) _ frame(3) l frame(5)]) (use frame(2,5) in \<open>simp_all add: card_Diff_singleton\<close>)
  qed
qed

lemma vm_kept_free:
  assumes k: "vm_kept A lv0 s0 lv s" and f: "is_frame fr" "fr \<in> A" "lv fr = 0"
  shows "vm_kept A lv0 s0 lv (free_frame fr s)" "card (pmm_avail (pmm s)) \<le> card (pmm_avail (pmm (free_frame fr s)))"
    "free_frame fr s = s\<lparr>pmm := pmm_free_frame fr (pmm s)\<rparr>" "fr \<in> pmm_avail (pmm (free_frame fr s))"
proof -
  have inv: "pmm_inv (pmm s)" using k by (simp add: vm_kept_def vm_wf_def)
  show e: "free_frame fr s = s\<lparr>pmm := pmm_free_frame fr (pmm s)\<rparr>" by (simp add: free_frame_def)
  have av: "pmm_avail (pmm (free_frame fr s)) = insert fr (pmm_avail (pmm s))" using pmm.release_avail [OF inv f(1)] by (simp add: e)
  then show "vm_kept A lv0 s0 lv (free_frame fr s)"
    using k f free_frame_wf [OF vm_kept_wf [OF k] f(1,3)] by (auto simp: vm_kept_def e)
  show "card (pmm_avail (pmm s)) \<le> card (pmm_avail (pmm (free_frame fr s)))" unfolding av by (rule card_mono) auto
  show "fr \<in> pmm_avail (pmm (free_frame fr s))" using av by simp
qed

lemma vm_kept_grow:
  assumes k: "vm_kept A lv0 s0 lv s" and wf': "vm_wf lv' s'" and g: "tables_only lv s lv' s'"
  shows "vm_kept A lv0 s0 lv' s'"
proof -
  have "lv t = 0" if "lv' t = 0" for t using g that unfolding tables_only_def by (metis gr0I)
  then have "\<forall>x. lv' (x AND NOT 4095) = 0 \<and> x AND NOT 4095 \<notin> A \<longrightarrow> mem s' x = mem s0 x"
    using k g unfolding vm_kept_def tables_only_def by metis
  moreover have "\<forall>t. 0 < lv0 t \<longrightarrow> lv' t = lv0 t" using k g unfolding vm_kept_def tables_only_def by metis
  moreover have "\<forall>t. 0 < lv' t \<longrightarrow> 0 < lv0 t \<or> t \<in> A" using k g unfolding vm_kept_def tables_only_def by blast
  moreover have "pmm_avail (pmm s') \<subseteq> A" using k g unfolding vm_kept_def tables_only_def by blast
  ultimately show ?thesis using wf' by (simp add: vm_kept_def)
qed

text \<open>The walk writes to the tables on its path only, so other roots keep their entries.\<close>

lemma vm_next_other:
  assumes wf: "vm_wf lv s" and t: "2 \<le> lv t" "i < 512" and n: "vm_next True (slot t i) s = (r, s')"
    and o: "0 < lv t'" "t' \<noteq> t" "j < 512"
  shows "rd64 (mem s') (slot t' j) = rd64 (mem s) (slot t' j)"
proof (cases "mem s' = mem s")
  case False
  have inv: "pmm_inv (pmm s)" and w: "wf_tables lv (mem s) (pmm_avail (pmm s))" using wf by (simp_all add: vm_wf_def)
  from inv show ?thesis
  proof (cases rule: alloc_frame_cases)
    case none
    then show ?thesis using n by (auto simp: vm_next_def split: if_splits)
  next
    case (frame pa p)
    have entry: "pte_frame pa OR VM_PTE_PRESENT OR VM_PTE_WRITE = pa OR 3"
      using frame_mask [OF frame(3)] by (simp add: vm_consts or.assoc)
    have m: "mem s' = new_table t i pa (mem s)"
      using n False frame(1) entry by (auto simp: vm_next_def vm_mask new_table_def Let_def or.assoc split: if_splits)
    have "t' \<noteq> pa" using wf_frame(4) [OF w o(1)] frame(2) by blast
    then show ?thesis using new_table_rd [OF frame(3) wf_frame(1) [OF w] t(2) wf_frame(1) [OF w o(1)] o(3)] o(2) t(1) by (simp add: m)
  qed
qed simp

lemma vm_walk_other:
  assumes wf: "vm_wf lv s" and sp: "lv space = 4" and w: "vm_walk space va True s = (r, s')" and o: "lv t = 4" "t \<noteq> space" "j < 512"
  shows "rd64 (mem s') (slot t j) = rd64 (mem s) (slot t j)"
proof -
  have nz: "space \<noteq> 0" using wf sp wf_frame(2) unfolding vm_wf_def by (metis zero_less_numeral)
  obtain r1 s1 where n1: "vm_next True (slot space (pt_index 4 va)) s = (r1, s1)" by force
  obtain lv1 where g1: "vm_grown lv s lv1 s1" "child (mem s1) space (pt_index 4 va) = r1" using vm_next_spec [OF wf _ _ n1] sp by auto
  note wf1 = vm_grown_keeps(1) [OF g1(1)]
  have l1: "lv1 space = 4" "lv1 t = 4" using vm_grown_keeps(2) [OF g1(1), of space] vm_grown_keeps(2) [OF g1(1), of t] sp o(1) by simp_all
  have e1: "rd64 (mem s1) (slot t j) = rd64 (mem s) (slot t j)" using vm_next_other [OF wf _ _ n1 _ o(2,3)] sp o(1) by simp
  show ?thesis
  proof (cases r1)
    case None
    then show ?thesis using w n1 nz e1 by (simp add: vm_walk_def vm_indices)
  next
    case (Some t3)
    have l3: "lv1 t3 = 3" using vm_wf_child [OF wf1, of space "pt_index 4 va" t3] g1(2) Some l1 by simp
    obtain r2 s2 where n2: "vm_next True (slot t3 (pt_index 3 va)) s1 = (r2, s2)" by force
    obtain lv2 where g2: "vm_grown lv1 s1 lv2 s2" "child (mem s2) t3 (pt_index 3 va) = r2" using vm_next_spec [OF wf1 _ _ n2] l3 by auto
    note wf2 = vm_grown_keeps(1) [OF g2(1)]
    have l2: "lv2 t3 = 3" "lv2 t = 4" using vm_grown_keeps(2) [OF g2(1), of t3] vm_grown_keeps(2) [OF g2(1), of t] l3 l1 by simp_all
    have e2: "rd64 (mem s2) (slot t j) = rd64 (mem s1) (slot t j)" using vm_next_other [OF wf1 _ _ n2, of t] l3 l1 o(3) by (cases "t = t3") simp_all
    show ?thesis
    proof (cases r2)
      case None
      then show ?thesis using w n1 n2 nz Some e1 e2 by (simp add: vm_walk_def vm_indices)
    next
      case pd: (Some t2)
      have l4: "lv2 t2 = 2" using vm_wf_child [OF wf2, of t3 "pt_index 3 va" t2] g2(2) pd l2 by simp
      obtain r3 s3 where n3: "vm_next True (slot t2 (pt_index 2 va)) s2 = (r3, s3)" by force
      have e3: "rd64 (mem s3) (slot t j) = rd64 (mem s2) (slot t j)" using vm_next_other [OF wf2 _ _ n3, of t] l4 l2 o(3) by (cases "t = t2") simp_all
      show ?thesis using w n1 n2 n3 nz Some pd e1 e2 e3 by (cases r3) (simp_all add: vm_walk_def vm_indices)
    qed
  qed
qed

lemma vm_map_other:
  assumes wf: "vm_wf lv s" and sp: "lv space = 4" and m: "vm_map space va pa flags s = (0, s')" and o: "lv t = 4" "t \<noteq> space"
  shows "pml4_ok (mem s') t v = pml4_ok (mem s) t v"
proof -
  let ?j = "pt_index 4 v"
  obtain r s1 where w: "vm_walk space va True s = (r, s1)" by force
  then obtain pte where pte: "r = Some pte" "mem s' = wr64 (mem s1) pte ((pa AND VM_ADDR_MASK) OR flags)"
    using m by (auto simp: vm_map_def split: if_splits option.splits)
  obtain lv' where g: "vm_grown lv s lv' s1" "r = map_option (\<lambda>p. slot p (pt_index 1 va)) (pt_of (mem s1) 4 space va)"
    using vm_walk_spec [OF wf sp w] by blast
  then obtain p where p: "pt_of (mem s1) 4 space va = Some p" "pte = slot p (pt_index 1 va)"
    using pte(1) by (cases "pt_of (mem s1) 4 space va") auto
  have w': "wf_tables lv' (mem s1) (pmm_avail (pmm s1))" using vm_grown_keeps(1) [OF g(1)] by (simp add: vm_wf_def)
  have l: "lv' space = 4" "lv' t = 4" using vm_grown_keeps(2) [OF g(1), of space] vm_grown_keeps(2) [OF g(1), of t] sp o(1) by simp_all
  have lp: "lv' p = 1" by (rule pt_of_level [OF w' l(1) p(1)])
  have "rd64 (mem s') (slot t ?j) = rd64 (mem s1) (slot t ?j)"
    using rd_slot_wr [OF wf_frame(1) [OF w', of p] _ wf_frame(1) [OF w', of t], of "pt_index 1 va" ?j] lp l(2) by (auto simp: pte(2) p(2))
  then show ?thesis using vm_walk_other [OF wf sp w o, of ?j] by (simp add: pml4_ok_def)
qed

lemma vm_kept_map:
  assumes k: "vm_kept A lv0 s0 lv s" and sp: "lv space = 4" and none: "mmu_leaf (mem s) 4 space va = None" and p4: "pml4_ok (mem s) space va"
    and av: "3 \<le> card (pmm_avail (pmm s))" and args: "va AND 4095 = 0" "PMM_MAX_PHYS \<le> va" and fr: "is_frame pa"
  obtains lv' s' where "vm_map space va pa (VM_PTE_PRESENT OR VM_PTE_WRITE) s = (0, s')" "vm_kept A lv0 s0 lv' s'"
    "\<forall>t. 0 < lv t \<longrightarrow> lv' t = lv t" "\<forall>t. lv t = 0 \<and> t \<notin> pmm_avail (pmm s) \<longrightarrow> lv' t = 0"
    "page_update lv space va (Some (1, pa OR 3)) s s'" "pte_frame (pa OR 3) = pa" "sys_rest s' = sys_rest s" "cr3 s' = cr3 s"
    "card (pmm_avail (pmm s)) \<le> card (pmm_avail (pmm s')) + 3" "pmm_avail (pmm s') \<subseteq> pmm_avail (pmm s)"
    "\<forall>t v. lv t = 4 \<and> t \<noteq> space \<longrightarrow> pml4_ok (mem s') t v = pml4_ok (mem s) t v"
proof -
  note wf = vm_kept_wf [OF k]
  have "fst (vm_map space va pa (VM_PTE_PRESENT OR VM_PTE_WRITE) s) = 0"
    by (rule vm_map_succeeds [OF wf sp rw_flags(1,2) none p4 av args(1) _ _ args(2)]) (use fr in \<open>simp_all add: is_frame_def\<close>)
  then obtain s' where m: "vm_map space va pa (VM_PTE_PRESENT OR VM_PTE_WRITE) s = (0, s')" by (metis prod.collapse)
  note d = vm_map_done [OF wf sp rw_flags(1,2) m]
  obtain lv' where lv': "vm_wf lv' s'" "tables_only lv s lv' s'" using d(1) by blast
  have "card (pmm_avail (pmm s)) \<le> card (pmm_avail (pmm s')) + 3"
    using vm_map_cost [of s space va pa "VM_PTE_PRESENT OR VM_PTE_WRITE"] wf m by (simp add: vm_wf_def)
  moreover have "\<forall>t. 0 < lv t \<longrightarrow> lv' t = lv t" "\<forall>t. lv t = 0 \<and> t \<notin> pmm_avail (pmm s) \<longrightarrow> lv' t = 0"
    using lv'(2) unfolding tables_only_def by (blast, metis gr0I less_numeral_extra(3))
  moreover have "sys_rest s' = sys_rest s" "cr3 s' = cr3 s" using d(7) by (auto simp: sys_rest_def)
  ultimately show thesis using that [OF m vm_kept_grow [OF k lv']] d(3,4,8) vm_map_other [OF wf sp m] unfolding rw_flags(3) by blast
qed

lemma vm_kept_refuse:
  assumes k: "vm_kept A lv0 s0 lv s" and sp: "lv space = 4" and some: "mmu_leaf (mem s) 4 space va \<noteq> None"
  obtains lv' s' where "vm_map space va pa (VM_PTE_PRESENT OR VM_PTE_WRITE) s = (-1, s')" "vm_kept A lv0 s0 lv' s'"
    "\<forall>t. 0 < lv t \<longrightarrow> lv' t = lv t" "\<forall>t. lv t = 0 \<and> t \<notin> pmm_avail (pmm s) \<longrightarrow> lv' t = 0"
    "\<forall>t va. lv t = 4 \<longrightarrow> mmu_leaf (mem s') 4 t va = mmu_leaf (mem s) 4 t va" "sys_rest s' = sys_rest s" "cr3 s' = cr3 s"
    "card (pmm_avail (pmm s)) \<le> card (pmm_avail (pmm s')) + 3" "pmm_avail (pmm s') \<subseteq> pmm_avail (pmm s)"
proof -
  note wf = vm_kept_wf [OF k]
  obtain r s' where m: "vm_map space va pa (VM_PTE_PRESENT OR VM_PTE_WRITE) s = (r, s')" by force
  have "r \<noteq> 0" using vm_map_done(2) [OF wf sp rw_flags(1,2), of va pa s'] m some by auto
  then obtain lv' where r: "r = -1" and g: "vm_grown lv s lv' s'" using vm_map_refused [OF wf sp rw_flags(1,2) m] by blast
  have t: "vm_wf lv' s'" "tables_only lv s lv' s'" using g by (simp_all add: vm_grown_def)
  have "card (pmm_avail (pmm s)) \<le> card (pmm_avail (pmm s')) + 3"
    using vm_map_cost [of s space va pa "VM_PTE_PRESENT OR VM_PTE_WRITE"] wf m by (simp add: vm_wf_def)
  moreover have "\<forall>t. 0 < lv t \<longrightarrow> lv' t = lv t" "\<forall>t. lv t = 0 \<and> t \<notin> pmm_avail (pmm s) \<longrightarrow> lv' t = 0" "pmm_avail (pmm s') \<subseteq> pmm_avail (pmm s)"
    using t(2) unfolding tables_only_def by (blast, metis gr0I less_numeral_extra(3), blast)
  moreover have "sys_rest s' = sys_rest s" "cr3 s' = cr3 s" using g unfolding vm_grown_def by (auto simp: sys_rest_def)
  ultimately show thesis using that [OF m [unfolded r] vm_kept_grow [OF k t]] mmu_leaf_grown [OF g] by blast
qed

lemma vm_kept_unmap:
  assumes k: "vm_kept A lv0 s0 lv s" and sp: "lv space = 4" and e: "mmu_leaf (mem s) 4 space va = Some (1, e)"
  obtains s' where "vm_unmap space va s = (pte_frame e, s')" "vm_kept A lv0 s0 lv s'" "page_update lv space va None s s'"
    "sys_rest s' = sys_rest s" "cr3 s' = cr3 s" "pmm s' = pmm s" "\<forall>t v. lv t = 4 \<longrightarrow> pml4_ok (mem s') t v = pml4_ok (mem s) t v"
proof -
  note wf = vm_kept_wf [OF k]
  have wt: "wf_tables lv (mem s) (pmm_avail (pmm s))" using wf by (simp add: vm_wf_def)
  obtain s' where u: "vm_unmap space va s = (pte_frame e, s')" "vm_wf lv s'" "page_update lv space va None s s'"
    using vm_unmap_done [OF wf sp e] by blast
  from wf sp show thesis
  proof (cases rule: vm_unmap_cases [where va = va])
    case absent
    then show thesis using mmu_leaf_pt_of [OF e] by auto
  next
    case (unmapped p)
    let ?m = "wr64 (mem s) (slot p (pt_index 1 va)) 0"
    have s': "s' = invlpg va (s\<lparr>mem := ?m\<rparr>)" using u(1) unmapped(3) by simp
    have l: "lv p = 1" using pt_of_level [OF wt sp unmapped(1)] .
    note al = wf_frame(1) [OF wt]
    have pal: "p AND 4095 = 0" using al [of p] l by simp
    have out: "x AND NOT 4095 \<noteq> p \<Longrightarrow> ?m x = mem s x" for x by (rule slot_outside [OF pal]) simp_all
    have "\<forall>x. lv (x AND NOT 4095) = 0 \<and> x AND NOT 4095 \<notin> A \<longrightarrow> mem s' x = mem s0 x"
    proof (intro allI impI)
      fix x assume x: "lv (x AND NOT 4095) = 0 \<and> x AND NOT 4095 \<notin> A"
      then have "x AND NOT 4095 \<noteq> p" using l by auto
      then show "mem s' x = mem s0 x" using out x k by (simp add: s' vm_kept_def)
    qed
    then have kp: "vm_kept A lv0 s0 lv s'" using k u(2) by (simp add: vm_kept_def s')
    have "pml4_ok (mem s') t v = pml4_ok (mem s) t v" if "lv t = 4" for t v
    proof -
      have "rd64 ?m (slot t (pt_index 4 v)) = rd64 (mem s) (slot t (pt_index 4 v))"
        using rd_slot_wr [OF pal _ al [of t], of "pt_index 1 va" "pt_index 4 v" "mem s" 0] that l by auto
      then show ?thesis by (simp add: pml4_ok_def s')
    qed
    moreover have "sys_rest s' = sys_rest s" "cr3 s' = cr3 s" "pmm s' = pmm s" by (simp_all add: s' invlpg_def sys_rest_def)
    ultimately show thesis using that [OF u(1) kp u(3)] by blast
  qed
qed

lemma vm_kept_store:
  assumes k: "vm_kept A lv0 s0 lv s" and f: "is_frame f" "f \<in> A" "lv f = 0"
  shows "vm_kept A lv0 s0 lv (s\<lparr>mem := wr64 (mem s) f v\<rparr>)"
    "lv t = 4 \<Longrightarrow> mmu_leaf (wr64 (mem s) f v) 4 t va = mmu_leaf (mem s) 4 t va"
proof -
  note wf = vm_kept_wf [OF k]
  have wt: "wf_tables lv (mem s) (pmm_avail (pmm s))" using wf by (simp add: vm_wf_def)
  have al: "f AND 4095 = 0" using f(1) by (simp add: is_frame_def)
  have eq: "rd64 (wr64 (mem s) f v) (slot t j) = rd64 (mem s) (slot t j)" if t: "0 < lv t" "j < 512" for t j
    by (rule rd64_cong, rule wr64_in_frame [OF al]) (use slot_page [OF wf_frame(1) [OF wt t(1)] t(2)] t(1) f(3) in auto)
  show "lv t = 4 \<Longrightarrow> mmu_leaf (wr64 (mem s) f v) 4 t va = mmu_leaf (mem s) 4 t va"
    using mmu_leaf_tables [OF wt eq, of t 4 va] by simp
  have "wf_tables lv (wr64 (mem s) f v) (pmm_avail (pmm s))" by (rule wf_same_children [OF wt order_refl]) (use eq in \<open>auto simp: child_def\<close>)
  moreover have "wr64 (mem s) f v x = mem s0 x" if "lv (x AND NOT 4095) = 0" "x AND NOT 4095 \<notin> A" for x
    using wr64_in_frame [OF al, of x "mem s" v] that f(2) k by (auto simp: vm_kept_def)
  ultimately show "vm_kept A lv0 s0 lv (s\<lparr>mem := wr64 (mem s) f v\<rparr>)" using k by (auto simp: vm_kept_def vm_wf_def)
qed

text \<open>A new address space.\<close>

lemma space_mem_outside:
  assumes pa: "pa AND 4095 = 0" and x: "x AND NOT 4095 \<noteq> pa"
  shows "space_mem pa ks m x = m x"
proof -
  have f: "fold (\<lambda>i m. wr64 m (slot pa (of_nat i)) (rd64 m (slot ks (of_nat i)))) [256..<n] m x = m x" if "n \<le> 512" for n m
    using that
  proof (induction n)
    case (Suc n)
    have "(of_nat n :: u64) < 512" using Suc.prems by (simp add: word_less_nat_alt unat_of_nat_u64)
    then show ?case using Suc slot_outside [OF pa _ x] by simp
  qed simp
  show ?thesis unfolding space_mem_def Let_def using f [of 512] slot_outside [OF pa _ x, of 0] zero_table_outside [OF pa x]
    by (simp del: upt_rec_numeral)
qed

lemma vm_kept_space:
  assumes k: "vm_kept A lv0 s0 lv s" and ks: "lv (vm_kernel_space_ptr s) = 4" and ne: "0 < card (pmm_avail (pmm s))"
  obtains pa s' where "vm_create_space s = (pa, s')" "vm_kept A lv0 s0 (lv(pa := 4)) s'" "is_frame pa" "pa \<in> pmm_avail (pmm s)" "lv pa = 0"
    "sys_rest s' = sys_rest s" "cr3 s' = cr3 s" "card (pmm_avail (pmm s)) \<le> card (pmm_avail (pmm s')) + 1" "pmm_avail (pmm s') \<subseteq> pmm_avail (pmm s)"
    "\<forall>va. \<not> shared_ix (pt_index 4 va) \<longrightarrow> mmu_leaf (mem s') 4 pa va = None \<and> pml4_ok (mem s') pa va"
    "\<forall>t va. lv t = 4 \<longrightarrow> mmu_leaf (mem s') 4 t va = mmu_leaf (mem s) 4 t va" "\<forall>t va. lv t = 4 \<longrightarrow> pml4_ok (mem s') t va = pml4_ok (mem s) t va"
proof -
  let ?ks = "vm_kernel_space_ptr s"
  note wf = vm_kept_wf [OF k]
  have inv: "pmm_inv (pmm s)" and w: "wf_tables lv (mem s) (pmm_avail (pmm s))" using wf by (simp_all add: vm_wf_def)
  have nz: "?ks \<noteq> 0" using wf_frame(2) [OF w, of ?ks] ks by simp
  from inv show thesis
  proof (cases rule: alloc_frame_cases)
    case none
    then show thesis using ne by simp
  next
    case (frame pa p)
    let ?m = "space_mem pa ?ks (mem s)" and ?s = "s\<lparr>pmm := p, mem := space_mem pa ?ks (mem s)\<rparr>"
    have c: "vm_create_space s = (pa, ?s)"
      using nz frame(1,3) by (auto simp: vm_create_space_def space_mem_def Let_def is_frame_def simp del: upt_rec_numeral)
    have lp: "lv pa = 0" using wf_frame(4) [OF w, of pa] frame(2) by (cases "lv pa") auto
    have al: "pa AND 4095 = 0" "?ks AND 4095 = 0" "?ks \<noteq> pa" using frame(3) wf_frame(1) [OF w, of ?ks] ks lp by (auto simp: is_frame_def)
    have "tables_only lv s (lv(pa := 4)) ?s" unfolding tables_only_def
      using lp frame(2,5) space_mem_outside [OF al(1)] by (auto split: if_splits)
    moreover have "vm_wf (lv(pa := 4)) ?s" using space_wf [OF w ks frame(2,3)] frame(4,5) by (simp add: vm_wf_def)
    ultimately have kp: "vm_kept A lv0 s0 (lv(pa := 4)) ?s" by (rule vm_kept_grow [OF k, rotated])
    have new: "mmu_leaf ?m 4 pa va = None \<and> pml4_ok ?m pa va" if "\<not> shared_ix (pt_index 4 va)" for va
      using space_mmu(2) [OF w ks frame(2,3), of va] space_mem_rd [OF al al(1), of "pt_index 4 va"] that by (simp add: pml4_ok_def pte_present_def)
    have old: "mmu_leaf ?m 4 t va = mmu_leaf (mem s) 4 t va" if "lv t = 4" for t va
      using space_mmu(1) [OF w ks frame(2,3), of t va] that by simp
    have p4: "pml4_ok ?m t va = pml4_ok (mem s) t va" if "lv t = 4" for t va
      using space_mem_rd [OF al wf_frame(1) [OF w, of t], of "pt_index 4 va"] that lp by (auto simp: pml4_ok_def)
    show thesis
      by (rule that [OF c kp frame(3,2) lp]) (use frame(2,5) new old p4 in \<open>auto simp: card_Diff_singleton sys_rest_def\<close>)
  qed
qed

section \<open>The scratch page\<close>

lemma test_pages:
  "VM_SCRATCH_BASE AND 4095 = 0" "PMM_MAX_PHYS \<le> VM_SCRATCH_BASE" "pt_index 4 VM_SCRATCH_BASE = 256"
  "VM_SPACE_TEST_BASE AND 4095 = 0" "PMM_MAX_PHYS \<le> VM_SPACE_TEST_BASE" "\<not> shared_ix (pt_index 4 VM_SPACE_TEST_BASE)"
  by (simp_all add: VM_SCRATCH_BASE_def VM_SPACE_TEST_BASE_def PMM_MAX_PHYS_def pt_index_def shared_ix_def)

lemma access_mapped:
  assumes "mmu_leaf (mem s) 4 (pte_frame (cr3 s)) va = Some (1, e)" "va AND 4095 = 0"
  shows "vstore64 code r va v s = Some (s\<lparr>mem := wr64 (mem s) (pte_frame e) v\<rparr>)" "vload64 code r va s = Some (rd64 (mem s) (pte_frame e), s)"
proof -
  have "mmu (mem s) (cr3 s) va = Some (pte_frame e)" using assms by (simp add: mmu_def leaf_addr_1 [unfolded One_nat_def])
  then show "vstore64 code r va v s = Some (s\<lparr>mem := wr64 (mem s) (pte_frame e) v\<rparr>)" "vload64 code r va s = Some (rd64 (mem s) (pte_frame e), s)"
    by (simp_all add: vstore64_def vload64_def vtouch_def)
qed

lemma page_update_root:
  "page_update lv space va new s s' \<Longrightarrow> mmu_leaf (mem s') 4 space va' = (if same_page va va' then new else mmu_leaf (mem s) 4 space va')"
  unfolding page_update_def by blast

text \<open>A page that is mapped, written and read back.\<close>

lemma vm_test_readback_ok:
  assumes leaf: "mmu_leaf (mem s) 4 (pte_frame (cr3 s)) VM_SCRATCH_BASE = Some (1, e)"
    and keep: "\<And>v. mmu_leaf (wr64 (mem s) (pte_frame e) v) 4 (pte_frame (cr3 s)) VM_SCRATCH_BASE = Some (1, e)"
  shows "vm_test_readback code r s =
    Some (True, kprintf (''M8/VM: map PASS'' @ nl) [] (s\<lparr>mem := wr64 (mem s) (pte_frame e) 0x1122334455667788\<rparr>))"
proof -
  let ?s = "s\<lparr>mem := wr64 (mem s) (pte_frame e) 0x1122334455667788\<rparr>"
  note a = access_mapped [OF leaf test_pages(1), of code r] access_mapped [where s = ?s, of VM_SCRATCH_BASE e code r]
  show ?thesis using a keep test_pages(1) by (simp add: vm_test_readback_def del: append.simps)
qed

text \<open>First part: the page is mapped, written, read back and unmapped, and an identity-mapped page is refused.\<close>

lemma test_scratch_mapped:
  assumes wf: "vm_wf lv s" and ks: "lv ks = 4" and cr: "pte_frame (cr3 s) = ks" and none: "mmu_leaf (mem s) 4 ks VM_SCRATCH_BASE = None"
    and p4: "pml4_ok (mem s) ks VM_SCRATCH_BASE" and av: "10 \<le> card (pmm_avail (pmm s))"
  obtains fr s1 s2 t1 s3 lv' where "alloc_frame s = (fr, s1)" "vm_map ks VM_SCRATCH_BASE fr (VM_PTE_PRESENT OR VM_PTE_WRITE) s1 = (0, s2)"
    "vm_test_readback code r s2 = Some t1" "vm_test_huge ks fr (vm_test_unmap ks fr t1) = (True, s3)"
    "fr \<in> pmm_avail (pmm s)" "is_frame fr" "vm_kept (pmm_avail (pmm s)) lv s lv' s3" "lv' ks = 4" "lv' fr = 0" "fr \<notin> pmm_avail (pmm s3)"
    "\<forall>va. mmu_leaf (mem s3) 4 ks va = mmu_leaf (mem s) 4 ks va" "pml4_ok (mem s3) ks VM_SCRATCH_BASE"
    "sys_rest s3 = sys_rest s" "cr3 s3 = cr3 s" "card (pmm_avail (pmm s)) \<le> card (pmm_avail (pmm s3)) + 4"
proof -
  let ?A = "pmm_avail (pmm s)" and ?S = VM_SCRATCH_BASE and ?rw = "VM_PTE_PRESENT OR VM_PTE_WRITE"
  have "0 < card ?A" using av by simp
  from vm_kept_alloc [OF vm_kept_refl [OF wf] this] obtain fr p where
    a: "alloc_frame s = (fr, s\<lparr>pmm := p\<rparr>)" "fr \<in> ?A" "is_frame fr" "lv fr = 0" "pmm_avail p = ?A - {fr}"
      "vm_kept ?A lv s lv (s\<lparr>pmm := p\<rparr>)" "card ?A \<le> card (pmm_avail p) + 1" by metis
  let ?s1 = "s\<lparr>pmm := p\<rparr>"
  have "mmu_leaf (mem ?s1) 4 ks ?S = None" "pml4_ok (mem ?s1) ks ?S" "3 \<le> card (pmm_avail (pmm ?s1))" using none p4 a(7) av by simp_all
  from vm_kept_map [OF a(6) ks this test_pages(1,2) a(3)] obtain lv1 s2 where
    m: "vm_map ks ?S fr ?rw ?s1 = (0, s2)" "vm_kept ?A lv s lv1 s2" "\<forall>t. 0 < lv t \<longrightarrow> lv1 t = lv t"
      "\<forall>t. lv t = 0 \<and> t \<notin> pmm_avail (pmm ?s1) \<longrightarrow> lv1 t = 0" "page_update lv ks ?S (Some (1, fr OR 3)) ?s1 s2" "pte_frame (fr OR 3) = fr"
      "sys_rest s2 = sys_rest ?s1" "cr3 s2 = cr3 ?s1" "card (pmm_avail (pmm ?s1)) \<le> card (pmm_avail (pmm s2)) + 3"
      "pmm_avail (pmm s2) \<subseteq> pmm_avail (pmm ?s1)" by metis
  have l1: "lv1 ks = 4" "lv1 fr = 0" using m(3,4) ks a(4,5) by simp_all
  note leaf2 = page_update_root [OF m(5)]
  have S2: "mmu_leaf (mem s2) 4 ks ?S = Some (1, fr OR 3)" using leaf2 vm.same_page_refl by simp
  note st = vm_kept_store [OF m(2) a(3,2) l1(2)]
  define u1 where "u1 = kprintf (''M8/VM: map PASS'' @ nl) [] (s2\<lparr>mem := wr64 (mem s2) fr 0x1122334455667788\<rparr>)"
  have rb: "vm_test_readback code r s2 = Some (True, u1)"
    using vm_test_readback_ok [of s2 "fr OR 3" code r] S2 st(2) l1(1) m(6,8) cr by (simp add: u1_def del: append.simps)
  have k1: "vm_kept ?A lv s lv1 u1" using st(1) by (simp add: u1_def del: append.simps)
  have leaf_u1: "mmu_leaf (mem u1) 4 ks va = mmu_leaf (mem s2) 4 ks va" for va using st(2) l1(1) by (simp add: u1_def del: append.simps)
  have S1: "mmu_leaf (mem u1) 4 ks ?S = Some (1, fr OR 3)" using leaf_u1 S2 by simp
  from vm_kept_unmap [OF k1 l1(1) S1] obtain s3 where
    u: "vm_unmap ks ?S u1 = (fr, s3)" "vm_kept ?A lv s lv1 s3" "page_update lv1 ks ?S None u1 s3" "sys_rest s3 = sys_rest u1" "cr3 s3 = cr3 u1"
      "pmm s3 = pmm u1" "\<forall>v. pml4_ok (mem s3) ks v = pml4_ok (mem u1) ks v" using m(6) l1(1) by metis
  define u2 where "u2 = kprintf (''M8/VM: huge-page reject PASS'' @ nl) [] (kprintf (''M8/VM: unmap PASS'' @ nl) [] s3)"
  have un: "vm_test_huge ks fr (vm_test_unmap ks fr (True, u1)) = (True, u2)"
    using u(1) by (simp add: vm_test_unmap_def vm_test_huge_def vm_map_def u2_def VM_PAGE_SIZE_def PMM_MAX_PHYS_def del: append.simps)
  have f2: "mem u2 = mem s3" "pmm u2 = pmm s3" "cr3 u2 = cr3 s3" "sys_rest u2 = sys_rest s3" by (simp_all add: u2_def del: append.simps)
  have f1: "pmm u1 = pmm s2" "cr3 u1 = cr3 s2" "sys_rest u1 = sys_rest s2" by (simp_all add: u1_def del: append.simps)
  have k2: "vm_kept ?A lv s lv1 u2" using u(2) by (simp add: u2_def del: append.simps)
  have leaf: "mmu_leaf (mem u2) 4 ks va = mmu_leaf (mem s) 4 ks va" for va
    using page_update_root [OF u(3), of va] leaf_u1 leaf2 none mmu_leaf_same_page [of ?S va "mem s" ks] by (cases "same_page ?S va") (simp_all add: f2)
  have p42: "pml4_ok (mem u2) ks ?S" using u(7) leaf_pml4_ok [OF S1] by (simp add: f2)
  have out: "fr \<notin> pmm_avail (pmm u2)" using m(10) a(5) f1 f2 u(6) by auto
  show thesis
    by (rule that [OF a(1) m(1) rb un a(2,3) k2 l1 out _ p42]) (use leaf f2 u(4-6) f1 m(7-9) a(7) in simp_all)
qed

text \<open>Second part: mapped once more, the page refuses another mapping, and is given back.\<close>

lemma test_scratch_double:
  assumes k: "vm_kept A lv0 s0 lv s" and ks: "lv ks = 4" and none: "mmu_leaf (mem s) 4 ks VM_SCRATCH_BASE = None"
    and p4: "pml4_ok (mem s) ks VM_SCRATCH_BASE" and av: "3 \<le> card (pmm_avail (pmm s))"
    and fr: "fr \<in> A" "is_frame fr" "lv fr = 0" "fr \<notin> pmm_avail (pmm s)"
  obtains s3 s4 lv' where "vm_test_double ks fr (True, s) = (True, s3)" "free_frame fr (snd (vm_unmap ks VM_SCRATCH_BASE s3)) = s4"
    "vm_kept A lv0 s0 lv' s4" "sys_rest s4 = sys_rest s" "cr3 s4 = cr3 s" "\<forall>va. mmu_leaf (mem s4) 4 ks va = mmu_leaf (mem s) 4 ks va"
    "pml4_ok (mem s4) ks VM_SCRATCH_BASE" "card (pmm_avail (pmm s)) \<le> card (pmm_avail (pmm s4)) + 6"
proof -
  let ?S = VM_SCRATCH_BASE and ?rw = "VM_PTE_PRESENT OR VM_PTE_WRITE"
  from vm_kept_map [OF k ks none p4 av test_pages(1,2) fr(2)] obtain lv2 s5 where
    d: "vm_map ks ?S fr ?rw s = (0, s5)" "vm_kept A lv0 s0 lv2 s5" "\<forall>t. 0 < lv t \<longrightarrow> lv2 t = lv t"
      "\<forall>t. lv t = 0 \<and> t \<notin> pmm_avail (pmm s) \<longrightarrow> lv2 t = 0" "page_update lv ks ?S (Some (1, fr OR 3)) s s5" "pte_frame (fr OR 3) = fr"
      "sys_rest s5 = sys_rest s" "cr3 s5 = cr3 s" "card (pmm_avail (pmm s)) \<le> card (pmm_avail (pmm s5)) + 3" "pmm_avail (pmm s5) \<subseteq> pmm_avail (pmm s)" by metis
  have l2: "lv2 ks = 4" "lv2 fr = 0" using d(3,4) ks fr(3,4) by simp_all
  note leaf5 = page_update_root [OF d(5)]
  have S5: "mmu_leaf (mem s5) 4 ks ?S = Some (1, fr OR 3)" using leaf5 vm.same_page_refl by simp
  then have "mmu_leaf (mem s5) 4 ks ?S \<noteq> None" by simp
  from vm_kept_refuse [OF d(2) l2(1) this, of fr] obtain lv3 s6 where
    e: "vm_map ks ?S fr ?rw s5 = (-1, s6)" "vm_kept A lv0 s0 lv3 s6" "\<forall>t. 0 < lv2 t \<longrightarrow> lv3 t = lv2 t"
      "\<forall>t. lv2 t = 0 \<and> t \<notin> pmm_avail (pmm s5) \<longrightarrow> lv3 t = 0" "\<forall>t va. lv2 t = 4 \<longrightarrow> mmu_leaf (mem s6) 4 t va = mmu_leaf (mem s5) 4 t va"
      "sys_rest s6 = sys_rest s5" "cr3 s6 = cr3 s5" "card (pmm_avail (pmm s5)) \<le> card (pmm_avail (pmm s6)) + 3" by metis
  have l3: "lv3 ks = 4" "lv3 fr = 0" using e(3,4) l2 fr(4) d(10) by auto
  define u3 where "u3 = kprintf (''M8/VM: double-map reject PASS'' @ nl) [] s6"
  have db: "vm_test_double ks fr (True, s) = (True, u3)" using d(1) e(1) by (simp add: vm_test_double_def u3_def del: append.simps)
  have f3: "mem u3 = mem s6" "pmm u3 = pmm s6" "cr3 u3 = cr3 s6" "sys_rest u3 = sys_rest s6" by (simp_all add: u3_def del: append.simps)
  have k3: "vm_kept A lv0 s0 lv3 u3" using e(2) by (simp add: u3_def del: append.simps)
  have S6: "mmu_leaf (mem u3) 4 ks ?S = Some (1, fr OR 3)" using e(5) l2(1) S5 by (simp add: f3)
  from vm_kept_unmap [OF k3 l3(1) S6] obtain s7 where
    w: "vm_unmap ks ?S u3 = (pte_frame (fr OR 3), s7)" "vm_kept A lv0 s0 lv3 s7" "page_update lv3 ks ?S None u3 s7" "sys_rest s7 = sys_rest u3"
      "cr3 s7 = cr3 u3" "pmm s7 = pmm u3" "\<forall>v. pml4_ok (mem s7) ks v = pml4_ok (mem u3) ks v" using l3(1) by metis
  note fz = vm_kept_free [OF w(2) fr(2,1) l3(2)]
  have fin: "free_frame fr (snd (vm_unmap ks ?S u3)) = free_frame fr s7" using w(1) by simp
  have "mmu_leaf (mem s7) 4 ks va = mmu_leaf (mem s) 4 ks va" for va
    using page_update_root [OF w(3), of va] e(5) l2(1) leaf5 [of va] none mmu_leaf_same_page [of ?S va "mem s" ks]
    by (cases "same_page ?S va") (simp_all add: f3)
  moreover have "pml4_ok (mem s7) ks ?S" using w(7) leaf_pml4_ok [OF S6] by simp
  ultimately show thesis
    by (intro that [OF db fin fz(1)]) (use fz(2,3) d(7-9) e(6-8) w(4-6) f3 in simp_all)
qed

lemma vm_test_scratch:
  assumes wf: "vm_wf lv s" and ks: "lv ks = 4" and cr: "pte_frame (cr3 s) = ks" and none: "mmu_leaf (mem s) 4 ks VM_SCRATCH_BASE = None"
    and p4: "pml4_ok (mem s) ks VM_SCRATCH_BASE" and av: "10 \<le> card (pmm_avail (pmm s))"
  obtains frame s1 s2 t1 s3 s4 lv' where "alloc_frame s = (frame, s1)" "frame \<noteq> 0"
    "vm_map ks VM_SCRATCH_BASE frame (VM_PTE_PRESENT OR VM_PTE_WRITE) s1 = (0, s2)" "vm_test_readback code r s2 = Some t1"
    "vm_test_double ks frame (vm_test_huge ks frame (vm_test_unmap ks frame t1)) = (True, s3)"
    "free_frame frame (snd (vm_unmap ks VM_SCRATCH_BASE s3)) = s4" "vm_kept (pmm_avail (pmm s)) lv s lv' s4"
    "sys_rest s4 = sys_rest s" "cr3 s4 = cr3 s" "\<forall>va. mmu_leaf (mem s4) 4 ks va = mmu_leaf (mem s) 4 ks va"
    "pml4_ok (mem s4) ks VM_SCRATCH_BASE" "card (pmm_avail (pmm s)) \<le> card (pmm_avail (pmm s4)) + 10"
proof -
  let ?A = "pmm_avail (pmm s)" and ?S = VM_SCRATCH_BASE
  obtain fr s1 s2 t1 u lv1 where
    m: "alloc_frame s = (fr, s1)" "vm_map ks ?S fr (VM_PTE_PRESENT OR VM_PTE_WRITE) s1 = (0, s2)" "vm_test_readback code r s2 = Some t1"
      "vm_test_huge ks fr (vm_test_unmap ks fr t1) = (True, u)" "fr \<in> ?A" "is_frame fr" "vm_kept ?A lv s lv1 u" "lv1 ks = 4" "lv1 fr = 0"
      "fr \<notin> pmm_avail (pmm u)" "\<forall>va. mmu_leaf (mem u) 4 ks va = mmu_leaf (mem s) 4 ks va" "pml4_ok (mem u) ks ?S" "sys_rest u = sys_rest s" "cr3 u = cr3 s"
      "card ?A \<le> card (pmm_avail (pmm u)) + 4" by (rule test_scratch_mapped [OF assms])
  have n: "mmu_leaf (mem u) 4 ks ?S = None" "3 \<le> card (pmm_avail (pmm u))" using m(11,15) none av by simp_all
  obtain s3 s4 lv2 where
    d: "vm_test_double ks fr (True, u) = (True, s3)" "free_frame fr (snd (vm_unmap ks ?S s3)) = s4" "vm_kept ?A lv s lv2 s4" "sys_rest s4 = sys_rest u"
      "cr3 s4 = cr3 u" "\<forall>va. mmu_leaf (mem s4) 4 ks va = mmu_leaf (mem u) 4 ks va" "pml4_ok (mem s4) ks ?S"
      "card (pmm_avail (pmm u)) \<le> card (pmm_avail (pmm s4)) + 6" by (rule test_scratch_double [OF m(7,8) n(1) m(12) n(2) m(5,6,9,10)])
  have "fr \<noteq> 0" using m(6) by (simp add: is_frame_def)
  moreover have "vm_test_double ks fr (vm_test_huge ks fr (vm_test_unmap ks fr t1)) = (True, s3)" using m(4) d(1) by simp
  ultimately show thesis by (intro that [OF m(1) _ m(2,3) _ d(2,3)]) (use m(11,13-15) d(4-8) in simp_all)
qed

section \<open>Two address spaces\<close>

lemma page_update_other:
  "page_update lv space va new s s' \<Longrightarrow> lv t = 4 \<Longrightarrow> t \<noteq> space \<Longrightarrow> \<not> shared_ix (pt_index 4 va) \<Longrightarrow>
     mmu_leaf (mem s') 4 t va' = mmu_leaf (mem s) 4 t va'"
  unfolding page_update_def by blast

text \<open>Two roots that map the test page to different frames: each reads back what was written through it.\<close>

lemma vm_test_switch_ok:
  assumes k: "vm_kept A lv0 s0 lv s" and ks: "cr3 s = vm_kernel_space_ptr s" "cr3 s \<noteq> 0"
    and a: "is_frame a" "lv a = 4" "mmu_leaf (mem s) 4 a VM_SPACE_TEST_BASE = Some (1, fa OR 3)" "pte_frame (fa OR 3) = fa" "is_frame fa" "fa \<in> A" "lv fa = 0"
    and b: "is_frame b" "lv b = 4" "mmu_leaf (mem s) 4 b VM_SPACE_TEST_BASE = Some (1, fb OR 3)" "pte_frame (fb OR 3) = fb" "is_frame fb" "fb \<in> A" "lv fb = 0"
    and ne: "fa \<noteq> fb"
  obtains s' where "vm_test_switch code r a b (True, s) = Some (True, s')" "vm_kept A lv0 s0 lv s'" "sys_rest s' = sys_rest s" "cr3 s' = cr3 s" "pmm s' = pmm s"
    "\<forall>t va. lv t = 4 \<longrightarrow> mmu_leaf (mem s') 4 t va = mmu_leaf (mem s) 4 t va"
proof -
  let ?T = VM_SPACE_TEST_BASE and ?x = "0xAAAAAAAAAAAAAAAA :: u64" and ?y = "0xBBBBBBBBBBBBBBBB :: u64" and ?n = "\<lambda>_ :: u64. None :: u64 option"
  have z: "a \<noteq> 0" "b \<noteq> 0" using a(1) b(1) by (simp_all add: is_frame_def)
  note sw = vm_switch_def write_cr3_def
  let ?m1 = "wr64 (mem s) fa ?x"
  let ?m2 = "wr64 ?m1 fb ?y"
  note st1 = vm_kept_store [OF k a(5-7), where v = ?x]
  have L1: "mmu_leaf ?m1 4 t va = mmu_leaf (mem s) 4 t va" if "lv t = 4" for t va using st1(2) [OF that] .
  note st2 = vm_kept_store [OF st1(1) b(5-7), where v = ?y, simplified]
  have L2: "mmu_leaf ?m2 4 t va = mmu_leaf (mem s) 4 t va" if "lv t = 4" for t va using st2(2) [OF that] L1 [OF that] by simp
  note fr = frame_mask [OF a(1)] frame_mask [OF b(1)]
  let ?s0 = "s\<lparr>cr3 := a, tlb := ?n\<rparr>" and ?s1 = "s\<lparr>mem := ?m1, cr3 := b, tlb := ?n\<rparr>"
    and ?s2 = "s\<lparr>mem := ?m2, cr3 := a, tlb := ?n\<rparr>" and ?s3 = "s\<lparr>mem := ?m2, cr3 := b, tlb := ?n\<rparr>"
  have "mmu_leaf (mem ?s0) 4 (pte_frame (cr3 ?s0)) ?T = Some (1, fa OR 3)" using a(3) fr by simp
  note A1 = access_mapped(1) [OF this test_pages(4), of code r ?x]
  have "mmu_leaf (mem ?s1) 4 (pte_frame (cr3 ?s1)) ?T = Some (1, fb OR 3)" using b(2,3) L1 fr by simp
  note A2 = access_mapped(1) [OF this test_pages(4), of code r ?y]
  have "mmu_leaf (mem ?s2) 4 (pte_frame (cr3 ?s2)) ?T = Some (1, fa OR 3)" using a(2,3) L2 fr by simp
  note A3 = access_mapped(2) [OF this test_pages(4), of code r]
  have "mmu_leaf (mem ?s3) 4 (pte_frame (cr3 ?s3)) ?T = Some (1, fb OR 3)" using b(2,3) L2 fr by simp
  note A4 = access_mapped(2) [OF this test_pages(4), of code r]
  have al: "fa AND 7 = 0" "fb AND 7 = 0" using a(5) b(5) by (simp_all add: is_frame_def frame_aligned8)
  have rd: "rd64 ?m2 fa = ?x" "rd64 ?m2 fb = ?y" using ne by (simp_all add: rd64_wr64_aligned [OF al(2,1)])
  let ?s4 = "?s3\<lparr>cr3 := cr3 s, tlb := ?n\<rparr>"
  define s' where "s' = kprintf (''M8/VM: space A=%p B=%p PASS'' @ nl) [VInt ?x, VInt ?y] ?s4"
  have "vm_test_switch code r a b (True, s) = Some (True, s')"
    using A1 A2 A3 A4 z a(4) b(4) rd ks
    by (simp add: vm_test_switch_def sw vm_switch_kernel_def s'_def del: append.simps)
  moreover have e4: "?s4 = (s\<lparr>mem := ?m2\<rparr>)\<lparr>cr3 := cr3 s, tlb := ?n\<rparr>" by simp
  have "vm_kept A lv0 s0 lv s'" using st2(1) unfolding s'_def e4 vm_kept_fields .
  moreover have "sys_rest ?s4 = sys_rest s" by (simp add: sys_rest_def)
  then have "sys_rest s' = sys_rest s" unfolding s'_def kprintf_rest .
  ultimately show thesis by (rule that) (simp_all add: s'_def L2 del: append.simps)
qed

text \<open>Two new roots beside the kernel's, and two frames for their pages.\<close>

definition two_spaces :: "(u64 \<Rightarrow> nat) \<Rightarrow> u64 set \<Rightarrow> u64 \<Rightarrow> u64 \<Rightarrow> u64 \<Rightarrow> u64 \<Rightarrow> u64 \<Rightarrow> bool" where
  "two_spaces lv A k a b fa fb \<longleftrightarrow> is_frame a \<and> is_frame b \<and> a \<noteq> b \<and> k \<noteq> a \<and> k \<noteq> b \<and> lv a = 4 \<and> lv b = 4 \<and> lv k = 4 \<and>
     fa \<in> A \<and> fb \<in> A \<and> is_frame fa \<and> is_frame fb \<and> lv fa = 0 \<and> lv fb = 0 \<and> fa \<noteq> fb"

lemma two_spacesD:
  assumes "two_spaces lv A k a b fa fb"
  shows "is_frame a" "is_frame b" "a \<noteq> b" "k \<noteq> a" "k \<noteq> b" "lv a = 4" "lv b = 4" "lv k = 4" "fa \<in> A" "fb \<in> A" "is_frame fa" "is_frame fb"
    "lv fa = 0" "lv fb = 0" "fa \<noteq> fb" "a \<noteq> 0" "b \<noteq> 0" "fa \<noteq> 0" "fb \<noteq> 0"
  using assms by (simp_all add: two_spaces_def is_frame_def)

lemma test_spaces_made:
  assumes wf: "vm_wf lv s" and ks: "lv (vm_kernel_space_ptr s) = 4" and av: "10 \<le> card (pmm_avail (pmm s))"
  obtains a b s2 fa fb s4 lv' where "vm_test_create (True, s) = (a, b, True, s2)" "vm_test_frames (True, s2) = (fa, fb, True, s4)"
    "vm_kept (pmm_avail (pmm s)) lv s lv' s4" "two_spaces lv' (pmm_avail (pmm s)) (vm_kernel_space_ptr s) a b fa fb"
    "\<forall>t \<in> {a, b}. mmu_leaf (mem s4) 4 t VM_SPACE_TEST_BASE = None \<and> pml4_ok (mem s4) t VM_SPACE_TEST_BASE"
    "fa \<notin> pmm_avail (pmm s4)" "fb \<notin> pmm_avail (pmm s4)" "sys_rest s4 = sys_rest s" "cr3 s4 = cr3 s"
    "\<forall>va. mmu_leaf (mem s4) 4 (vm_kernel_space_ptr s) va = mmu_leaf (mem s) 4 (vm_kernel_space_ptr s) va"
    "card (pmm_avail (pmm s)) \<le> card (pmm_avail (pmm s4)) + 4"
proof -
  let ?A = "pmm_avail (pmm s)" and ?k = "vm_kernel_space_ptr s" and ?T = VM_SPACE_TEST_BASE
  have "0 < card ?A" using av by simp
  from vm_kept_space [OF vm_kept_refl [OF wf] ks this] obtain a s1 where
    a: "vm_create_space s = (a, s1)" "vm_kept ?A lv s (lv(a := 4)) s1" "is_frame a" "a \<in> ?A" "lv a = 0" "sys_rest s1 = sys_rest s" "cr3 s1 = cr3 s"
      "card ?A \<le> card (pmm_avail (pmm s1)) + 1" "pmm_avail (pmm s1) \<subseteq> ?A"
      "\<forall>va. \<not> shared_ix (pt_index 4 va) \<longrightarrow> mmu_leaf (mem s1) 4 a va = None \<and> pml4_ok (mem s1) a va"
      "\<forall>t va. lv t = 4 \<longrightarrow> mmu_leaf (mem s1) 4 t va = mmu_leaf (mem s) 4 t va" by metis
  let ?lv1 = "lv(a := 4)"
  have ka: "?k \<noteq> a" using a(5) ks by auto
  have k1: "?lv1 (vm_kernel_space_ptr s1) = 4" "vm_kernel_space_ptr s1 = ?k" using kernel_ptr_rest [OF a(6)] ks by simp_all
  have "0 < card (pmm_avail (pmm s1))" using a(8) av by simp
  from vm_kept_space [OF a(2) k1(1) this] obtain b s2 where
    b: "vm_create_space s1 = (b, s2)" "vm_kept ?A lv s (?lv1(b := 4)) s2" "is_frame b" "b \<in> pmm_avail (pmm s1)" "?lv1 b = 0" "sys_rest s2 = sys_rest s1" "cr3 s2 = cr3 s1"
      "card (pmm_avail (pmm s1)) \<le> card (pmm_avail (pmm s2)) + 1" "pmm_avail (pmm s2) \<subseteq> pmm_avail (pmm s1)"
      "\<forall>va. \<not> shared_ix (pt_index 4 va) \<longrightarrow> mmu_leaf (mem s2) 4 b va = None \<and> pml4_ok (mem s2) b va"
      "\<forall>t va. ?lv1 t = 4 \<longrightarrow> mmu_leaf (mem s2) 4 t va = mmu_leaf (mem s1) 4 t va" "\<forall>t va. ?lv1 t = 4 \<longrightarrow> pml4_ok (mem s2) t va = pml4_ok (mem s1) t va" by metis
  define lv2 where "lv2 = ?lv1(b := 4)"
  have kb: "vm_kept ?A lv s lv2 s2" using b(2) by (simp add: lv2_def)
  have ab: "a \<noteq> b" "?k \<noteq> b" using b(5) ks ka by (auto split: if_splits)
  have l2: "lv2 a = 4" "lv2 b = 4" "lv2 ?k = 4" using ab ks by (simp_all add: lv2_def)
  have c2: "card ?A \<le> card (pmm_avail (pmm s2)) + 2" using a(8) b(8) by simp
  have "0 < card (pmm_avail (pmm s2))" using c2 av by simp
  from vm_kept_alloc [OF kb this] obtain fa p where
    fa: "alloc_frame s2 = (fa, s2\<lparr>pmm := p\<rparr>)" "fa \<in> ?A" "is_frame fa" "lv2 fa = 0" "pmm_avail p = pmm_avail (pmm s2) - {fa}"
      "vm_kept ?A lv s lv2 (s2\<lparr>pmm := p\<rparr>)" "card (pmm_avail (pmm s2)) \<le> card (pmm_avail p) + 1" by metis
  let ?s3 = "s2\<lparr>pmm := p\<rparr>"
  have "0 < card (pmm_avail (pmm ?s3))" using c2 fa(7) av by simp
  from vm_kept_alloc [OF fa(6) this] obtain fb q where
    fb: "alloc_frame ?s3 = (fb, ?s3\<lparr>pmm := q\<rparr>)" "fb \<in> pmm_avail (pmm ?s3)" "fb \<in> ?A" "is_frame fb" "lv2 fb = 0" "pmm_avail q = pmm_avail (pmm ?s3) - {fb}"
      "vm_kept ?A lv s lv2 (?s3\<lparr>pmm := q\<rparr>)" "card (pmm_avail (pmm ?s3)) \<le> card (pmm_avail q) + 1" by metis
  have z: "two_spaces lv2 ?A ?k a b fa fb"
    using a(3) b(3) ab ka l2 fa(2-5) fb(2-5) by (auto simp: two_spaces_def)
  have C: "vm_test_create (True, s) = (a, b, True, s2)" using a(1) b(1) two_spacesD [OF z] by (simp add: vm_test_create_def)
  have Fr: "vm_test_frames (True, s2) = (fa, fb, True, ?s3\<lparr>pmm := q\<rparr>)" using fa(1) fb(1) two_spacesD [OF z] by (simp add: vm_test_frames_def)
  have T2: "\<forall>t \<in> {a, b}. mmu_leaf (mem s2) 4 t ?T = None \<and> pml4_ok (mem s2) t ?T" using a(10) b(10-12) test_pages(6) by simp
  show thesis
    by (rule that [OF C Fr fb(7) z]) (use T2 fa(5,7) fb(6,8) a(6,7,11) b(6,7,11) ks c2 in simp_all)
qed

lemma test_spaces_mapped:
  assumes k: "vm_kept A lv0 s0 lv s" and two: "two_spaces lv A ks a b fa fb"
    and free: "\<forall>t \<in> {a, b}. mmu_leaf (mem s) 4 t VM_SPACE_TEST_BASE = None \<and> pml4_ok (mem s) t VM_SPACE_TEST_BASE"
    and out: "fa \<notin> pmm_avail (pmm s)" "fb \<notin> pmm_avail (pmm s)" and av: "6 \<le> card (pmm_avail (pmm s))"
  obtains s' lv' where "vm_test_maps a b fa fb (True, s) = (True, s')" "vm_kept A lv0 s0 lv' s'" "two_spaces lv' A ks a b fa fb"
    "mmu_leaf (mem s') 4 a VM_SPACE_TEST_BASE = Some (1, fa OR 3)" "mmu_leaf (mem s') 4 b VM_SPACE_TEST_BASE = Some (1, fb OR 3)"
    "pte_frame (fa OR 3) = fa" "pte_frame (fb OR 3) = fb" "sys_rest s' = sys_rest s" "cr3 s' = cr3 s"
    "\<forall>va. mmu_leaf (mem s') 4 ks va = mmu_leaf (mem s) 4 ks va" "card (pmm_avail (pmm s)) \<le> card (pmm_avail (pmm s')) + 6"
proof -
  let ?T = VM_SPACE_TEST_BASE and ?rw = "VM_PTE_PRESENT OR VM_PTE_WRITE"
  note T = test_pages(4-6) and D = two_spacesD [OF two]
  have T4: "mmu_leaf (mem s) 4 a ?T = None" "pml4_ok (mem s) a ?T" "3 \<le> card (pmm_avail (pmm s))" using free av by simp_all
  obtain lv3 s5 where
    m: "vm_map a ?T fa ?rw s = (0, s5)" "vm_kept A lv0 s0 lv3 s5" "\<forall>t. 0 < lv t \<longrightarrow> lv3 t = lv t" "\<forall>t. lv t = 0 \<and> t \<notin> pmm_avail (pmm s) \<longrightarrow> lv3 t = 0"
      "page_update lv a ?T (Some (1, fa OR 3)) s s5" "pte_frame (fa OR 3) = fa" "sys_rest s5 = sys_rest s" "cr3 s5 = cr3 s"
      "card (pmm_avail (pmm s)) \<le> card (pmm_avail (pmm s5)) + 3" "pmm_avail (pmm s5) \<subseteq> pmm_avail (pmm s)"
      "\<forall>t v. lv t = 4 \<and> t \<noteq> a \<longrightarrow> pml4_ok (mem s5) t v = pml4_ok (mem s) t v"
    by (rule vm_kept_map [OF k D(6) T4 T(1,2) D(11)])
  have l3: "lv3 a = 4" "lv3 b = 4" "lv3 ks = 4" "lv3 fa = 0" "lv3 fb = 0"
    using m(3) [rule_format, of a] m(3) [rule_format, of b] m(3) [rule_format, of ks] m(4) [rule_format, of fa] m(4) [rule_format, of fb] D out
    by simp_all
  note T5 = page_update_root [OF m(5), of ?T] page_update_other [OF m(5) _ _ T(3)]
  have B5: "mmu_leaf (mem s5) 4 b ?T = None" "pml4_ok (mem s5) b ?T" "3 \<le> card (pmm_avail (pmm s5))"
    using T5(2) m(9,11) D(3,7) free av by simp_all
  from vm_kept_map [OF m(2) l3(2) B5 T(1,2) D(12)] obtain lv4 s6 where
    n: "vm_map b ?T fb ?rw s5 = (0, s6)" "vm_kept A lv0 s0 lv4 s6" "\<forall>t. 0 < lv3 t \<longrightarrow> lv4 t = lv3 t" "\<forall>t. lv3 t = 0 \<and> t \<notin> pmm_avail (pmm s5) \<longrightarrow> lv4 t = 0"
      "page_update lv3 b ?T (Some (1, fb OR 3)) s5 s6" "pte_frame (fb OR 3) = fb" "sys_rest s6 = sys_rest s5" "cr3 s6 = cr3 s5"
      "card (pmm_avail (pmm s5)) \<le> card (pmm_avail (pmm s6)) + 3" "pmm_avail (pmm s6) \<subseteq> pmm_avail (pmm s5)" by metis
  have out5: "fa \<notin> pmm_avail (pmm s5)" "fb \<notin> pmm_avail (pmm s5)" using out m(10) by auto
  have l4: "lv4 a = 4" "lv4 b = 4" "lv4 ks = 4" "lv4 fa = 0" "lv4 fb = 0"
    using n(3) [rule_format, of a] n(3) [rule_format, of b] n(3) [rule_format, of ks] n(4) [rule_format, of fa] n(4) [rule_format, of fb] l3 out5
    by simp_all
  note T6 = page_update_root [OF n(5), of ?T] page_update_other [OF n(5) _ _ T(3)]
  have L: "mmu_leaf (mem s6) 4 a ?T = Some (1, fa OR 3)" "mmu_leaf (mem s6) 4 b ?T = Some (1, fb OR 3)"
    using T5(1) T6 l3(1) D(3) vm.same_page_refl by simp_all
  have M: "vm_test_maps a b fa fb (True, s) = (True, s6)" using m(1) n(1) by (simp add: vm_test_maps_def)
  have two': "two_spaces lv4 A ks a b fa fb" using D l4 by (simp add: two_spaces_def)
  have leaf: "mmu_leaf (mem s6) 4 ks va = mmu_leaf (mem s) 4 ks va" for va using T6(2) [OF l3(3) D(5)] T5(2) [OF D(8,4)] by simp
  show thesis by (rule that [OF M n(2) two' L m(6) n(6)]) (use m(7-9) n(7-9) leaf in simp_all)
qed

lemma test_spaces_cleaned:
  assumes k: "vm_kept A lv0 s0 lv s" and two: "two_spaces lv A ks a b fa fb"
    and leaf: "mmu_leaf (mem s) 4 a VM_SPACE_TEST_BASE = Some (1, fa OR 3)" "mmu_leaf (mem s) 4 b VM_SPACE_TEST_BASE = Some (1, fb OR 3)"
  obtains s' where "vm_test_cleanup a b fa fb s = s'" "vm_kept A lv0 s0 lv s'" "sys_rest s' = sys_rest s" "cr3 s' = cr3 s"
    "\<forall>va. mmu_leaf (mem s') 4 ks va = mmu_leaf (mem s) 4 ks va" "card (pmm_avail (pmm s)) \<le> card (pmm_avail (pmm s'))"
proof -
  let ?T = VM_SPACE_TEST_BASE
  note T = test_pages(4-6) and D = two_spacesD [OF two]
  from vm_kept_unmap [OF k D(6) leaf(1)] obtain s8 where
    x: "vm_unmap a ?T s = (pte_frame (fa OR 3), s8)" "vm_kept A lv0 s0 lv s8" "page_update lv a ?T None s s8" "sys_rest s8 = sys_rest s"
      "cr3 s8 = cr3 s" "pmm s8 = pmm s" by metis
  note T8 = page_update_other [OF x(3) _ _ T(3)]
  have L8: "mmu_leaf (mem s8) 4 b ?T = Some (1, fb OR 3)" using T8 [OF D(7)] D(3) leaf(2) by simp
  from vm_kept_unmap [OF x(2) D(7) L8] obtain s9 where
    y: "vm_unmap b ?T s8 = (pte_frame (fb OR 3), s9)" "vm_kept A lv0 s0 lv s9" "page_update lv b ?T None s8 s9" "sys_rest s9 = sys_rest s8"
      "cr3 s9 = cr3 s8" "pmm s9 = pmm s8" by metis
  note T9 = page_update_other [OF y(3) _ _ T(3)]
  note F1 = vm_kept_free [OF y(2) D(11,9,13)]
  note F2 = vm_kept_free [OF F1(1) D(12,10,14)]
  have cl: "vm_test_cleanup a b fa fb s = free_frame fb (free_frame fa s9)" using D x(1) y(1) by (simp add: vm_test_cleanup_def)
  have f: "mem (free_frame f s) = mem s" "cr3 (free_frame f s) = cr3 s" "sys_rest (free_frame f s) = sys_rest s" for f and s :: "'b sys_scheme"
    by (simp_all add: free_frame_def)
  show thesis by (rule that [OF cl F2(1)]) (use T9 [OF D(8,5)] T8 [OF D(8,4)] F1(2) F2(2) x(4-6) y(4-6) in \<open>simp_all add: f\<close>)
qed

lemma vm_test_spaces:
  assumes wf: "vm_wf lv s" and ks: "lv (vm_kernel_space_ptr s) = 4" and cr: "cr3 s = vm_kernel_space_ptr s" and av: "10 \<le> card (pmm_avail (pmm s))"
  obtains a b t3 fa fb t4 t5 s5 s6 lv' where "vm_test_create (True, s) = (a, b, True, t3)" "vm_test_frames (True, t3) = (fa, fb, True, t4)"
    "vm_test_maps a b fa fb (True, t4) = (True, t5)" "vm_test_switch code r a b (True, t5) = Some (True, s5)"
    "vm_test_cleanup a b fa fb s5 = s6" "vm_kept (pmm_avail (pmm s)) lv s lv' s6" "sys_rest s6 = sys_rest s" "cr3 s6 = cr3 s"
    "\<forall>va. mmu_leaf (mem s6) 4 (vm_kernel_space_ptr s) va = mmu_leaf (mem s) 4 (vm_kernel_space_ptr s) va"
    "card (pmm_avail (pmm s)) \<le> card (pmm_avail (pmm s6)) + 10"
proof -
  let ?A = "pmm_avail (pmm s)" and ?k = "vm_kernel_space_ptr s" and ?T = VM_SPACE_TEST_BASE
  have kz: "?k \<noteq> 0" using wf_frame(2) wf ks unfolding vm_wf_def by (metis zero_less_numeral)
  obtain a b s2 fa fb s4 lv2 where
    m: "vm_test_create (True, s) = (a, b, True, s2)" "vm_test_frames (True, s2) = (fa, fb, True, s4)" "vm_kept ?A lv s lv2 s4" "two_spaces lv2 ?A ?k a b fa fb"
      "\<forall>t \<in> {a, b}. mmu_leaf (mem s4) 4 t ?T = None \<and> pml4_ok (mem s4) t ?T" "fa \<notin> pmm_avail (pmm s4)" "fb \<notin> pmm_avail (pmm s4)" "sys_rest s4 = sys_rest s"
      "cr3 s4 = cr3 s" "\<forall>va. mmu_leaf (mem s4) 4 ?k va = mmu_leaf (mem s) 4 ?k va" "card ?A \<le> card (pmm_avail (pmm s4)) + 4"
    by (rule test_spaces_made [OF wf ks av])
  have "6 \<le> card (pmm_avail (pmm s4))" using m(11) av by simp
  then obtain s6 lv4 where
    n: "vm_test_maps a b fa fb (True, s4) = (True, s6)" "vm_kept ?A lv s lv4 s6" "two_spaces lv4 ?A ?k a b fa fb" "mmu_leaf (mem s6) 4 a ?T = Some (1, fa OR 3)"
      "mmu_leaf (mem s6) 4 b ?T = Some (1, fb OR 3)" "pte_frame (fa OR 3) = fa" "pte_frame (fb OR 3) = fb" "sys_rest s6 = sys_rest s4" "cr3 s6 = cr3 s4"
      "\<forall>va. mmu_leaf (mem s6) 4 ?k va = mmu_leaf (mem s4) 4 ?k va" "card (pmm_avail (pmm s4)) \<le> card (pmm_avail (pmm s6)) + 6"
    by (rule test_spaces_mapped [OF m(3-7)])
  note D = two_spacesD [OF n(3)]
  have r6: "sys_rest s6 = sys_rest s" "cr3 s6 = cr3 s" using m(8,9) n(8,9) by simp_all
  have c6: "cr3 s6 = vm_kernel_space_ptr s6" "cr3 s6 \<noteq> 0" using kernel_ptr_rest [OF r6(1)] r6(2) cr kz by simp_all
  obtain s7 where
    w: "vm_test_switch code r a b (True, s6) = Some (True, s7)" "vm_kept ?A lv s lv4 s7" "sys_rest s7 = sys_rest s6" "cr3 s7 = cr3 s6" "pmm s7 = pmm s6"
      "\<forall>t va. lv4 t = 4 \<longrightarrow> mmu_leaf (mem s7) 4 t va = mmu_leaf (mem s6) 4 t va"
    by (rule vm_test_switch_ok [OF n(2) c6 D(1,6) n(4,6) D(11,9,13) D(2,7) n(5,7) D(12,10,14,15)])
  have L7: "mmu_leaf (mem s7) 4 a ?T = Some (1, fa OR 3)" "mmu_leaf (mem s7) 4 b ?T = Some (1, fb OR 3)" using w(6) D(6,7) n(4,5) by simp_all
  obtain s8 where
    x: "vm_test_cleanup a b fa fb s7 = s8" "vm_kept ?A lv s lv4 s8" "sys_rest s8 = sys_rest s7" "cr3 s8 = cr3 s7"
      "\<forall>va. mmu_leaf (mem s8) 4 ?k va = mmu_leaf (mem s7) 4 ?k va" "card (pmm_avail (pmm s7)) \<le> card (pmm_avail (pmm s8))"
    by (rule test_spaces_cleaned [OF w(2) n(3) L7])
  have leaf: "mmu_leaf (mem s8) 4 ?k va = mmu_leaf (mem s) 4 ?k va" for va using x(5) w(6) D(8) n(10) m(10) by simp
  show thesis by (rule that [OF m(1,2) n(1) w(1) x(1,2)]) (use leaf m(11) n(11) w(3-5) x(3,4,6) r6 in simp_all)
qed

section \<open>The heap during the test\<close>

text \<open>Working on available frames leaves the heap alone, as long as the kernel's translations stay.\<close>

lemma vm_kept_heap:
  assumes pg: "heap_paged lv0 s0" and k: "vm_kept (pmm_avail (pmm s0)) lv0 s0 lv s" and cr: "cr3 s = cr3 s0" and nf: "\<not> vm_in_fault s"
    and leaf: "\<forall>va. mmu_leaf (mem s) 4 (pte_frame (cr3 s0)) va = mmu_leaf (mem s0) 4 (pte_frame (cr3 s0)) va"
    and p4: "pml4_ok (mem s) (pte_frame (cr3 s0)) w" "pt_index 4 w = 256"
  shows "heap_paged lv s" "heap_leaf s x = heap_leaf s0 x" "heap_addr x \<Longrightarrow> heap_view s x = heap_view s0 x"
proof -
  note d = heap_pagedD [OF pg]
  show hl: "heap_leaf s x = heap_leaf s0 x" for x using leaf cr by (simp add: heap_leaf_def)
  have own: "k = 1 \<and> is_frame (pte_frame e) \<and> lv (pte_frame e) = 0 \<and> pte_frame e \<notin> pmm_avail (pmm s0)"
    if "heap_addr va" "heap_leaf s0 va = Some (k, e)" for va k e
    using d(5) [OF that] k unfolding vm_kept_def by (metis gr0I less_numeral_extra(3))
  have "pmm_avail (pmm s) \<subseteq> pmm_avail (pmm s0)" using k by (simp add: vm_kept_def)
  then have own': "k = 1 \<and> is_frame (pte_frame e) \<and> lv (pte_frame e) = 0 \<and> pte_frame e \<notin> pmm_avail (pmm s)"
    if "heap_addr va" "heap_leaf s0 va = Some (k, e)" for va k e
    using own [OF that] by blast
  have r4: "lv (pte_frame (cr3 s)) = 4" using k d(2) cr by (simp add: vm_kept_def)
  have q: "pml4_ok (mem s) (pte_frame (cr3 s)) va" if "heap_addr va" for va
    using p4 heap_pt4 [OF that] cr by (simp add: pml4_ok_def)
  show pg': "heap_paged lv s"
    unfolding heap_paged_def hl using vm_kept_wf [OF k] nf r4 q own' d(6) by blast
  assume x: "heap_addr x"
  show "heap_view s x = heap_view s0 x"
  proof (cases "heap_leaf s0 x")
    case None
    then show ?thesis using heap_mmu [OF pg' x] heap_mmu [OF pg x] by (simp add: heap_view_def hl)
  next
    case (Some w)
    obtain k' e where w: "heap_leaf s0 x = Some (k', e)" using Some by (cases w) auto
    have al: "pte_frame e AND 4095 = 0" by simp
    have "mem s (pte_frame e OR (x AND 4095)) = mem s0 (pte_frame e OR (x AND 4095))"
      using k own [OF x w] unfolding vm_kept_def by (simp add: frame_plus(2) [OF al, simplified])
    then show ?thesis using heap_mmu [OF pg' x] heap_mmu [OF pg x] w by (simp add: heap_view_def hl)
  qed
qed

abbreviation last_page :: u64 where "last_page \<equiv> VM_HEAP_BASE + VM_HEAP_SIZE - VM_PAGE_SIZE"

lemma last_page: "heap_addr last_page" "last_page AND 4095 = 0" "in_page last_page 8" "hpage last_page = last_page" "last_page \<in> heap_pages"
  by (simp_all add: heap_pages_def heap_addr_def hpage_def in_page_def VM_HEAP_BASE_def VM_HEAP_SIZE_def VM_PAGE_SIZE_def)

lemma heap_con [simp]:
  "heap_paged lv (kprintf f as s) = heap_paged lv s" "heap_leaf (kprintf f as s) x = heap_leaf s x" "heap_view (kprintf f as s) = heap_view s"
  "vm_rest (kprintf f as s) = vm_rest s" "vm_faults (kprintf f as s) = vm_faults s" for s :: "'a vm_sys_scheme"
proof -
  obtain c where c: "kprintf f as s = s\<lparr>con := c\<rparr>" using kprintf_con by blast
  show "heap_paged lv (kprintf f as s) = heap_paged lv s" "heap_leaf (kprintf f as s) x = heap_leaf s x" "heap_view (kprintf f as s) = heap_view s"
    "vm_faults (kprintf f as s) = vm_faults s" unfolding c by (simp_all add: heap_paged_def heap_leaf_def vm_wf_def heap_view_def fun_eq_iff)
  show "vm_rest (kprintf f as s) = vm_rest s" by (rule vm_rest_sys) simp
qed

lemma vm_test_demand_ok:
  assumes pg: "heap_paged lv s" and un: "last_page \<notin> heap_mapped s" and av: "4 \<le> card (pmm_avail (pmm s))"
  obtains s' lv' where "vm_test_demand code r (True, s) = Some (True, s')" "heap_paged lv' s'" "heap_mapped s' = insert last_page (heap_mapped s)"
    "\<forall>x. heap_addr x \<longrightarrow> heap_view s' x = wr64 (heap_view s) last_page 0x5A5A5A5A5A5A5A5A x" "vm_faults s' = vm_faults s + 1" "cr3 s' = cr3 s"
    "vm_rest s' = vm_rest s" "card (pmm_avail (pmm s)) \<le> card (pmm_avail (pmm s')) + 4"
    "mmu_leaf (mem s') 4 (pte_frame (cr3 s)) last_page \<noteq> None"
proof -
  let ?v = "0x5A5A5A5A5A5A5A5A :: u64"
  note lp = last_page
  have none: "heap_leaf s last_page = None" using un heap_mapped_iff [OF lp(1), of s] unfolding lp(4) by blast
  obtain e s1 lv1 where t: "vtouch code r 2 last_page s = Some (pte_frame e OR (last_page AND 4095), s1)" "heap_paged lv1 s1"
    "heap_leaf s1 last_page = Some (1, e)" "\<forall>x. heap_addr x \<longrightarrow> heap_view s1 x = heap_view s x" "touched last_page s s1"
    by (rule vtouch_ok [OF pg lp(1), of 2 code r]) (use av in auto)
  define s2 where "s2 = s1\<lparr>mem := wr64 (mem s1) (pte_frame e) ?v\<rparr>"
  have st: "vstore64 code r last_page ?v s = Some s2" using t(1) lp(2) by (simp add: vstore64_def s2_def)
  let ?g = "\<lambda>d. ucast (drop_bit (8 * unat d) ?v) :: u8"
  have p: "s2 = s1\<lparr>mem := poke ?g 8 (pte_frame e OR (last_page AND 4095)) (mem s1)\<rparr>" by (simp add: s2_def wr_poke lp(2))
  note vw = view_write [OF t(2) lp(1) t(3) lp(3), where g = ?g, folded p]
  have leaf: "heap_leaf s2 x = heap_leaf s1 x" for x
    using paged_write(2) [OF t(2) lp(1) t(3), of "poke ?g 8 (pte_frame e OR (last_page AND 4095)) (mem s1)"] poke_outside [OF lp(3)] unfolding p by blast
  have l2: "mmu_leaf (mem s2) 4 (pte_frame (cr3 s2)) last_page = Some (1, e)" using leaf t(3) by (simp add: heap_leaf_def)
  have ld: "vload64 code r last_page s2 = Some (?v, s2)" using access_mapped(2) [OF l2 lp(2), of code r] by (simp add: s2_def)
  have f: "vm_faults s2 = vm_faults s + 1" "only_vm s s1" "card (pmm_avail (pmm s)) \<le> card (pmm_avail (pmm s2)) + 4"
    using t(5) none by (simp_all add: touched_def s2_def)
  define s3 where "s3 = kprintf (''M8/VM: demand fault c0=%llu c1=%llu c2=%llu PASS'' @ nl) [VInt (vm_faults s), VInt (vm_faults s2), VInt (vm_faults s2)] s2"
  have "vm_test_demand code r (True, s) = Some (True, s3)"
    using st ld f(1) by (simp add: vm_test_demand_def vm_fault_count_def s3_def Let_def del: append.simps)
  moreover have "heap_mapped s3 = insert last_page (heap_mapped s)"
    using touched_mapped [OF t(5) lp(1)] lp(4) leaf by (simp add: heap_mapped_def s3_def del: append.simps)
  moreover have "cr3 s2 = cr3 s" using only_vm_fields(2) [OF f(2)] by (simp add: s2_def)
  moreover have "vm_rest s3 = vm_rest s" using vm_rest_only [OF f(2)] vm_rest_sys [of s2 s1] by (simp add: s3_def s2_def del: append.simps)
  moreover have "\<forall>x. heap_addr x \<longrightarrow> heap_view s3 x = wr64 (heap_view s) last_page ?v x"
    using vw(2) t(4) by (simp add: s3_def wr_poke poke_def del: append.simps)
  ultimately show thesis using that [of s3 lv1] vw(1) f(1,3) l2 by (simp add: s3_def del: append.simps)
qed

section \<open>Properties\<close>

lemma vm_self_test_runs:
  assumes pg: "heap_paged lv s" and ks: "vm_kernel_space_ptr s = cr3 s" "pte_frame (cr3 s) = cr3 s"
    and none: "mmu_leaf (mem s) 4 (cr3 s) VM_SCRATCH_BASE = None" and un: "last_page \<notin> heap_mapped s"
    and av: "4 * card (heap_pages - heap_mapped s) + 20 \<le> card (pmm_avail (pmm s))"
  obtains s' lv' where "vm_self_test code r s = Some (0, s')" "heap_paged lv' s'" "4 * card (heap_pages - heap_mapped s') \<le> card (pmm_avail (pmm s'))"
    "heap_mapped s' = insert last_page (heap_mapped s)" "\<forall>x. heap_addr x \<longrightarrow> heap_view s' x = wr64 (heap_view s) last_page 0x5A5A5A5A5A5A5A5A x"
    "vm_faults s' = vm_faults s + 1" "cr3 s' = cr3 s" "vm_rest s' = vm_rest s"
proof -
  let ?k = "cr3 s" and ?h = "\<lambda>s. card (heap_pages - heap_mapped s)"
  note d = heap_pagedD [OF pg]
  have l0: "lv ?k = 4" using d(2) ks(2) by simp
  have kz: "?k \<noteq> 0" using wf_frame(2) d(1) l0 unfolding vm_wf_def by (metis zero_less_numeral)
  have one: "last_page \<in> heap_pages - heap_mapped s" using un last_page(5) by blast
  have h: "?h s = Suc (card (heap_pages - insert last_page (heap_mapped s)))"
    unfolding Diff_insert [of heap_pages last_page "heap_mapped s"] by (rule card_Suc_Diff1 [OF finite_u64 one, symmetric])
  have p4: "pml4_ok (mem s) ?k VM_SCRATCH_BASE"
    using d(4) [OF last_page(1)] heap_pt4 [OF last_page(1)] test_pages(3) ks(2) by (simp add: pml4_ok_def)
  have "10 \<le> card (pmm_avail (pmm s))" using av h by simp
  from vm_test_scratch [OF d(1) l0 ks(2) none p4 this, of code r] obtain fr s1 s2 t1 s3 s4 lv1 where
    a: "alloc_frame s = (fr, s1)" "fr \<noteq> 0" "vm_map ?k VM_SCRATCH_BASE fr (VM_PTE_PRESENT OR VM_PTE_WRITE) s1 = (0, s2)" "vm_test_readback code r s2 = Some t1"
      "vm_test_double ?k fr (vm_test_huge ?k fr (vm_test_unmap ?k fr t1)) = (True, s3)" "free_frame fr (snd (vm_unmap ?k VM_SCRATCH_BASE s3)) = s4"
      "vm_kept (pmm_avail (pmm s)) lv s lv1 s4" "sys_rest s4 = sys_rest s" "cr3 s4 = ?k" "\<forall>va. mmu_leaf (mem s4) 4 ?k va = mmu_leaf (mem s) 4 ?k va"
      "pml4_ok (mem s4) ?k VM_SCRATCH_BASE" "card (pmm_avail (pmm s)) \<le> card (pmm_avail (pmm s4)) + 10" by metis
  have nf: "\<not> vm_in_fault s4" using vm_rest_fields [OF vm_rest_sys [OF a(8)]] d(3) by simp
  note H = vm_kept_heap [OF pg a(7,9) nf, unfolded ks(2), OF a(10,11) test_pages(3)]
  have m4: "heap_mapped s4 = heap_mapped s" by (simp add: heap_mapped_def H(2))
  have un4: "last_page \<notin> heap_mapped s4" "4 \<le> card (pmm_avail (pmm s4))" using un m4 a(12) av h by simp_all
  from vm_test_demand_ok [OF H(1) un4, of code r] obtain s5 lv2 where
    b: "vm_test_demand code r (True, s4) = Some (True, s5)" "heap_paged lv2 s5" "heap_mapped s5 = insert last_page (heap_mapped s4)"
      "\<forall>x. heap_addr x \<longrightarrow> heap_view s5 x = wr64 (heap_view s4) last_page 0x5A5A5A5A5A5A5A5A x" "vm_faults s5 = vm_faults s4 + 1" "cr3 s5 = cr3 s4"
      "vm_rest s5 = vm_rest s4" "card (pmm_avail (pmm s4)) \<le> card (pmm_avail (pmm s5)) + 4" "mmu_leaf (mem s5) 4 (pte_frame (cr3 s4)) last_page \<noteq> None" by metis
  note d5 = heap_pagedD [OF b(2)]
  have r5: "vm_rest s5 = vm_rest s" "cr3 s5 = ?k" using b(6,7) a(9) vm_rest_sys [OF a(8)] by simp_all
  have k5: "vm_kernel_space_ptr s5 = ?k" using vm_rest_fields [OF r5(1)] ks(1) by simp
  have l5: "lv2 (vm_kernel_space_ptr s5) = 4" "cr3 s5 = vm_kernel_space_ptr s5" "10 \<le> card (pmm_avail (pmm s5))"
    using d5(2) r5(2) k5 ks(2) a(12) b(8) av h by simp_all
  from vm_test_spaces [OF d5(1) l5, of code r, unfolded k5] obtain sa sb t3 fa fb t4 t5 s6 s7 lv3 where
    c: "vm_test_create (True, s5) = (sa, sb, True, t3)" "vm_test_frames (True, t3) = (fa, fb, True, t4)" "vm_test_maps sa sb fa fb (True, t4) = (True, t5)"
      "vm_test_switch code r sa sb (True, t5) = Some (True, s6)" "vm_test_cleanup sa sb fa fb s6 = s7" "vm_kept (pmm_avail (pmm s5)) lv2 s5 lv3 s7"
      "sys_rest s7 = sys_rest s5" "cr3 s7 = cr3 s5" "\<forall>va. mmu_leaf (mem s7) 4 ?k va = mmu_leaf (mem s5) 4 ?k va"
      "card (pmm_avail (pmm s5)) \<le> card (pmm_avail (pmm s7)) + 10" by metis
  have nf7: "\<not> vm_in_fault s7" using vm_rest_fields [OF vm_rest_sys [OF c(7)]] d5(3) by simp
  have p7: "pml4_ok (mem s7) ?k last_page" using b(9) c(9) a(9) ks(2) leaf_pml4_ok by (metis not_None_eq)
  note K = vm_kept_heap [OF b(2) c(6,8) nf7, unfolded r5(2) ks(2), OF c(9) p7 heap_pt4 [OF last_page(1)]]
  have m7: "heap_mapped s7 = insert last_page (heap_mapped s)" using b(3) m4 by (simp add: heap_mapped_def K(2))
  have run: "vm_self_test code r s = Some (0, s7)"
    using a(1-6) b(1) c(1-5) kz ks(1) by (simp add: vm_self_test_def vm_kernel_space_def Let_def)
  have view: "\<forall>x. heap_addr x \<longrightarrow> heap_view s7 x = wr64 (heap_view s) last_page 0x5A5A5A5A5A5A5A5A x"
    using K(3) b(4) H(3) by (simp add: wr_poke poke_def)
  have cnt: "4 * ?h s7 \<le> card (pmm_avail (pmm s7))" using av h m7 a(12) b(8) c(10) by simp
  have fl: "vm_faults s7 = vm_faults s + 1" using sys_rest_faults [OF c(7)] b(5) sys_rest_faults [OF a(8)] by simp
  have "vm_rest s7 = vm_rest s" using vm_rest_sys [OF c(7)] r5(1) by simp
  then show thesis using that [OF run K(1) cnt m7 view fl] c(8) r5(2) by simp
qed

text \<open>
  (C14) The self test of paging passes.  From well-formed tables whose root is the kernel's space, with the scratch page and the last heap
  page unmapped and frames to spare, \<^verbatim>\<open>vm_self_test\<close> returns 0: a mapped page reads back what was stored and unmapping returns its
  frame, identity-mapped and doubly mapped pages are refused, the first access to a heap page takes exactly one fault and the
  second none, and two address spaces keep different values at the same address.  It runs on the old root again at the end, with
  one more fault counted, and the heap is the old one with its last page mapped and the test value at its start.
\<close>

theorem vm_self_test_passes:
  assumes "heap_paged lv s" and "vm_kernel_space_ptr s = cr3 s" and "pte_frame (cr3 s) = cr3 s"
    and "mmu_leaf (mem s) 4 (cr3 s) VM_SCRATCH_BASE = None" and "last_page \<notin> heap_mapped s"
    and "4 * card (heap_pages - heap_mapped s) + 20 \<le> card (pmm_avail (pmm s))"
  shows "\<exists>s'. vm_self_test code r s = Some (0, s') \<and> heap_backed s' \<and> heap_mapped s' = insert last_page (heap_mapped s) \<and>
    (\<forall>x. heap_addr x \<longrightarrow> heap_view s' x = wr64 (heap_view s) last_page 0x5A5A5A5A5A5A5A5A x) \<and>
    vm_fault_count s' = vm_fault_count s + 1 \<and> cr3 s' = cr3 s \<and> vm_rest s' = vm_rest s"
proof -
  obtain s' lv' where s': "vm_self_test code r s = Some (0, s')" "heap_paged lv' s'" "4 * card (heap_pages - heap_mapped s') \<le> card (pmm_avail (pmm s'))"
    "heap_mapped s' = insert last_page (heap_mapped s)" "\<forall>x. heap_addr x \<longrightarrow> heap_view s' x = wr64 (heap_view s) last_page 0x5A5A5A5A5A5A5A5A x"
    "vm_faults s' = vm_faults s + 1" "cr3 s' = cr3 s" "vm_rest s' = vm_rest s" by (rule vm_self_test_runs [OF assms])
  then show ?thesis by (auto simp: heap_backed_def vm_fault_count_def)
qed

lemma demo_scratch: "mmu_leaf (mem demo_idt) 4 (cr3 demo_idt) VM_SCRATCH_BASE = None"
proof -
  have "rd64 boot_mem (slot 0x1000 256) = 0" using boot_mem_slot [of "0x1000" 256] by simp
  then show ?thesis
    using mmu_leaf.simps(2) [of boot_mem 3 "0x1000" VM_SCRATCH_BASE] test_pages(3) by (simp add: pte_present_def demo_idt_def)
qed

theorem vm_self_test_passes_witness:
  "\<exists>s'. vm_self_test (\<lambda>_ _ s. s) (demo_regs 0 0) demo_idt = Some (0, s') \<and> vm_fault_count s' = 1"
proof -
  have f: "vm_kernel_space_ptr demo_idt = cr3 demo_idt" "pte_frame (cr3 demo_idt) = cr3 demo_idt" "pmm demo_idt = demo_pmm" "vm_fault_count demo_idt = 0"
    by (simp_all add: demo_idt_def pte_frame_def vm_fault_count_def)
  have "4 * card (heap_pages - heap_mapped demo_idt) + 20 \<le> card (pmm_avail (pmm demo_idt))"
    using demo_pmm_card card_heap_pages by (simp add: f(3) demo_idt_unmapped)
  then show ?thesis
    using vm_self_test_passes [OF demo_idt_paged(1) f(1,2) demo_scratch, of "\<lambda>_ _ s. s" "demo_regs 0 0"] f(4) by (simp add: demo_idt_unmapped) blast
qed

end
