(* ===== verification/Keyboard.thy ===== *)
theory Keyboard
  imports Idt
begin

text \<open>
  The keyboard driver (\<^verbatim>\<open>src/src/keyboard.c\<close>, \<^verbatim>\<open>src/src/keyboard.h\<close>): the interrupt handler, which decodes scan codes and
  puts characters into a ring buffer, and \<^verbatim>\<open>kb_get\<close>, which the main loop calls to take them out.  The statics of the
  file are the record \<^verbatim>\<open>kb_st\<close>; a C \<^verbatim>\<open>char\<close> is a byte.  The byte read from port \<open>0x60\<close> comes from the device parameter.
\<close>

definition KB_BUF_SIZE :: u32 where "KB_BUF_SIZE = 64"

record kb_st =
  kb_buf :: "u8 list"
  kb_head :: u32
  kb_tail :: u32
  shift_left :: bool
  shift_right :: bool
  e0_prefix :: bool

text \<open>The two tables, as the entries the source lists; every other entry is 0.\<close>

definition kb_normal_entries :: "(nat \<times> char) list" where
  "kb_normal_entries =
     [(0x01, CHR 0x1B),
      (0x02, CHR ''1''), (0x03, CHR ''2''), (0x04, CHR ''3''), (0x05, CHR ''4''), (0x06, CHR ''5''),
      (0x07, CHR ''6''), (0x08, CHR ''7''), (0x09, CHR ''8''), (0x0A, CHR ''9''), (0x0B, CHR ''0''),
      (0x0C, CHR ''-''), (0x0D, CHR ''=''), (0x0E, CHR 0x08), (0x0F, CHR 0x09),
      (0x10, CHR ''q''), (0x11, CHR ''w''), (0x12, CHR ''e''), (0x13, CHR ''r''), (0x14, CHR ''t''),
      (0x15, CHR ''y''), (0x16, CHR ''u''), (0x17, CHR ''i''), (0x18, CHR ''o''), (0x19, CHR ''p''),
      (0x1A, CHR ''[''), (0x1B, CHR '']''), (0x1C, CHR 0x0A),
      (0x1E, CHR ''a''), (0x1F, CHR ''s''), (0x20, CHR ''d''), (0x21, CHR ''f''), (0x22, CHR ''g''),
      (0x23, CHR ''h''), (0x24, CHR ''j''), (0x25, CHR ''k''), (0x26, CHR ''l''), (0x27, CHR '';''),
      (0x28, CHR 0x27), (0x29, CHR 0x60), (0x2B, CHR 0x5C),
      (0x2C, CHR ''z''), (0x2D, CHR ''x''), (0x2E, CHR ''c''), (0x2F, CHR ''v''),
      (0x30, CHR ''b''), (0x31, CHR ''n''), (0x32, CHR ''m''), (0x33, CHR '',''),
      (0x34, CHR ''.''), (0x35, CHR ''/''), (0x37, CHR ''*''), (0x39, CHR '' ''),
      (0x47, CHR ''7''), (0x48, CHR ''8''), (0x49, CHR ''9''), (0x4A, CHR ''-''),
      (0x4B, CHR ''4''), (0x4C, CHR ''5''), (0x4D, CHR ''6''), (0x4E, CHR ''+''),
      (0x4F, CHR ''1''), (0x50, CHR ''2''), (0x51, CHR ''3''), (0x52, CHR ''0''), (0x53, CHR ''.'')]"

definition kb_shift_entries :: "(nat \<times> char) list" where
  "kb_shift_entries =
     [(0x01, CHR 0x1B),
      (0x02, CHR ''!''), (0x03, CHR ''@''), (0x04, CHR ''#''), (0x05, CHR ''$''), (0x06, CHR ''%''),
      (0x07, CHR ''^''), (0x08, CHR ''&''), (0x09, CHR ''*''), (0x0A, CHR ''(''), (0x0B, CHR '')''),
      (0x0C, CHR ''_''), (0x0D, CHR ''+''), (0x0E, CHR 0x08), (0x0F, CHR 0x09),
      (0x10, CHR ''Q''), (0x11, CHR ''W''), (0x12, CHR ''E''), (0x13, CHR ''R''), (0x14, CHR ''T''),
      (0x15, CHR ''Y''), (0x16, CHR ''U''), (0x17, CHR ''I''), (0x18, CHR ''O''), (0x19, CHR ''P''),
      (0x1A, CHR ''{''), (0x1B, CHR ''}''), (0x1C, CHR 0x0A),
      (0x1E, CHR ''A''), (0x1F, CHR ''S''), (0x20, CHR ''D''), (0x21, CHR ''F''), (0x22, CHR ''G''),
      (0x23, CHR ''H''), (0x24, CHR ''J''), (0x25, CHR ''K''), (0x26, CHR ''L''), (0x27, CHR '':''),
      (0x28, CHR 0x22), (0x29, CHR ''~''), (0x2B, CHR ''|''),
      (0x2C, CHR ''Z''), (0x2D, CHR ''X''), (0x2E, CHR ''C''), (0x2F, CHR ''V''),
      (0x30, CHR ''B''), (0x31, CHR ''N''), (0x32, CHR ''M''), (0x33, CHR ''<''),
      (0x34, CHR ''>''), (0x35, CHR ''?''), (0x37, CHR ''*''), (0x39, CHR '' '')]"

definition kb_table :: "(nat \<times> char) list \<Rightarrow> u8 list" where
  "kb_table es = fold (\<lambda>(i, c) t. t[i := of_char c]) es (replicate 128 0)"

definition kb_normal :: "u8 list" where "kb_normal = kb_table kb_normal_entries"
definition kb_shift :: "u8 list" where "kb_shift = kb_table kb_shift_entries"

text \<open>The end of the handler: put a character, or drop it when the buffer is full.\<close>

definition kb_put :: "u8 \<Rightarrow> kb_st \<Rightarrow> kb_st" where
  "kb_put c k =
     (let next = (kb_head k + 1) AND (KB_BUF_SIZE - 1) in
      if next = kb_tail k then k
      else k\<lparr>kb_buf := (kb_buf k)[unat (kb_head k) := c], kb_head := next\<rparr>)"

definition kb_scan :: "u8 \<Rightarrow> kb_st \<Rightarrow> kb_st" where
  "kb_scan sc k =
     (if e0_prefix k then k\<lparr>e0_prefix := False\<rparr>
      else if sc = 0xE0 then k\<lparr>e0_prefix := True\<rparr>
      else
        (let release = (sc AND 0x80 \<noteq> 0); code = sc AND 0x7F in
         if code = 0x2A then k\<lparr>shift_left := \<not> release\<rparr>
         else if code = 0x36 then k\<lparr>shift_right := \<not> release\<rparr>
         else if release then k
         else
           (let c = (if shift_left k \<or> shift_right k then kb_shift ! unat code else kb_normal ! unat code) in
            if c = 0 then k else kb_put c k)))"

record kernel = idt_sys +
  kb :: kb_st

definition keyboard_handler :: "device \<Rightarrow> regs_t \<Rightarrow> 'a kernel_scheme \<Rightarrow> 'a kernel_scheme" where
  "keyboard_handler dev r s =
     (let (sc, c1) = inb dev 0x60 (con s) in s\<lparr>con := c1, kb := kb_scan sc (kb s)\<rparr>)"

definition keyboard_init :: "isr_reg_t \<Rightarrow> 'a irq_sys_scheme \<Rightarrow> 'a irq_sys_scheme" where
  "keyboard_init handler_addr s = irq_register 1 handler_addr s"

definition kb_get :: "kb_st \<Rightarrow> int \<times> kb_st" where
  "kb_get k =
     (if kb_head k = kb_tail k then (-1, k)
      else
        (let c = kb_buf k ! unat (kb_tail k)
         in (uint c, k\<lparr>kb_tail := (kb_tail k + 1) AND (KB_BUF_SIZE - 1)\<rparr>)))"

section \<open>The ring buffer is a bounded queue\<close>

text \<open>
  The contract of a bounded queue, with what the main loop does with it: taking until the queue is empty delivers
  the elements in the order in which they came.
\<close>

fun drain :: "('q \<Rightarrow> int \<times> 'q) \<Rightarrow> nat \<Rightarrow> 'q \<Rightarrow> int list \<times> 'q" where
  "drain get 0 q = ([], q)"
| "drain get (Suc n) q =
     (case get q of (c, q1) \<Rightarrow> if c < 0 then ([], q1) else (case drain get n q1 of (cs, q2) \<Rightarrow> (c # cs, q2)))"

locale bounded_queue =
  fixes inv :: "'q \<Rightarrow> bool"
    and items :: "'q \<Rightarrow> u8 list"
    and put :: "u8 \<Rightarrow> 'q \<Rightarrow> 'q"
    and get :: "'q \<Rightarrow> int \<times> 'q"
    and cap :: nat
  assumes put_inv: "inv q \<Longrightarrow> inv (put c q)"
    and put_items: "inv q \<Longrightarrow> items (put c q) = (if length (items q) < cap then items q @ [c] else items q)"
    and get_empty: "inv q \<Longrightarrow> items q = [] \<Longrightarrow> get q = (-1, q)"
    and get_items: "inv q \<Longrightarrow> items q = c # cs \<Longrightarrow> fst (get q) = uint c \<and> items (snd (get q)) = cs"
    and get_inv: "inv q \<Longrightarrow> inv (snd (get q))"
    and capacity: "inv q \<Longrightarrow> length (items q) \<le> cap"
begin

lemma put_take: "inv q \<Longrightarrow> items (put c q) = take cap (items q @ [c])"
  using put_items capacity by (auto simp: le_antisym)

lemma drain_items:
  "inv q \<Longrightarrow> length (items q) < n \<Longrightarrow>
     fst (drain get n q) = map uint (items q) \<and> items (snd (drain get n q)) = [] \<and> inv (snd (drain get n q))"
proof (induction n arbitrary: q)
  case (Suc n)
  obtain c q1 where g: "get q = (c, q1)" by force
  show ?case
  proof (cases "items q")
    case Nil
    then show ?thesis using get_empty [OF Suc.prems(1)] Suc.prems(1) by simp
  next
    case (Cons x xs)
    have c: "c = uint x" "items q1 = xs" "inv q1"
      using get_items [OF Suc.prems(1) Cons] get_inv [OF Suc.prems(1)] g by auto
    then have "\<not> c < 0" by simp
    with Suc.IH [OF c(3)] Suc.prems(2) c show ?thesis by (auto simp: g Cons split: prod.split)
  qed
qed simp

end

definition ring_ix :: "nat \<Rightarrow> nat \<Rightarrow> nat" where
  "ring_ix t i = (if t + i < 64 then t + i else t + i - 64)"

definition ring_len :: "nat \<Rightarrow> nat \<Rightarrow> nat" where
  "ring_len t h = (if t \<le> h then h - t else h + 64 - t)"

definition kb_ok :: "kb_st \<Rightarrow> bool" where
  "kb_ok k \<longleftrightarrow> length (kb_buf k) = 64 \<and> unat (kb_head k) < 64 \<and> unat (kb_tail k) < 64"

definition kb_items :: "kb_st \<Rightarrow> u8 list" where
  "kb_items k = map (\<lambda>i. kb_buf k ! ring_ix (unat (kb_tail k)) i) [0..<ring_len (unat (kb_tail k)) (unat (kb_head k))]"

lemma kb_next: "unat (h :: u32) < 64 \<Longrightarrow> unat ((h + 1) AND (KB_BUF_SIZE - 1)) = ring_ix (unat h) 1"
proof -
  assume h: "unat h < 64"
  have m: "KB_BUF_SIZE - 1 = mask 6" by (simp add: KB_BUF_SIZE_def mask_numeral)
  have "unat (h + 1) = unat h + 1" using h by (subst unat_add_lem') simp_all
  then have "unat ((h + 1) AND (KB_BUF_SIZE - 1)) = (unat h + 1) mod 64"
    using and_mask_nat [of "h + 1" 6] unfolding m by simp
  then show ?thesis using h by (cases "unat h = 63") (auto simp: ring_ix_def)
qed

lemma ring_facts:
  assumes "t < 64" "h < 64"
  shows "ring_len t h \<le> 63" "ring_ix h 1 = t \<longleftrightarrow> ring_len t h = 63" "ring_ix h 1 < 64"
    "ring_len t h < 63 \<Longrightarrow> ring_len t (ring_ix h 1) = Suc (ring_len t h)"
    "ring_ix t (ring_len t h) = h" "i < ring_len t h \<Longrightarrow> ring_ix t i \<noteq> h" "ring_ix t i < 64 \<or> 128 \<le> t + i"
    "ring_len t h = 0 \<longleftrightarrow> t = h"
    "0 < ring_len t h \<Longrightarrow> Suc (ring_len (ring_ix t 1) h) = ring_len t h"
    "i < 63 \<Longrightarrow> ring_ix (ring_ix t 1) i = ring_ix t (Suc i)" "ring_ix t 0 = t"
  using assms by (auto simp: ring_len_def ring_ix_def split: if_splits)

lemma kb_put_ok: "kb_ok k \<Longrightarrow> kb_ok (kb_put c k)"
  using kb_next [of "kb_head k"] ring_facts(3) by (auto simp: kb_ok_def kb_put_def Let_def)

lemma kb_put_items:
  assumes ok: "kb_ok k"
  shows "kb_items (kb_put c k) = (if length (kb_items k) < 63 then kb_items k @ [c] else kb_items k)"
proof -
  let ?h = "unat (kb_head k)" and ?t = "unat (kb_tail k)"
  have b: "length (kb_buf k) = 64" "?h < 64" "?t < 64" using ok by (simp_all add: kb_ok_def)
  note f = ring_facts [OF b(3,2)] and n = kb_next [OF b(2)]
  have full: "(kb_head k + 1) AND (KB_BUF_SIZE - 1) = kb_tail k \<longleftrightarrow> ring_len ?t ?h = 63"
    using n f(2) by (metis word_unat_eq_iff)
  show ?thesis
  proof (cases "ring_len ?t ?h = 63")
    case True
    then show ?thesis using full by (simp add: kb_put_def Let_def kb_items_def)
  next
    case False
    then have lt: "ring_len ?t ?h < 63" using f(1) by simp
    have old: "(kb_buf k)[?h := c] ! ring_ix ?t i = kb_buf k ! ring_ix ?t i" if "i < ring_len ?t ?h" for i
      using f(6) [OF that] by (metis nth_list_update_neq)
    have "kb_items (kb_put c k) = map (\<lambda>i. (kb_buf k)[?h := c] ! ring_ix ?t i) [0..<Suc (ring_len ?t ?h)]"
      using False full n f(4) [OF lt] by (simp add: kb_put_def Let_def kb_items_def del: upt_Suc)
    also have "\<dots> = map (\<lambda>i. (kb_buf k)[?h := c] ! ring_ix ?t i) [0..<ring_len ?t ?h] @ [c]" using b f(5) by simp
    also have "\<dots> = kb_items k @ [c]" unfolding kb_items_def using old by simp
    finally show ?thesis using lt by (simp add: kb_items_def)
  qed
qed

lemma kb_items_empty: "kb_ok k \<Longrightarrow> kb_items k = [] \<longleftrightarrow> kb_head k = kb_tail k"
  using ring_facts(8) [of "unat (kb_tail k)" "unat (kb_head k)"] by (auto simp: kb_ok_def kb_items_def word_unat_eq_iff)

text \<open>Taking the oldest element.\<close>

definition kb_pop :: "kb_st \<Rightarrow> kb_st" where
  "kb_pop k = k\<lparr>kb_tail := (kb_tail k + 1) AND (KB_BUF_SIZE - 1)\<rparr>"

lemma kb_pop_items:
  assumes ok: "kb_ok k" and ne: "kb_items k \<noteq> []"
  shows "kb_items k = kb_buf k ! unat (kb_tail k) # kb_items (kb_pop k)" "kb_ok (kb_pop k)"
proof -
  let ?h = "unat (kb_head k)" and ?t = "unat (kb_tail k)"
  have b: "?h < 64" "?t < 64" using ok by (simp_all add: kb_ok_def)
  note f = ring_facts [OF b(2,1)] and n = kb_next [OF b(2)]
  show "kb_ok (kb_pop k)" using ok n ring_facts(3) [OF b(2,2)] by (simp add: kb_ok_def kb_pop_def)
  have pos: "0 < ring_len ?t ?h" using ne by (simp add: kb_items_def)
  have u: "[0..<ring_len ?t ?h] = 0 # map Suc [0..<ring_len (ring_ix ?t 1) ?h]"
    using f(9) [OF pos] by (metis upt_conv_Cons map_Suc_upt zero_less_Suc)
  have "ring_ix (ring_ix ?t 1) i = ring_ix ?t (Suc i)" if "i < ring_len (ring_ix ?t 1) ?h" for i
    using that f(1,9,10) pos by simp
  then show "kb_items k = kb_buf k ! ?t # kb_items (kb_pop k)"
    unfolding kb_items_def kb_pop_def u using n f(11) by simp
qed

lemma kb_get_pop: "kb_get k = (if kb_head k = kb_tail k then (-1, k) else (uint (kb_buf k ! unat (kb_tail k)), kb_pop k))"
  by (simp add: kb_get_def kb_pop_def Let_def)

interpretation kbq: bounded_queue kb_ok kb_items kb_put kb_get 63
proof unfold_locales
  show "kb_ok (kb_put c q)" if "kb_ok q" for q c using kb_put_ok [OF that] .
  show "kb_items (kb_put c q) = (if length (kb_items q) < 63 then kb_items q @ [c] else kb_items q)" if "kb_ok q" for q c
    using kb_put_items [OF that] .
  show "kb_get q = (-1, q)" if "kb_ok q" "kb_items q = []" for q
    using that kb_items_empty by (simp add: kb_get_pop)
  show "fst (kb_get q) = uint c \<and> kb_items (snd (kb_get q)) = cs" if "kb_ok q" "kb_items q = c # cs" for q c cs
    using that kb_pop_items [of q] kb_items_empty [of q] by (simp add: kb_get_pop)
  show "kb_ok (snd (kb_get q))" if "kb_ok q" for q
    using that kb_pop_items(2) [of q] kb_items_empty [of q] by (simp add: kb_get_pop)
  show "length (kb_items q) \<le> 63" if "kb_ok q" for q
    using that ring_facts(1) by (simp add: kb_items_def kb_ok_def)
qed

section \<open>Decoding\<close>

text \<open>
  A stream of scan codes as key events: \<open>0xE0\<close> makes one event with the byte after it, an extended key; every
  other byte is the press or the release of a key.
\<close>

datatype key = Ext u8 | Press u8 | Release u8

definition key_of :: "u8 \<Rightarrow> key" where
  "key_of sc = (if sc AND 0x80 \<noteq> 0 then Release (sc AND 0x7F) else Press (sc AND 0x7F))"

fun keys :: "u8 list \<Rightarrow> key list" where
  "keys [] = []"
| "keys [x] = (if x = 0xE0 then [] else [key_of x])"
| "keys (x # y # ys) = (if x = 0xE0 then Ext y # keys ys else key_of x # keys (y # ys))"

text \<open>A key is held after some events if its last event was a press.\<close>

definition held_from :: "bool \<Rightarrow> u8 \<Rightarrow> key list \<Rightarrow> bool" where
  "held_from d code ks = fold (\<lambda>k h. if k = Press code then True else if k = Release code then False else h) ks d"

definition shifted :: "key list \<Rightarrow> bool" where
  "shifted ks \<longleftrightarrow> held_from False 0x2A ks \<or> held_from False 0x36 ks"

fun key_text :: "bool \<Rightarrow> key \<Rightarrow> u8 list" where
  "key_text sh (Press code) = (let c = (if sh then kb_shift else kb_normal) ! unat code in if c = 0 then [] else [c])"
| "key_text sh _ = []"

text \<open>What a stream types: each press gives its character, from the shifted table if a shift key is held at that moment.\<close>

definition typed :: "key list \<Rightarrow> u8 list" where
  "typed ks = concat (map (\<lambda>i. key_text (shifted (take i ks)) (ks ! i)) [0..<length ks])"

fun typed_from :: "bool \<Rightarrow> bool \<Rightarrow> key list \<Rightarrow> u8 list" where
  "typed_from l r [] = []"
| "typed_from l r (k # ks) = key_text (l \<or> r) k @ typed_from (held_from l 0x2A [k]) (held_from r 0x36 [k]) ks"

lemma held_from_simps: "held_from d c [] = d" "held_from d c (k # take i ks) = held_from (held_from d c [k]) c (take i ks)"
  by (simp_all add: held_from_def)

lemma typed_from_eq:
  "typed_from l r ks =
     concat (map (\<lambda>i. key_text (held_from l 0x2A (take i ks) \<or> held_from r 0x36 (take i ks)) (ks ! i)) [0..<length ks])"
proof (induction ks arbitrary: l r)
  case (Cons k ks)
  have "[0..<length (k # ks)] = 0 # map Suc [0..<length ks]" by (metis length_Cons map_Suc_upt upt_conv_Cons zero_less_Suc)
  then show ?case
    by (simp add: Cons held_from_simps comp_def del: upt_Suc)
qed simp

lemma typed_typed_from: "typed ks = typed_from False False ks"
  by (simp add: typed_def typed_from_eq shifted_def)

lemma shift_no_text: "key_text sh (Press 0x2A) = []" "key_text sh (Press 0x36) = []"
  by (simp_all add: kb_shift_def kb_normal_def kb_table_def kb_normal_entries_def kb_shift_entries_def)

text \<open>One scan code, outside a prefix.\<close>

lemma kb_scan_key:
  assumes ok: "kb_ok k" and e0: "\<not> e0_prefix k" and sc: "sc \<noteq> 0xE0"
  shows "kb_items (kb_scan sc k) = take 63 (kb_items k @ key_text (shift_left k \<or> shift_right k) (key_of sc))"
    "shift_left (kb_scan sc k) = held_from (shift_left k) 0x2A [key_of sc]"
    "shift_right (kb_scan sc k) = held_from (shift_right k) 0x36 [key_of sc]"
    "\<not> e0_prefix (kb_scan sc k)" "kb_ok (kb_scan sc k)"
proof -
  have cap: "take 63 (kb_items k) = kb_items k" using kbq.capacity [OF ok] by simp
  have mode: "kb_items (k\<lparr>shift_left := b\<rparr>) = kb_items k" "kb_items (k\<lparr>shift_right := b\<rparr>) = kb_items k" for b
    by (simp_all add: kb_items_def)
  have put: "shift_left (kb_put c k) = shift_left k" "shift_right (kb_put c k) = shift_right k" "e0_prefix (kb_put c k) = e0_prefix k" for c
    by (simp_all add: kb_put_def Let_def)
  show "kb_items (kb_scan sc k) = take 63 (kb_items k @ key_text (shift_left k \<or> shift_right k) (key_of sc))"
    using e0 sc cap shift_no_text kbq.put_take [OF ok]
    by (auto simp: kb_scan_def Let_def key_of_def mode)
  show "shift_left (kb_scan sc k) = held_from (shift_left k) 0x2A [key_of sc]"
    "shift_right (kb_scan sc k) = held_from (shift_right k) 0x36 [key_of sc]" "\<not> e0_prefix (kb_scan sc k)"
    using e0 sc by (auto simp: kb_scan_def Let_def key_of_def held_from_def put)
  show "kb_ok (kb_scan sc k)" using ok kb_put_ok e0 by (auto simp: kb_scan_def Let_def kb_ok_def)
qed

lemma kb_scan_prefix:
  "e0_prefix k \<Longrightarrow> kb_scan sc k = k\<lparr>e0_prefix := False\<rparr>" "\<not> e0_prefix k \<Longrightarrow> kb_scan 0xE0 k = k\<lparr>e0_prefix := True\<rparr>"
  by (simp_all add: kb_scan_def)

lemma kb_mode_items [simp]: "kb_items (k\<lparr>e0_prefix := b\<rparr>) = kb_items k" "kb_ok (k\<lparr>e0_prefix := b\<rparr>) = kb_ok k"
  by (simp_all add: kb_items_def kb_ok_def)

lemma take_take_append: "take n (take n xs @ ys) = take n (xs @ ys)"
  by (cases "n \<le> length xs") simp_all

lemma kb_stream:
  "kb_ok k \<Longrightarrow> \<not> e0_prefix k \<Longrightarrow>
     kb_items (fold kb_scan scs k) = take 63 (kb_items k @ typed_from (shift_left k) (shift_right k) (keys scs))"
proof (induction scs arbitrary: k rule: keys.induct)
  case 1
  then show ?case using kbq.capacity by simp
next
  case (2 x)
  then show ?case
    using kbq.capacity [OF 2(1)] kb_scan_key [OF 2, of x] by (cases "x = 0xE0") (simp_all add: kb_scan_prefix)
next
  case (3 x y ys)
  show ?case
  proof (cases "x = 0xE0")
    case True
    have same: "k\<lparr>e0_prefix := False\<rparr> = k" using 3(4) by (cases k) simp
    have "fold kb_scan (x # y # ys) k = fold kb_scan ys (k\<lparr>e0_prefix := False\<rparr>)"
      using 3(4) True by (simp add: kb_scan_prefix)
    then have "fold kb_scan (x # y # ys) k = fold kb_scan ys k" unfolding same .
    then show ?thesis using True 3(1) [OF True 3(3,4)] by (simp add: held_from_def)
  next
    case False
    note k = kb_scan_key [OF 3(3,4) False]
    from 3(2) [OF False k(5,4)] False show ?thesis
      unfolding k(1-3) take_take_append by (simp del: take_append)
  qed
qed

section \<open>The interrupt handler against \<^verbatim>\<open>kb_get\<close>\<close>

text \<open>
  The main loop runs \<^verbatim>\<open>kb_get\<close> with interrupts enabled.  Its volatile accesses are separate steps: read \<^verbatim>\<open>kb_head\<close>, compare
  with \<^verbatim>\<open>kb_tail\<close>, read the byte, write \<^verbatim>\<open>kb_tail\<close> and return.  Between any two of them the keyboard interrupt may run; it runs
  to its end, since its gate clears the interrupt flag.  The state carries the characters that \<^verbatim>\<open>kb_get\<close> has returned
  and those that the handler has put into the buffer.
\<close>

datatype get_pc = Idle | Have_head u32 | Nonempty | Have_byte u8

record spsc =
  ring :: kb_st
  pc :: get_pc
  returned :: "u8 list"
  accepted :: "u8 list"

definition put_chars :: "u8 \<Rightarrow> kb_st \<Rightarrow> u8 list" where
  "put_chars sc k = drop (length (kb_items k)) (kb_items (kb_scan sc k))"

inductive spsc_step :: "spsc \<Rightarrow> spsc \<Rightarrow> bool" where
  irq: "spsc_step x (x\<lparr>ring := kb_scan sc (ring x), accepted := accepted x @ put_chars sc (ring x)\<rparr>)"
| load_head: "pc x = Idle \<Longrightarrow> spsc_step x (x\<lparr>pc := Have_head (kb_head (ring x))\<rparr>)"
| empty: "pc x = Have_head h \<Longrightarrow> h = kb_tail (ring x) \<Longrightarrow> spsc_step x (x\<lparr>pc := Idle\<rparr>)"
| nonempty: "pc x = Have_head h \<Longrightarrow> h \<noteq> kb_tail (ring x) \<Longrightarrow> spsc_step x (x\<lparr>pc := Nonempty\<rparr>)"
| load_byte: "pc x = Nonempty \<Longrightarrow> spsc_step x (x\<lparr>pc := Have_byte (kb_buf (ring x) ! unat (kb_tail (ring x)))\<rparr>)"
| advance: "pc x = Have_byte c \<Longrightarrow>
    spsc_step x (x\<lparr>ring := kb_pop (ring x), pc := Idle, returned := returned x @ [c]\<rparr>)"

definition kb_reset :: kb_st where
  "kb_reset = \<lparr>kb_buf = replicate 64 0, kb_head = 0, kb_tail = 0, shift_left = False, shift_right = False, e0_prefix = False\<rparr>"

definition spsc_init :: spsc where
  "spsc_init = \<lparr>ring = kb_reset, pc = Idle, returned = [], accepted = []\<rparr>"

text \<open>A value of \<^verbatim>\<open>kb_head\<close> read a while ago still lies between the tail and the present head.\<close>

fun pc_ok :: "kb_st \<Rightarrow> get_pc \<Rightarrow> bool" where
  "pc_ok k Idle \<longleftrightarrow> True"
| "pc_ok k (Have_head h) \<longleftrightarrow> (\<exists>j \<le> length (kb_items k). unat h = ring_ix (unat (kb_tail k)) j)"
| "pc_ok k Nonempty \<longleftrightarrow> kb_items k \<noteq> []"
| "pc_ok k (Have_byte c) \<longleftrightarrow> (\<exists>cs. kb_items k = c # cs)"

definition spsc_inv :: "spsc \<Rightarrow> bool" where
  "spsc_inv x \<longleftrightarrow> kb_ok (ring x) \<and> pc_ok (ring x) (pc x) \<and> accepted x = returned x @ kb_items (ring x)"

lemma kb_scan_ok: "kb_ok k \<Longrightarrow> kb_ok (kb_scan sc k)"
  using kb_put_ok by (auto simp: kb_scan_def Let_def kb_ok_def)

lemma kb_scan_tail: "kb_tail (kb_scan sc k) = kb_tail k"
  by (simp add: kb_scan_def kb_put_def Let_def)

text \<open>The handler only appends.\<close>

lemma kb_scan_appends: "kb_ok k \<Longrightarrow> kb_items (kb_scan sc k) = kb_items k @ put_chars sc k"
proof -
  assume ok: "kb_ok k"
  have "\<exists>cs. kb_items (kb_scan sc k) = kb_items k @ cs"
  proof (cases "e0_prefix k \<or> sc = 0xE0")
    case True
    then show ?thesis by (auto simp: kb_scan_def)
  next
    case False
    then show ?thesis using kb_scan_key(1) [OF ok] kbq.capacity [OF ok] by (simp add: take_append)
  qed
  then show ?thesis by (auto simp: put_chars_def)
qed

lemma pc_ok_scan: "kb_ok k \<Longrightarrow> pc_ok k p \<Longrightarrow> pc_ok (kb_scan sc k) p"
  using kb_scan_appends [of k sc] by (cases p) (auto simp: kb_scan_tail intro: trans_le_add1)

lemma spsc_step_inv: "spsc_step x y \<Longrightarrow> spsc_inv x \<Longrightarrow> spsc_inv y"
proof (induction rule: spsc_step.induct)
  case (irq x sc)
  then show ?case using kb_scan_ok pc_ok_scan kb_scan_appends by (simp add: spsc_inv_def)
next
  case (load_head x)
  then have ok: "kb_ok (ring x)" by (simp add: spsc_inv_def)
  have "unat (kb_head (ring x)) = ring_ix (unat (kb_tail (ring x))) (length (kb_items (ring x)))"
    using ok ring_facts(5) by (simp add: kb_ok_def kb_items_def)
  then show ?case using load_head by (auto simp: spsc_inv_def)
next
  case (empty x h)
  then show ?case by (simp add: spsc_inv_def)
next
  case (nonempty x h)
  then obtain j where j: "j \<le> length (kb_items (ring x))" "unat h = ring_ix (unat (kb_tail (ring x))) j" "kb_ok (ring x)"
    by (auto simp: spsc_inv_def)
  have "j \<noteq> 0"
  proof
    assume "j = 0"
    then have "unat h = unat (kb_tail (ring x))" using j(2,3) by (simp add: ring_ix_def kb_ok_def)
    then show False using nonempty(2) by (simp add: word_unat_eq_iff)
  qed
  then show ?case using nonempty j(1) by (auto simp: spsc_inv_def)
next
  case (load_byte x)
  then show ?case using kb_pop_items(1) [of "ring x"] by (auto simp: spsc_inv_def)
next
  case (advance x c)
  then obtain cs where "kb_ok (ring x)" "kb_items (ring x) = c # cs" "accepted x = returned x @ c # cs"
    by (auto simp: spsc_inv_def)
  then show ?case using kb_pop_items [of "ring x"] by (simp add: spsc_inv_def)
qed

lemma kb_reset_ok: "kb_ok kb_reset" "kb_items kb_reset = []" "\<not> e0_prefix kb_reset" "\<not> shift_left kb_reset" "\<not> shift_right kb_reset"
  by (simp_all add: kb_reset_def kb_ok_def kb_items_def ring_len_def)

lemma spsc_reach_inv: "spsc_step\<^sup>*\<^sup>* spsc_init x \<Longrightarrow> spsc_inv x"
proof (induction rule: rtranclp_induct)
  case base
  show ?case using kb_reset_ok by (simp add: spsc_inv_def spsc_init_def)
next
  case (step x y)
  then show ?case using spsc_step_inv by blast
qed

section \<open>Properties\<close>

text \<open>
  (C6) The ring buffer is shared by the interrupt handler and the main loop without a lock, and that is safe: however the
  keyboard interrupt falls between the memory accesses of \<^verbatim>\<open>kb_get\<close>, the characters \<^verbatim>\<open>kb_get\<close> has returned followed by those
  in the buffer are exactly the characters the handler accepted, in that order.  Nothing is lost, repeated or torn.
\<close>

theorem kb_get_fifo_under_interrupts:
  assumes "spsc_step\<^sup>*\<^sup>* spsc_init x"
  shows "accepted x = returned x @ kb_items (ring x) \<and> length (kb_items (ring x)) \<le> 63"
  using spsc_reach_inv [OF assms] kbq.capacity by (simp add: spsc_inv_def)

lemma scan_h: "kb_scan 0x23 kb_reset = kb_put 0x68 kb_reset"
  by (simp add: kb_scan_def kb_reset_def kb_normal_def kb_table_def kb_normal_entries_def)

theorem kb_get_fifo_under_interrupts_witness:
  "\<exists>x. spsc_step\<^sup>*\<^sup>* spsc_init x \<and> accepted x = [0x68] \<and> kb_items (ring x) = [0x68]"
proof -
  let ?x = "spsc_init\<lparr>pc := Have_head 0\<rparr>"
  have i: "kb_items (kb_scan 0x23 kb_reset) = [0x68]" "put_chars 0x23 kb_reset = [0x68]"
    using kb_put_items [OF kb_reset_ok(1)] kb_reset_ok(2) by (simp_all add: scan_h put_chars_def)
  have "spsc_step spsc_init ?x" using spsc_step.load_head [of spsc_init] by (simp add: spsc_init_def kb_reset_def)
  moreover have "spsc_step ?x (?x\<lparr>ring := kb_scan 0x23 (ring ?x), accepted := accepted ?x @ put_chars 0x23 (ring ?x)\<rparr>)"
    by (rule spsc_step.irq)
  ultimately have r: "spsc_step\<^sup>*\<^sup>* spsc_init (?x\<lparr>ring := kb_scan 0x23 (ring ?x), accepted := accepted ?x @ put_chars 0x23 (ring ?x)\<rparr>)"
    (is "spsc_step\<^sup>*\<^sup>* spsc_init ?y") by (meson rtranclp.rtrancl_into_rtrancl rtranclp.rtrancl_refl)
  have "ring ?y = kb_scan 0x23 kb_reset" "returned ?y = []" by (simp_all add: spsc_init_def)
  with kb_get_fifo_under_interrupts [OF r] r i show ?thesis by (intro exI [of _ ?y]) simp
qed

text \<open>
  The ring buffer implements a queue that holds 63 characters: the handler's store appends to it or, when it is
  full, drops the new character; \<^verbatim>\<open>kb_get\<close> returns the oldest character, never a negative number, or -1 if there is none;
  and the loop of the main program takes out everything in order.
\<close>

lemma kb_ring_refines_queue:
  assumes "kb_ok k"
  shows "kb_items (kb_put c k) = take 63 (kb_items k @ [c]) \<and> kb_ok (kb_put c k) \<and>
    (case kb_items k of [] \<Rightarrow> kb_get k = (-1, k)
       | x # xs \<Rightarrow> fst (kb_get k) = uint x \<and> kb_items (snd (kb_get k)) = xs \<and> kb_ok (snd (kb_get k))) \<and>
    fst (drain kb_get 64 k) = map uint (kb_items k) \<and> kb_items (snd (drain kb_get 64 k)) = []"
  using assms kbq.put_take kbq.put_inv kbq.get_empty kbq.get_items kbq.get_inv kbq.drain_items [of k 64]
    kbq.capacity [of k] by (auto split: list.split)

text \<open>
  (C24) Decoding: the characters that a stream of scan codes leaves in the empty buffer are the ones the stream types, up
  to the 63 that fit.  Extended keys are swallowed as a pair, releases type nothing, and a key types its shifted
  character exactly when, at that moment, the last event of the left or of the right shift key was a press.
\<close>

theorem kb_scan_types_text:
  "kb_items (fold kb_scan scs kb_reset) = take 63 (typed (keys scs))"
  using kb_stream [OF kb_reset_ok(1,3), of scs] kb_reset_ok by (simp add: typed_typed_from)

end
