(* ===== verification/Kernel.thy ===== *)
theory Kernel
  imports Keyboard
begin

text \<open>
  The kernel's entry \<^verbatim>\<open>kmain\<close> (\<^verbatim>\<open>src/src/kernel.c\<close>): the set-up of the interrupt devices and the main loop, which takes
  characters from the keyboard buffer, prints them and sleeps until the next interrupt.  The loop runs against the
  hardware: the step relation \<^verbatim>\<open>main_step\<close> has one step per statement of the loop, one for a key that arrives at the keyboard
  controller, and one for the interrupt it raises, which goes the whole way through \<^verbatim>\<open>isr_handler\<close>, \<^verbatim>\<open>irq_dispatch\<close> and
  \<^verbatim>\<open>keyboard_handler\<close>.  \<^verbatim>\<open>kb_get\<close> is one step here; theory \<^verbatim>\<open>Keyboard\<close> shows that interrupts inside it do no harm.
\<close>

definition kcode :: "isr_reg_t \<Rightarrow> device \<Rightarrow> isr_reg_t \<Rightarrow> regs_t \<Rightarrow> 'a kernel_scheme \<Rightarrow> 'a kernel_scheme" where
  "kcode kb_addr dev fn r s = (if fn = kb_addr then keyboard_handler dev r s else s)"

definition kmain_devices :: "isr_reg_t \<Rightarrow> device \<Rightarrow> 'a irq_sys_scheme \<Rightarrow> 'a irq_sys_scheme" where
  "kmain_devices kb_addr dev s =
     (let s1 = s\<lparr>con := pic_init (con s)\<rparr>;
          s2 = s1\<lparr>con := pic_unmask dev 1 (con s1)\<rparr>
      in keyboard_init kb_addr s2)"

section \<open>The main loop\<close>

text \<open>
  Where the loop is: before \<^verbatim>\<open>kb_get\<close>, before \<^verbatim>\<open>vga_putchar\<close>, before \<^verbatim>\<open>sti\<close>, between \<^verbatim>\<open>sti\<close> and \<^verbatim>\<open>hlt\<close>, and halted.
\<close>

datatype main_pc = At_get | At_putchar int | At_sti | At_hlt | Asleep

text \<open>
  \<^verbatim>\<open>if_flag\<close> is the processor's interrupt flag.  \<^verbatim>\<open>shadow\<close> is set while \<^verbatim>\<open>sti\<close> still holds interrupts back: for one
  instruction, and only if the flag was clear before.  \<^verbatim>\<open>scancodes\<close> are the bytes the keyboard controller has yet to deliver.
  The last two fields record the characters printed and the characters the handler put into the buffer.
\<close>

record main_st =
  kst :: kernel
  mpc :: main_pc
  if_flag :: bool
  shadow :: bool
  scancodes :: "u8 list"
  printed :: "u8 list"
  buffered :: "u8 list"

inductive main_step :: "isr_reg_t \<Rightarrow> main_st \<Rightarrow> main_st \<Rightarrow> bool" for kb_addr where
  key: "main_step kb_addr x (x\<lparr>scancodes := scancodes x @ [sc]\<rparr>)"
| irq1: "scancodes x = sc # rest \<Longrightarrow> if_flag x \<Longrightarrow> \<not> shadow x \<Longrightarrow> vector r = 33 \<Longrightarrow>
    isr_handler (kcode kb_addr (\<lambda>_ _. sc)) r (kst x) = Return s' \<Longrightarrow>
    main_step kb_addr x (x\<lparr>kst := s', scancodes := rest, mpc := (if mpc x = Asleep then At_get else mpc x),
      buffered := buffered x @ put_chars sc (kb (kst x))\<rparr>)"
| get: "mpc x = At_get \<Longrightarrow> kb_get (kb (kst x)) = (c, k') \<Longrightarrow>
    main_step kb_addr x (x\<lparr>kst := (kst x)\<lparr>kb := k'\<rparr>, mpc := (if c \<ge> 0 then At_putchar c else At_sti)\<rparr>)"
| putchar: "mpc x = At_putchar c \<Longrightarrow>
    main_step kb_addr x (x\<lparr>kst := (kst x)\<lparr>con := vga_putchar (word_of_int c) (con (kst x))\<rparr>, mpc := At_get,
      printed := printed x @ [word_of_int c]\<rparr>)"
| sti: "mpc x = At_sti \<Longrightarrow> main_step kb_addr x (x\<lparr>mpc := At_hlt, shadow := \<not> if_flag x, if_flag := True\<rparr>)"
| hlt: "mpc x = At_hlt \<Longrightarrow> main_step kb_addr x (x\<lparr>mpc := Asleep, shadow := False\<rparr>)"

inductive_cases main_stepE: "main_step kb_addr x y"

definition main_start :: "kernel \<Rightarrow> main_st" where
  "main_start s = \<lparr>kst = s, mpc = At_get, if_flag = False, shadow = False, scancodes = [], printed = [], buffered = []\<rparr>"

text \<open>The kernel as the loop finds it: the handler registered and the keyboard buffer empty.\<close>

definition kb_ready :: "isr_reg_t \<Rightarrow> kernel \<Rightarrow> bool" where
  "kb_ready kb_addr s \<longleftrightarrow> kb_addr \<noteq> 0 \<and> irq_handlers s 1 = kb_addr"

section \<open>The interrupt\<close>

definition same_screen :: "vga_st \<Rightarrow> vga_st \<Rightarrow> bool" where
  "same_screen c c' \<longleftrightarrow> vga_buffer c = vga_buffer c' \<and> vga_row c = vga_row c' \<and> vga_col c = vga_col c' \<and> vga_color c = vga_color c'"

lemma same_screen_putchar: "same_screen c c' \<Longrightarrow> same_screen (vga_putchar ch c) (vga_putchar ch c')"
  by (simp add: same_screen_def vga_putchar_def vga_update_cursor_def vga_newline_def vga_scroll_def Let_def outb_def)

lemma keyboard_irq:
  assumes rdy: "kb_ready kb_addr s" and r: "vector r = 33"
  shows "\<exists>c. isr_handler (kcode kb_addr (\<lambda>_ _. sc)) r s = Return (s\<lparr>con := c, kb := kb_scan sc (kb s)\<rparr>) \<and> same_screen c (con s)"
proof -
  have v: "vector r - IDT_IRQ_BASE = 1" "\<not> IDT_IRQ_COUNT \<le> (1 :: u64)" "vector r \<ge> IDT_IRQ_BASE"
    using r by (simp_all add: IDT_IRQ_BASE_def irq_count word_le_nat_alt)
  have "irq_dispatch (kcode kb_addr (\<lambda>_ _. sc)) r s = send_eoi 1 (keyboard_handler (\<lambda>_ _. sc) r s)"
    unfolding irq_dispatch_def Let_def v(1) using v(2) rdy by (simp add: kb_ready_def kcode_def)
  then have "isr_handler (kcode kb_addr (\<lambda>_ _. sc)) r s = Return (send_eoi 1 (keyboard_handler (\<lambda>_ _. sc) r s))"
    using v(3) by (simp add: isr_handler_def)
  moreover have "unat (1 :: u8) < 16" by simp
  note send_eoi_trace [OF this, of "keyboard_handler (\<lambda>_ _. sc) r s"]
  ultimately show ?thesis
    by (intro exI [of _ "(con s)\<lparr>io_trace := eoi_events 1 @ In 0x60 sc # io_trace (con s)\<rparr>"])
      (simp add: keyboard_handler_def inb_def same_screen_def)
qed

section \<open>What the loop keeps\<close>

fun in_flight :: "main_pc \<Rightarrow> u8 list" where
  "in_flight (At_putchar c) = [word_of_int c]"
| "in_flight _ = []"

definition main_inv :: "isr_reg_t \<Rightarrow> vga_st \<Rightarrow> main_st \<Rightarrow> bool" where
  "main_inv kb_addr c0 x \<longleftrightarrow> kb_ready kb_addr (kst x) \<and> kb_ok (kb (kst x)) \<and>
     buffered x = printed x @ in_flight (mpc x) @ kb_items (kb (kst x)) \<and>
     same_screen (con (kst x)) (fold vga_putchar (printed x) c0) \<and>
     (shadow x \<longrightarrow> mpc x = At_hlt) \<and> (mpc x = At_hlt \<or> mpc x = Asleep \<longrightarrow> if_flag x)"

lemma main_step_inv: "main_step kb_addr x y \<Longrightarrow> main_inv kb_addr c0 x \<Longrightarrow> main_inv kb_addr c0 y"
proof (induction rule: main_step.induct)
  case (key x sc)
  then show ?case by (simp add: main_inv_def)
next
  case (irq1 x sc rest r s')
  then have rdy: "kb_ready kb_addr (kst x)" and ok: "kb_ok (kb (kst x))" by (simp_all add: main_inv_def)
  obtain c where c: "s' = (kst x)\<lparr>con := c, kb := kb_scan sc (kb (kst x))\<rparr>" "same_screen c (con (kst x))"
    using keyboard_irq [OF rdy irq1(4), of sc] irq1(5) by auto
  have "same_screen c (fold vga_putchar (printed x) c0)" using c(2) irq1(6) by (simp add: main_inv_def same_screen_def)
  then show ?case
    using irq1 rdy kb_scan_ok [OF ok] kb_scan_appends [OF ok, of sc]
    by (auto simp: main_inv_def c(1) kb_ready_def)
next
  case (get x c k')
  then have ok: "kb_ok (kb (kst x))" by (simp add: main_inv_def)
  show ?case
  proof (cases "kb_items (kb (kst x))")
    case Nil
    then show ?thesis using get kbq.get_empty [OF ok Nil] by (simp add: main_inv_def kb_ready_def)
  next
    case (Cons a as)
    then show ?thesis
      using get kbq.get_items [OF ok Cons] kbq.get_inv [OF ok] by (auto simp: main_inv_def kb_ready_def)
  qed
next
  case (putchar x c)
  then show ?case using same_screen_putchar by (auto simp: main_inv_def kb_ready_def)
next
  case (sti x)
  then show ?case by (simp add: main_inv_def)
next
  case (hlt x)
  then show ?case by (simp add: main_inv_def)
qed

lemma main_reach_inv:
  assumes "kb_ready kb_addr s" "kb s = kb_reset" "(main_step kb_addr)\<^sup>*\<^sup>* (main_start s) x"
  shows "main_inv kb_addr (con s) x"
  using assms(3)
proof (induction rule: rtranclp_induct)
  case base
  show ?case using assms(1,2) kb_reset_ok by (simp add: main_inv_def main_start_def same_screen_def)
next
  case (step x y)
  then show ?case using main_step_inv by blast
qed

lemma kmain_devices_eq:
  "kmain_devices kb_addr dev s =
     s\<lparr>con := pic_unmask dev 1 (pic_init (con s)), irq_handlers := (irq_handlers s)(1 := kb_addr)\<rparr>"
  by (simp add: kmain_devices_def keyboard_init_def irq_register_def irq_count Let_def word_le_nat_alt)

lemma kmain_devices_lines:
  assumes dev: "imr_readable dev c0" and n: "n < 16"
  shows "line_open (pic_pair c0 (con (kmain_devices kb_addr dev s))) n \<longleftrightarrow> n = 1"
    "line_vector (pic_pair c0 (con (kmain_devices kb_addr dev s))) n = 32 + n"
proof -
  have c: "con (kmain_devices kb_addr dev s) = pic_unmask dev 1 (pic_init (con s))"
    by (simp add: kmain_devices_eq)
  have one: "unat (1 :: u8) < 16" by simp
  note u = pic_unmask_masked [OF pic_init_running(1) [of c0 "con s"] dev one]
  show "line_open (pic_pair c0 (con (kmain_devices kb_addr dev s))) n \<longleftrightarrow> n = 1"
    using u(2) [of n] u(2) [of 2] pic_init_running(2) [of n c0 "con s"] pic_init_running(2) [of 2 c0 "con s"] n
    by (auto simp: line_open_masked c)
  show "line_vector (pic_pair c0 (con (kmain_devices kb_addr dev s))) n = 32 + n"
    using u(3) [of n] pic_init_running(3) [OF n, of c0 "con s"] by (simp add: c)
qed

section \<open>Properties\<close>

definition demo_kernel :: kernel where
  "demo_kernel = \<lparr>con = vga_boot, mem = boot_mem, cr3 = 0x1000, cr2 = 0, tlb = \<lambda>_. None, pmm = demo_pmm,
     vm_kernel_space_ptr = 0x1000, vm_faults = 0, vm_in_fault = False, irq_handlers = (\<lambda>_. 0)(1 := 0x5000),
     idt = [], idtr_limit = 0xFFF, idtr_base = 0x9000, kb = kb_reset\<rparr>"

lemma demo_kernel_ready: "kb_ready 0x5000 demo_kernel" "kb demo_kernel = kb_reset"
  by (simp_all add: kb_ready_def demo_kernel_def)

text \<open>
  (C23) The device set-up of \<^verbatim>\<open>kmain\<close>, from any state of the controllers: afterwards the keyboard line is the only one
  that reaches the processor, it raises vector 33, and that vector runs the keyboard handler through the whole
  interrupt path, which returns and leaves the screen alone.
\<close>

theorem kmain_devices_connects_keyboard:
  fixes s :: kernel
  assumes dev: "imr_readable dev c0" and n: "n < 16" and a: "kb_addr \<noteq> 0"
  shows "(line_open (pic_pair c0 (con (kmain_devices kb_addr dev s))) n \<longleftrightarrow> n = 1) \<and>
    line_vector (pic_pair c0 (con (kmain_devices kb_addr dev s))) 1 = 33 \<and>
    (vector r = 33 \<longrightarrow> (\<exists>c. isr_handler (kcode kb_addr (\<lambda>_ _. sc)) r (kmain_devices kb_addr dev s) =
       Return ((kmain_devices kb_addr dev s)\<lparr>con := c, kb := kb_scan sc (kb s)\<rparr>) \<and> same_screen c (con (kmain_devices kb_addr dev s))))"
proof -
  let ?s = "kmain_devices kb_addr dev s"
  have h: "irq_handlers ?s = (irq_handlers s)(1 := kb_addr)" "kb ?s = kb s"
    by (simp_all add: kmain_devices_eq)
  have "kb_ready kb_addr ?s" using a by (simp add: kb_ready_def h(1))
  from keyboard_irq [OF this, of r sc] show ?thesis
    using kmain_devices_lines(1) [OF dev n, of kb_addr s] kmain_devices_lines(2) [OF dev, of 1 kb_addr s] unfolding h(2) by simp
qed

theorem kmain_devices_connects_keyboard_witness:
  "line_open (pic_pair demo_chips (con (kmain_devices 0x5000 (pic_dev demo_chips) demo_kernel))) 1 \<and>
   \<not> line_open (pic_pair demo_chips (con (kmain_devices 0x5000 (pic_dev demo_chips) demo_kernel))) 12"
  using kmain_devices_connects_keyboard [OF pic_dev_readable, of 1 "0x5000" demo_chips demo_kernel "demo_regs 33 0" 0]
    kmain_devices_connects_keyboard [OF pic_dev_readable, of 12 "0x5000" demo_chips demo_kernel "demo_regs 33 0" 0]
  by (simp add: demo_kernel_def demo_regs_def)

text \<open>
  (C16) The main loop echoes the keyboard: in every state it can reach, whatever keys arrive and whenever their interrupts
  fall, the characters the handler buffered are, in order, those already printed, the one about to be printed and
  those still in the buffer; the screen is what printing the first group gives; and the loop never sleeps with
  interrupts off, so that a waiting key always wakes it.
\<close>

theorem main_loop_echoes:
  assumes "kb_ready kb_addr s" and "kb s = kb_reset" and "(main_step kb_addr)\<^sup>*\<^sup>* (main_start s) x"
  shows "buffered x = printed x @ in_flight (mpc x) @ kb_items (kb (kst x)) \<and>
    same_screen (con (kst x)) (fold vga_putchar (printed x) (con s)) \<and>
    (mpc x = Asleep \<and> scancodes x \<noteq> [] \<longrightarrow> (\<exists>y. main_step kb_addr x y \<and> mpc y = At_get))"
proof -
  have inv: "main_inv kb_addr (con s) x" by (rule main_reach_inv [OF assms])
  have "\<exists>y. main_step kb_addr x y \<and> mpc y = At_get" if a: "mpc x = Asleep" "scancodes x \<noteq> []"
  proof -
    have f: "if_flag x" "\<not> shadow x" "kb_ready kb_addr (kst x)" using inv a(1) by (auto simp: main_inv_def)
    obtain sc rest where sc: "scancodes x = sc # rest" using a(2) by (cases "scancodes x") auto
    have v: "vector (demo_regs 33 0) = 33" by (simp add: demo_regs_def)
    obtain c where "isr_handler (kcode kb_addr (\<lambda>_ _. sc)) (demo_regs 33 0) (kst x) =
        Return ((kst x)\<lparr>con := c, kb := kb_scan sc (kb (kst x))\<rparr>)" using keyboard_irq [OF f(3) v] by blast
    from main_step.irq1 [OF sc f(1,2) v this] show ?thesis using a(1) by (intro exI) auto
  qed
  then show ?thesis using inv by (auto simp: main_inv_def)
qed

theorem main_loop_echoes_witness:
  "same_screen (con (kst (main_start demo_kernel))) (fold vga_putchar [] (con demo_kernel))"
  using main_loop_echoes [OF demo_kernel_ready rtranclp.rtrancl_refl] by (simp add: main_start_def)

text \<open>Rounds of the loop over an empty buffer.\<close>

lemma get_empty_step:
  assumes "mpc x = At_get" "kb_ok (kb (kst x))" "kb_items (kb (kst x)) = []"
  shows "main_step kb_addr x (x\<lparr>mpc := At_sti\<rparr>)"
  using main_step.get [OF assms(1) kbq.get_empty [OF assms(2,3)], of kb_addr] by simp

lemma irq_step:
  assumes "kb_ready kb_addr (kst x)" "scancodes x = [sc]" "if_flag x" "\<not> shadow x"
  shows "\<exists>c. main_step kb_addr x (x\<lparr>kst := (kst x)\<lparr>con := c, kb := kb_scan sc (kb (kst x))\<rparr>, scancodes := [],
    mpc := (if mpc x = Asleep then At_get else mpc x), buffered := buffered x @ put_chars sc (kb (kst x))\<rparr>)"
proof -
  have v: "vector (demo_regs 33 0) = 33" by (simp add: demo_regs_def)
  obtain c where "isr_handler (kcode kb_addr (\<lambda>_ _. sc)) (demo_regs 33 0) (kst x) =
      Return ((kst x)\<lparr>con := c, kb := kb_scan sc (kb (kst x))\<rparr>)" using keyboard_irq [OF assms(1) v] by blast
  from main_step.irq1 [OF assms(2-4) v this] show ?thesis by blast
qed

text \<open>The second round of the loop: the buffer was found empty and the interrupt flag is still set from the first round.\<close>

definition about_to_sleep :: "isr_reg_t \<Rightarrow> main_st \<Rightarrow> bool" where
  "about_to_sleep kb_addr x \<longleftrightarrow> mpc x = At_sti \<and> if_flag x \<and> \<not> shadow x \<and> scancodes x = [] \<and>
     kb_ready kb_addr (kst x) \<and> kb (kst x) = kb_reset"

lemma second_round:
  assumes "kb_ready kb_addr s" "kb s = kb_reset"
  shows "\<exists>x. (main_step kb_addr)\<^sup>*\<^sup>* (main_start s) x \<and> about_to_sleep kb_addr x"
proof -
  let ?r = "main_step kb_addr"
  define x1 where "x1 = (main_start s)\<lparr>mpc := At_sti\<rparr>"
  define x2 where "x2 = x1\<lparr>mpc := At_hlt, shadow := \<not> if_flag x1, if_flag := True\<rparr>"
  define x3 where "x3 = x2\<lparr>mpc := Asleep, shadow := False\<rparr>"
  define x4 where "x4 = x3\<lparr>scancodes := scancodes x3 @ [0xA3]\<rparr>"
  have "?r (main_start s) x1" unfolding x1_def
    using assms(2) kb_reset_ok by (intro get_empty_step) (simp_all add: main_start_def)
  moreover have "?r x1 x2" unfolding x2_def by (rule main_step.sti) (simp add: x1_def)
  moreover have "?r x2 x3" unfolding x3_def by (rule main_step.hlt) (simp add: x2_def)
  moreover have "?r x3 x4" unfolding x4_def by (rule main_step.key)
  ultimately have r4: "?r\<^sup>*\<^sup>* (main_start s) x4" by (meson rtranclp.rtrancl_into_rtrancl rtranclp.rtrancl_refl)
  note d = x4_def x3_def x2_def x1_def main_start_def
  have x4: "kb_ready kb_addr (kst x4)" "scancodes x4 = [0xA3]" "if_flag x4" "\<not> shadow x4" "mpc x4 = Asleep" "kb (kst x4) = kb_reset"
    using assms by (simp_all add: d)
  obtain c where c: "?r x4 (x4\<lparr>kst := (kst x4)\<lparr>con := c, kb := kb_scan 0xA3 kb_reset\<rparr>, scancodes := [], mpc := At_get,
      buffered := buffered x4 @ put_chars 0xA3 kb_reset\<rparr>)" (is "main_step _ _ ?x5") using irq_step [OF x4(1-4)] x4(5,6) by auto
  have same: "kb_scan 0xA3 kb_reset = kb_reset" using kb_reset_ok(3) by (simp add: kb_scan_def)
  have "?r ?x5 (?x5\<lparr>mpc := At_sti\<rparr>)" by (rule get_empty_step) (simp_all add: same kb_reset_ok)
  with r4 c have "?r\<^sup>*\<^sup>* (main_start s) (?x5\<lparr>mpc := At_sti\<rparr>)"
    by (meson rtranclp.rtrancl_into_rtrancl)
  moreover have "about_to_sleep kb_addr (?x5\<lparr>mpc := At_sti\<rparr>)"
    using x4(1,3,4) by (simp add: about_to_sleep_def same kb_ready_def)
  ultimately show ?thesis by blast
qed

lemma asleep_waits:
  assumes "mpc x = Asleep" "scancodes x = []" "main_step kb_addr x y"
  shows "\<exists>sc. y = x\<lparr>scancodes := [sc]\<rparr>"
  using assms(3) by (cases rule: main_step.cases) (use assms(1,2) in auto)

text \<open>
  (C27) The loop can sleep on a full buffer.  From the second round on the interrupt flag is set while the loop looks at the
  buffer, so a key that arrives after \<^verbatim>\<open>kb_get\<close> has found it empty and before \<^verbatim>\<open>hlt\<close> is buffered, the processor halts, and
  nothing but a further key gets the character out.
\<close>

theorem main_loop_lost_wakeup:
  assumes "kb_ready kb_addr s" and "kb s = kb_reset"
  shows "\<exists>x. (main_step kb_addr)\<^sup>*\<^sup>* (main_start s) x \<and> mpc x = Asleep \<and> scancodes x = [] \<and> kb_items (kb (kst x)) = [0x68] \<and>
    (\<forall>y. main_step kb_addr x y \<longrightarrow> (\<exists>sc. y = x\<lparr>scancodes := [sc]\<rparr>))"
proof -
  let ?r = "main_step kb_addr"
  obtain x where r: "?r\<^sup>*\<^sup>* (main_start s) x" and a: "about_to_sleep kb_addr x" using second_round [OF assms] by blast
  have x: "mpc x = At_sti" "if_flag x" "\<not> shadow x" "scancodes x = []" "kb_ready kb_addr (kst x)" "kb (kst x) = kb_reset"
    using a by (simp_all add: about_to_sleep_def)
  define x1 where "x1 = x\<lparr>scancodes := scancodes x @ [0x23]\<rparr>"
  have s1: "?r x x1" unfolding x1_def by (rule main_step.key)
  have x1: "mpc x1 = At_sti" "if_flag x1" "\<not> shadow x1" "scancodes x1 = [0x23]" "kb_ready kb_addr (kst x1)" "kb (kst x1) = kb_reset"
    using x by (simp_all add: x1_def)
  obtain x2 where s2: "?r x1 x2" and x2: "kb (kst x2) = kb_scan 0x23 kb_reset" "scancodes x2 = []" "mpc x2 = At_sti"
    using irq_step [OF x1(5,4,2,3)] x1(1,6) by fastforce
  define x3 where "x3 = x2\<lparr>mpc := At_hlt, shadow := \<not> if_flag x2, if_flag := True\<rparr>"
  define x4 where "x4 = x3\<lparr>mpc := Asleep, shadow := False\<rparr>"
  have s3: "?r x2 x3" unfolding x3_def by (rule main_step.sti [OF x2(3)])
  have s4: "?r x3 x4" unfolding x4_def by (rule main_step.hlt) (simp add: x3_def)
  have reach: "?r\<^sup>*\<^sup>* (main_start s) x4" using r s1 s2 s3 s4 by (meson rtranclp.rtrancl_into_rtrancl)
  have "kb_items (kb (kst x4)) = [0x68]"
    using kb_put_items [OF kb_reset_ok(1)] kb_reset_ok(2) x2(1) by (simp add: x4_def x3_def scan_h)
  moreover have f: "mpc x4 = Asleep" "scancodes x4 = []" using x2(2) by (simp_all add: x4_def x3_def)
  ultimately show ?thesis using reach asleep_waits [OF f] by blast
qed

theorem main_loop_lost_wakeup_witness:
  "\<exists>x. (main_step 0x5000)\<^sup>*\<^sup>* (main_start demo_kernel) x \<and> mpc x = Asleep \<and> kb_items (kb (kst x)) = [0x68]"
  using main_loop_lost_wakeup [OF demo_kernel_ready] by blast

end
