(* ===== verification/Boot.thy ===== *)
theory Boot
  imports Vm_Test Kernel
begin

text \<open>
  The whole of \<^verbatim>\<open>kmain\<close> (\<^verbatim>\<open>src/src/kernel.c\<close>) up to its main loop: the screen, the interrupt table, the three memory
  managers, the interrupt devices and the three self tests, in the order of the source.  Interrupts are off until the loop, so
  the page faults of the heap are the only events in between.  The addresses that the linker fixes (\<^verbatim>\<open>keyboard_handler\<close>, the
  stubs, the table and \<^verbatim>\<open>__bss_end\<close>), the devices and the registers at a page fault are parameters.
\<close>

text \<open>
  How \<^verbatim>\<open>kmain\<close> goes on: into its main loop, into a \<^verbatim>\<open>cli; hlt\<close> loop (its own or that of the exception report of \<^verbatim>\<open>m6_trigger\<close>), or into a
  panic of the heap.  \<^verbatim>\<open>None\<close> is a run that ends inside one of the functions called: an access that halts in the exception report,
  or a loop without end.
\<close>

datatype 's boot_outcome = Main_loop 's | Stopped 's | Panicked string

definition stop :: "string \<Rightarrow> 'a sys_scheme \<Rightarrow> 'a sys_scheme boot_outcome" where
  "stop msg s = Stopped (kprintf (msg @ nl) [] s)"

definition puts :: "string \<Rightarrow> 'a sys_scheme \<Rightarrow> 'a sys_scheme" where
  "puts str s = s\<lparr>con := vga_puts (cstr str) (con s)\<rparr>"

text \<open>
  The exception test, for each value of the preprocessor switch \<^verbatim>\<open>M6_CASE\<close>: a division by zero, an invalid instruction, a data
  segment selector outside the GDT (its error code is the selector), and a read at 1GB.
\<close>

definition M6_CASE :: nat where "M6_CASE = 0"

definition m6_trigger ::
  "nat \<Rightarrow> (isr_reg_t \<Rightarrow> regs_t \<Rightarrow> 'a irq_sys_scheme \<Rightarrow> 'a irq_sys_scheme) \<Rightarrow> regs_t \<Rightarrow> 'a irq_sys_scheme \<Rightarrow> 'a irq_sys_scheme outcome" where
  "m6_trigger n code r s =
     (if n = 1 then isr_handler code (r\<lparr>vector := 0, error_code := 0\<rparr>) s
      else if n = 2 then isr_handler code (r\<lparr>vector := 6, error_code := 0\<rparr>) s
      else if n = 3 then isr_handler code (r\<lparr>vector := 13, error_code := 0x30\<rparr>) s
      else if n = 4 \<and> mmu (mem s) (cr3 s) 0x40000000 = None
      then isr_handler code (r\<lparr>vector := 14, error_code := 0\<rparr>) (s\<lparr>cr2 := 0x40000000\<rparr>)
      else Return s)"

text \<open>The self tests, the greeting and the exception test.\<close>

definition kmain_tests where
  "kmain_tests code r bss_end hs he s =
     do {
       (e1, s1) \<leftarrow> pmm_self_test code r bss_end s;
       if e1 \<noteq> 0 then Some (stop ''M8/PMM: self-test failed, halt'' s1)
       else do {
         (e2, s2) \<leftarrow> vm_self_test code r s1;
         if e2 \<noteq> 0 then Some (stop ''M8/VM: self-test failed, halt'' s2)
         else
           (case heap_self_test code r hs he s2 of
              None \<Rightarrow> None
            | Some (Inl msg) \<Rightarrow> Some (Panicked msg)
            | Some (Inr (e3, s3)) \<Rightarrow>
                if e3 \<noteq> 0 then Some (stop ''M8/HEAP: self-test failed, halt'' s3)
                else
                  (case m6_trigger M6_CASE code r (puts (''This is 8GodOS'' @ nl) (puts (''Hello, kernel!'' @ nl) s3)) of
                     Return s4 \<Rightarrow> Some (Main_loop s4)
                   | Halt s4 \<Rightarrow> Some (Stopped s4)))
       }
     }"

definition kmain ::
  "isr_reg_t \<Rightarrow> device \<Rightarrow> (nat \<Rightarrow> u64) \<Rightarrow> u64 \<Rightarrow> u64 \<Rightarrow> regs_t \<Rightarrow> u64 \<Rightarrow> 'a kernel_scheme \<Rightarrow> 'a kernel_scheme boot_outcome option" where
  "kmain kb_addr dev isr_stub_table idt_addr bss_end r mb_info s =
     (let code = kcode kb_addr dev;
          s1 = idt_init isr_stub_table idt_addr (s\<lparr>con := vga_clear dev (con s)\<rparr>);
          (e2, s2) = vm_init s1
      in if e2 \<noteq> 0 then Some (stop ''M8: vm_init failed, halt'' s2)
         else do {
           (e3, s3) \<leftarrow> pmm_init bss_end mb_info s2;
           if e3 \<noteq> 0 then Some (stop ''M8: pmm_init failed, halt'' s3)
           else do {
             (e4, hs, he, s4) \<leftarrow> heap_init_vm code r s3;
             if e4 \<noteq> 0 then Some (stop ''M8: heap_init failed, halt'' s4)
             else kmain_tests code r bss_end hs he (kmain_devices kb_addr dev s4)
           }
         })"

section \<open>After the memory managers\<close>

text \<open>What the boot code must have left: tables inside the kernel image, the address of the root in \<^verbatim>\<open>CR3\<close>, no heap.\<close>

definition boot_image :: "(u64 \<Rightarrow> nat) \<Rightarrow> u64 \<Rightarrow> 'a sys_scheme \<Rightarrow> bool" where
  "boot_image lv bss_end s \<longleftrightarrow> boot_tables (mem s) (cr3 s) \<and> pte_frame (cr3 s) = cr3 s \<and> wf_tables lv (mem s) {} \<and> lv (cr3 s) = 4 \<and>
     (\<forall>t. 0 < lv t \<longrightarrow> unat t < unat bss_end) \<and> \<not> pte_present (rd64 (mem s) (slot (cr3 s) 256)) \<and>
     0x100000 \<le> unat bss_end \<and> unat bss_end + 4095 < 2 ^ 64"

text \<open>The frames that the memory map offers.\<close>

definition boot_free :: "u64 \<Rightarrow> u64 \<Rightarrow> mb2_range_t list \<Rightarrow> 'a sys_scheme \<Rightarrow> u64 set" where
  "boot_free bss_end mb_info rs s = {f. f < PMM_FRAME_COUNT \<and> pmm_usable rs f \<and>
     frame_bytes f \<inter> ({..< 0x100000} \<union> {..< unat bss_end} \<union> {unat mb_info ..< unat mb_info + unat (rd32 (mem s) mb_info)}) = {}}"

lemma free_frame_place:
  assumes pa: "pa \<in> pmm_avail p" and free: "pmm_free_set p = boot_free bss_end mb_info rs s" and bss: "unat bss_end + 4095 < 2 ^ 64"
    and info: "unat mb_info + unat (rd32 (mem s) mb_info) < 2 ^ 64" "0 < rd32 (mem s) mb_info"
    and static: "pmm_static p = (mb_info, mb_info + ucast (rd32 (mem s) mb_info))"
  shows "unat bss_end \<le> unat pa" "frame_clear (pmm_align_up_4k bss_end) p pa"
proof -
  obtain f where f: "f \<in> pmm_free_set p" "pa = f * PMM_FRAME_SIZE" using pa unfolding pmm_avail_def by (rule imageE)
  have fc: "f < PMM_FRAME_COUNT" and apart: "x \<in> frame_bytes f \<Longrightarrow> unat bss_end \<le> x \<and> \<not> (unat mb_info \<le> x \<and> x < unat mb_info + unat (rd32 (mem s) mb_info))" for x
    using f(1) unfolding free boot_free_def by auto
  have u: "unat pa = unat f * 4096" using frame_addr(1) [OF fc] f(2) by simp
  have in_f: "unat pa + k \<in> frame_bytes f" if "k < 4096" for k using that u by (simp add: frame_bytes_def)
  show le: "unat bss_end \<le> unat pa" using apart [OF in_f [of 0]] by simp
  have "pmm_align_up_4k bss_end \<le> pa" using align_up_nat [OF bss] le round_up_le [of "unat bss_end" "unat f"] u by (simp add: word_le_nat_alt)
  moreover have "\<not> (pa < pmm_info_end p \<and> pmm_mb_info p < pa + PMM_FRAME_SIZE)"
  proof
    assume c: "pa < pmm_info_end p \<and> pmm_mb_info p < pa + PMM_FRAME_SIZE"
    have m: "pmm_mb_info p = mb_info" "pmm_info_end p = mb_info + ucast (rd32 (mem s) mb_info)" using static by (simp_all add: pmm_static_def)
    have e: "unat (pmm_info_end p) = unat mb_info + unat (rd32 (mem s) mb_info)" unfolding m
      using info(1) unat_ucast_u32 [of "rd32 (mem s) mb_info"] by (subst unat_u64_add) simp_all
    have "unat (pa + PMM_FRAME_SIZE) = unat pa + 4096" using u frame_addr(4) [OF fc] f(2)
      by (subst unat_u64_add) (simp_all add: PMM_FRAME_SIZE_def PMM_MAX_PHYS_def word_less_nat_alt)
    then have o: "unat pa < unat mb_info + unat (rd32 (mem s) mb_info)" "unat mb_info < unat pa + 4096"
      using c e m by (simp_all add: word_less_nat_alt)
    show False
    proof (cases "unat mb_info \<le> unat pa")
      case True
      then show False using apart [OF in_f [of 0]] o(1) by simp
    next
      case False
      then have "unat pa + (unat mb_info - unat pa) = unat mb_info" "unat mb_info - unat pa < 4096" using o(2) by simp_all
      moreover have "0 < unat (rd32 (mem s) mb_info)" using info(2) by (simp add: word_less_nat_alt)
      ultimately show False using apart [OF in_f [of "unat mb_info - unat pa"]] by simp
    qed
  qed
  ultimately show "frame_clear (pmm_align_up_4k bss_end) p pa" by (simp add: frame_clear_def)
qed

lemma boot_paged:
  assumes img: "boot_image lv bss_end s" and inv: "pmm_inv (pmm s')" and cr: "cr3 s' = cr3 s" and nf: "\<not> vm_in_fault s'"
    and tab: "boot_tables (mem s') (cr3 s)" "boot_pd (mem s') (cr3 s) = boot_pd (mem s) (cr3 s)"
      "\<forall>x. \<not> x - boot_pd (mem s) (cr3 s) < 4096 \<longrightarrow> mem s' x = mem s x"
    and av: "\<And>pa. pa \<in> pmm_avail (pmm s') \<Longrightarrow> unat bss_end \<le> unat pa"
  shows "heap_paged lv s'" "heap_mapped s' = {}" "pt_index 4 x = 256 \<Longrightarrow> heap_leaf s' x = None"
proof -
  let ?pd = "boot_pd (mem s) (cr3 s)"
  have i: "boot_tables (mem s) (cr3 s)" "pte_frame (cr3 s) = cr3 s" "wf_tables lv (mem s) {}" "lv (cr3 s) = 4"
    "\<forall>t. 0 < lv t \<longrightarrow> unat t < unat bss_end" "\<not> pte_present (rd64 (mem s) (slot (cr3 s) 256))"
    using img by (simp_all add: boot_image_def)
  have pd: "?pd AND 4095 = 0" "?pd \<noteq> cr3 s" using i(1,2) by (simp_all add: boot_pd_def boot_tables_def)
  have "wf_tables lv (mem s') {}"
    by (rule wf_tables_leafy [OF i(3) pd(1)])
      (use tab in \<open>auto simp: boot_tables_def identity_entry_def child_def Let_def\<close>)
  then have wf: "wf_tables lv (mem s') (pmm_avail (pmm s'))"
    by (rule wf_tables_avail) (use i(5) av in \<open>meson not_less\<close>)
  have al: "cr3 s AND 4095 = 0" using wf_frame(1) [OF wf, of "cr3 s"] i(4) by simp
  have "rd64 (mem s') (slot (cr3 s) 256) = rd64 (mem s) (slot (cr3 s) 256)"
  proof (rule rd64_cong)
    fix k :: u64 assume "k < 8"
    then have "(slot (cr3 s) 256 + k) AND NOT 4095 = cr3 s" by (intro slot_page [OF al]) simp_all
    then have "\<not> slot (cr3 s) 256 + k - ?pd < 4096" using page_of_iff [OF pd(1)] pd(2) by metis
    then show "mem s' (slot (cr3 s) 256 + k) = mem s (slot (cr3 s) 256 + k)" using tab(3) by blast
  qed
  then have z: "\<not> pte_present (rd64 (mem s') (slot (cr3 s) 256))" using i(6) by simp
  show leaf: "heap_leaf s' x = None" if "pt_index 4 x = 256" for x
    using mmu_leaf.simps(2) [of "mem s'" 3 "cr3 s" x] z that by (simp add: heap_leaf_def cr i(2))
  have "pml4_ok (mem s') (cr3 s) x" if "heap_addr x" for x using z heap_pt4 [OF that] by (simp add: pml4_ok_def)
  then show "heap_paged lv s'" using inv wf nf i(2,4) leaf [OF heap_pt4] by (simp add: heap_paged_def vm_wf_def cr)
  show "heap_mapped s' = {}" using leaf [OF heap_pt4] by (auto simp: heap_mapped_def heap_pages_def)
qed

text \<open>The self test of the frame allocator writes to available frames only: the heap and every translation stay.\<close>

lemma pmm_test_keeps:
  assumes pg: "heap_paged lv s" and out: "\<forall>x. x AND NOT 4095 \<notin> pmm_avail (pmm s) \<longrightarrow> m x = mem s x"
    and p: "pmm_inv p" "pmm_avail p = pmm_avail (pmm s)" and t: "t = s\<lparr>mem := m, pmm := p, con := c\<rparr>"
  shows "heap_paged lv t" "heap_leaf t = heap_leaf s" "heap_mapped t = heap_mapped s" "heap_addr x \<Longrightarrow> heap_view t x = heap_view s x"
proof -
  note d = heap_pagedD [OF pg]
  have wt: "wf_tables lv (mem s) (pmm_avail (pmm s))" using d(1) by (simp add: vm_wf_def)
  have m: "m x = mem s x" if "lv (x AND NOT 4095) \<noteq> 0" for x
    using out wf_frame(4) [OF wt, of "x AND NOT 4095"] that by simp
  note k = tables_kept [OF d(1,2) m]
  have rd: "rd64 m (slot (pte_frame (cr3 s)) j) = rd64 (mem s) (slot (pte_frame (cr3 s)) j)" if "j < 512" for j
    using k(4) that d(2) by simp
  have kept: "vm_kept (pmm_avail (pmm s)) lv s lv t"
    using p k(3) out by (auto simp: vm_kept_def vm_wf_def t)
  have leaf: "\<forall>va. mmu_leaf (mem t) 4 (pte_frame (cr3 s)) va = mmu_leaf (mem s) 4 (pte_frame (cr3 s)) va" using k(1) by (simp add: t)
  have p4: "pml4_ok (mem t) (pte_frame (cr3 s)) VM_HEAP_BASE" "pt_index 4 VM_HEAP_BASE = 256"
    using d(4) [of VM_HEAP_BASE] heap_pt4 [of VM_HEAP_BASE] rd [of 256] HB_HE
    by (simp_all add: pml4_ok_def t heap_addr_def VM_HEAP_SIZE_def VM_HEAP_BASE_def)
  have nf: "cr3 t = cr3 s" "\<not> vm_in_fault t" using d(3) by (simp_all add: t)
  note H = vm_kept_heap [OF pg kept nf leaf p4]
  show "heap_paged lv t" by (rule H(1))
  show hl: "heap_leaf t = heap_leaf s" using H(2) by blast
  show "heap_mapped t = heap_mapped s" by (simp add: heap_mapped_def hl)
  show "heap_addr x \<Longrightarrow> heap_view t x = heap_view s x" by (rule H(3))
qed

lemma boot_places:
  "unat x < 2 ^ 30 \<Longrightarrow> canonical x \<and> \<not> heap_addr x" "canonical VM_SCRATCH_BASE" "\<not> heap_addr VM_SCRATCH_BASE"
proof -
  assume x: "unat x < 2 ^ 30"
  then have "unat x < 2 ^ 47" by simp
  then have "take_bit 47 x = x" by (simp add: word_unat_eq_iff unsigned_take_bit_eq take_bit_nat_eq_self)
  then have "bit x n \<Longrightarrow> n < 47" for n by (metis bit_take_bit_iff)
  then have "\<not> bit x n" if "47 \<le> n" for n using that by fastforce
  then show "canonical x \<and> \<not> heap_addr x" using x
    by (auto simp: canonical_def heap_addr_def VM_HEAP_BASE_def word_le_nat_alt)
next
  have d: "drop_bit 47 VM_SCRATCH_BASE = mask 17" by (simp add: VM_SCRATCH_BASE_def mask_numeral)
  have "bit VM_SCRATCH_BASE n = bit (drop_bit 47 VM_SCRATCH_BASE) (n - 47)" if "47 \<le> n" for n
    using that by (simp add: bit_drop_bit_eq)
  moreover have "n - 47 < 17" if "n < 64" "47 \<le> n" for n :: nat using that by linarith
  ultimately have "bit VM_SCRATCH_BASE n" if "47 \<le> n" "n < 64" for n using that by (simp add: d bit_mask_iff)
  then show "canonical VM_SCRATCH_BASE" by (simp add: canonical_def)
  show "\<not> heap_addr VM_SCRATCH_BASE" by (simp add: heap_addr_def VM_SCRATCH_BASE_def VM_HEAP_BASE_def VM_HEAP_SIZE_def)
qed

lemma boot_memory:
  assumes img: "boot_image lv bss_end s" and mb: "mb_info \<noteq> 0" "info_apart mb_info s" "0 < rd32 (mem s) mb_info" "rd32 (mem s) mb_info \<le> 0x100000"
      "tags_at (mem s) (mb_info + ucast (rd32 (mem s) mb_info)) (mb_info + 8) ts" "length (usable_ranges ts) \<le> 32"
    and bm: "length (pmm_bitmap (pmm s)) = unat PMM_BITMAP_BYTES" and nf: "\<not> vm_in_fault s"
  obtains s' where "pmm_init bss_end mb_info s = Some (0, s')" "heap_paged lv s'" "heap_mapped s' = {}"
    "pmm_free_set (pmm s') = boot_free bss_end mb_info (usable_ranges ts) s" "heap_leaf s' VM_SCRATCH_BASE = None"
    "\<forall>pa \<in> pmm_avail (pmm s'). unat pa < 2 ^ 30 \<and> mmu (mem s') (cr3 s') pa = Some pa \<and> frame_clear (pmm_align_up_4k bss_end) (pmm s') pa"
    "cr3 s' = cr3 s" "sys_rest s' = sys_rest s"
proof -
  have i: "boot_tables (mem s) (cr3 s)" "unat bss_end + 4095 < 2 ^ 64" using img by (simp_all add: boot_image_def)
  obtain s' where s': "pmm_init bss_end mb_info s = Some (0, s')" "pmm_inv (pmm s')"
    "pmm_free_set (pmm s') = boot_free bss_end mb_info (usable_ranges ts) s"
    "\<forall>pa \<in> pmm_avail (pmm s'). identity_mapped s' (unat pa) (unat pa + 4096)" "cr3 s' = cr3 s" "sys_rest s' = sys_rest s"
    "boot_tables (mem s') (cr3 s)" "boot_pd (mem s') (cr3 s) = boot_pd (mem s) (cr3 s)"
    "\<forall>x. \<not> x - boot_pd (mem s) (cr3 s) < 4096 \<longrightarrow> mem s' x = mem s x"
    "pmm_static (pmm s') = (mb_info, mb_info + ucast (rd32 (mem s) mb_info))"
    by (rule pmm_init_runs [OF i(1) mb bm i(2), folded boot_free_def])
  have inf: "unat mb_info + unat (rd32 (mem s) mb_info) < 2 ^ 64"
    using mb(2) by (simp add: info_apart_def max_def split: if_splits)
  note place = free_frame_place [OF _ s'(3) i(2) inf mb(3) s'(10)]
  have nf': "\<not> vm_in_fault s'" using vm_rest_fields [OF vm_rest_sys [OF s'(6)]] nf by simp
  note P = boot_paged [OF img s'(2,5) nf' s'(7-9) place(1)]
  have av: "unat pa < 2 ^ 30 \<and> mmu (mem s') (cr3 s') pa = Some pa \<and> frame_clear (pmm_align_up_4k bss_end) (pmm s') pa"
    if "pa \<in> pmm_avail (pmm s')" for pa
    using s'(4) that place(2) [OF that] pmm.avail_frames [OF s'(2)]
    by (auto simp: identity_mapped_def is_frame_def PMM_MAX_PHYS_def word_less_nat_alt)
  show thesis by (rule that [OF s'(1) P(1,2) s'(3) P(3) _ s'(5,6)]) (use test_pages(3) av in blast)+
qed

section \<open>The self tests\<close>

lemma heap_leaf_mmu: "heap_leaf t x = heap_leaf s x \<Longrightarrow> mmu (mem t) (cr3 t) x = mmu (mem s) (cr3 s) x"
  by (simp add: mmu_def heap_leaf_def)

text \<open>The state after \<^verbatim>\<open>heap_init\<close>, which has mapped the first heap page at most.\<close>

lemma boot_heap:
  assumes pg: "heap_paged lv s" and none: "heap_mapped s = {}" "heap_leaf s VM_SCRATCH_BASE = None" and room: "16404 \<le> card (pmm_avail (pmm s))"
    and av: "\<forall>pa \<in> pmm_avail (pmm s). unat pa < 2 ^ 30 \<and> mmu (mem s) (cr3 s) pa = Some pa \<and> frame_clear ke (pmm s) pa"
    and f: "vm_faults s = 0"
  obtains s' lv' where "heap_init_vm code r s = Some (0, VM_HEAP_BASE, VM_HEAP_BASE + VM_HEAP_SIZE, s')" "heap_paged lv' s'"
    "heap_wf (kheap s') [(True, 0xFFFFF0)]" "heap_mapped s' \<subseteq> {VM_HEAP_BASE}" "heap_leaf s' VM_SCRATCH_BASE = None"
    "4 * card (heap_pages - heap_mapped s') + 20 \<le> card (pmm_avail (pmm s'))" "512 \<le> card (pmm_avail (pmm s'))"
    "\<forall>pa \<in> pmm_avail (pmm s'). mmu (mem s') (cr3 s') pa = Some pa \<and> frame_clear ke (pmm s') pa"
    "unat (vm_faults s') \<le> 1" "vm_rest s' = vm_rest s" "cr3 s' = cr3 s"
proof -
  have bk: "heap_backed s" using pg none(1) room card_heap_pages by (auto simp: heap_backed_def)
  have u: "hpage VM_HEAP_BASE \<in> {VM_HEAP_BASE}" by (simp add: hpage_low)
  obtain s' where s': "heap_init_vm code r s = Some (0, VM_HEAP_BASE, VM_HEAP_BASE + VM_HEAP_SIZE, s')" "vm_heap_fresh s'"
    "heap_sim {VM_HEAP_BASE} s (hmem (snd (heap_init (kheap s)))) s'" by (rule heap_init_vm_sim [OF bk u])
  note d = s'(3) [unfolded heap_sim_def none(1)]
  obtain lv' where lv': "heap_paged lv' s'" using s'(2) by (auto simp: vm_heap_fresh_def heap_backed_def)
  have m: "heap_mapped s' \<subseteq> {VM_HEAP_BASE}" and only: "heap_only s s'" "only_vm s s'" using d by simp_all
  have "card (heap_mapped s') \<le> 1" using card_mono [OF _ m] by simp
  then have fl: "unat (vm_faults s') \<le> 1" using d f by (simp add: unat_of_nat_u64)
  have c: "card (pmm_avail (pmm s)) + 4 * card (heap_pages - heap_mapped s') \<le> card (pmm_avail (pmm s')) + 4 * card heap_pages"
    using d by simp
  have "card heap_pages \<le> card (heap_pages - heap_mapped s') + card (heap_mapped s')"
    using diff_card_le_card_Diff [of "heap_mapped s'" heap_pages] by simp
  with c room \<open>card (heap_mapped s') \<le> 1\<close> card_heap_pages
  have n: "4 * card (heap_pages - heap_mapped s') + 20 \<le> card (pmm_avail (pmm s'))" "512 \<le> card (pmm_avail (pmm s'))" by linarith+
  have st: "pmm_avail (pmm s') \<subseteq> pmm_avail (pmm s)" "pmm_static (pmm s') = pmm_static (pmm s)"
    "\<And>x. canonical x \<Longrightarrow> \<not> heap_addr x \<Longrightarrow> heap_leaf s' x = heap_leaf s x" using only(1) by (auto simp: heap_only_def)
  have "frame_clear ke (pmm s') = frame_clear ke (pmm s)" using st(2) by (simp add: frame_clear_def pmm_static_def fun_eq_iff)
  moreover have "mmu (mem s') (cr3 s') pa = Some pa" if "pa \<in> pmm_avail (pmm s')" for pa
    using that st(1) av heap_leaf_mmu [OF st(3)] boot_places(1) [of pa] by (metis subsetD)
  ultimately have a: "\<forall>pa \<in> pmm_avail (pmm s'). mmu (mem s') (cr3 s') pa = Some pa \<and> frame_clear ke (pmm s') pa" using st(1) av by auto
  have w: "heap_wf (kheap s') [(True, 0xFFFFF0)]" using s'(2) by (simp add: vm_heap_fresh_def)
  have sc: "heap_leaf s' VM_SCRATCH_BASE = None" using st(3) [OF boot_places(2,3)] none(2) by simp
  show thesis by (rule that [OF s'(1) lv' w m sc n a fl vm_rest_only [OF only(2)] only_vm_fields(2) [OF only(2)]])
qed

text \<open>The value that the paging test leaves in the last page lies inside the payload of the one free block.\<close>

lemma last_page_fresh:
  assumes wf: "heap_wf (kheap s) [(True, 0xFFFFF0)]" and v: "\<forall>x. heap_addr x \<longrightarrow> heap_view t x = wr64 (heap_view s) last_page v x"
  shows "heap_wf (kheap t) [(True, 0xFFFFF0)]"
proof -
  have u: "unat last_page = HB + 0xFFF000" by (simp add: HB_def VM_HEAP_BASE_def VM_HEAP_SIZE_def VM_PAGE_SIZE_def)
  have "writes_in (heap_view s) (wr64 (heap_view s) last_page v) (HB + 16) (HB + 16 + 0xFFFFF0)"
    by (rule wr_writes_in(2) [of _ _ 8]) (use u HB_HE(1,2) in simp_all)
  then have "heap_wf (kheap s\<lparr>hmem := wr64 (heap_view s) last_page v\<rparr>) [(True, 0xFFFFF0)]"
    using payload_wf [where s = "kheap s" and xs = "[]" and f = True and n = "0xFFFFF0" and ys = "[]"] wf by simp
  from heap_wf_view [OF this, of t] v show ?thesis by (simp add: kheap_def)
qed

text \<open>The three self tests and the greeting, from the state that the memory managers and the device set-up leave.\<close>

lemma kmain_tests_runs:
  fixes s :: kernel
  assumes pg: "heap_paged lv s" and wf: "heap_wf (kheap s) [(True, 0xFFFFF0)]" and m: "heap_mapped s \<subseteq> {VM_HEAP_BASE}"
    and sc: "heap_leaf s VM_SCRATCH_BASE = None"
    and room: "4 * card (heap_pages - heap_mapped s) + 20 \<le> card (pmm_avail (pmm s))" "512 \<le> card (pmm_avail (pmm s))"
    and av: "\<forall>pa \<in> pmm_avail (pmm s). mmu (mem s) (cr3 s) pa = Some pa \<and> frame_clear (pmm_align_up_4k bss_end) (pmm s) pa"
    and bss: "0x100000 \<le> pmm_align_up_4k bss_end" and f: "unat (vm_faults s) \<le> 1"
    and ks: "vm_kernel_space_ptr s = cr3 s" "pte_frame (cr3 s) = cr3 s"
  obtains s' where "kmain_tests code r bss_end VM_HEAP_BASE (VM_HEAP_BASE + VM_HEAP_SIZE) s = Some (Main_loop s')" "heap_backed s'"
    "heap_wf (kheap s') blocks_full" "vm_rest s' = vm_rest s"
proof -
  note d = heap_pagedD [OF pg]
  have av': "\<forall>pa \<in> pmm_avail (pmm s). mmu (mem s) (cr3 s) pa = Some pa" "\<forall>pa \<in> pmm_avail (pmm s). frame_clear (pmm_align_up_4k bss_end) (pmm s) pa"
    using av by simp_all
  obtain mm p c where t: "pmm_self_test code r bss_end s = Some (0, s\<lparr>mem := mm, pmm := p, con := c\<rparr>)" "pmm_inv p" "pmm_avail p = pmm_avail (pmm s)"
    "\<forall>x. x AND NOT 4095 \<notin> pmm_avail (pmm s) \<longrightarrow> mm x = mem s x" by (rule pmm_self_test_runs [OF d(1,2) room(2) av' bss])
  define s1 where "s1 = s\<lparr>mem := mm, pmm := p, con := c\<rparr>"
  note K = pmm_test_keeps [OF pg t(4) t(2,3) s1_def]
  have r1: "sys_rest s1 = sys_rest s" "cr3 s1 = cr3 s" "vm_faults s1 = vm_faults s" "vm_kernel_space_ptr s1 = vm_kernel_space_ptr s" by (simp_all add: s1_def sys_rest_def)
  have wf1: "heap_wf (kheap s1) [(True, 0xFFFFF0)]" using heap_wf_view [OF wf, of s1] K(4) by (simp add: kheap_def heap_of_def)
  have ks1: "vm_kernel_space_ptr s1 = cr3 s1" "pte_frame (cr3 s1) = cr3 s1" using ks r1 by simp_all
  have sc1: "mmu_leaf (mem s1) 4 (cr3 s1) VM_SCRATCH_BASE = None" using sc K(2) ks1(2) by (metis heap_leaf_def)
  have un: "last_page \<notin> heap_mapped s1" "VM_HEAP_BASE + 4096 \<notin> insert last_page (heap_mapped s1)"
    using m K(3) by (auto simp: VM_HEAP_BASE_def VM_HEAP_SIZE_def VM_PAGE_SIZE_def)
  have av1: "4 * card (heap_pages - heap_mapped s1) + 20 \<le> card (pmm_avail (pmm s1))" using room(1) t(3) K(3) by (simp add: s1_def)
  obtain s2 lv2 where v: "vm_self_test code r s1 = Some (0, s2)" "heap_paged lv2 s2" "4 * card (heap_pages - heap_mapped s2) \<le> card (pmm_avail (pmm s2))"
    "heap_mapped s2 = insert last_page (heap_mapped s1)" "\<forall>x. heap_addr x \<longrightarrow> heap_view s2 x = wr64 (heap_view s1) last_page 0x5A5A5A5A5A5A5A5A x"
    "vm_faults s2 = vm_faults s1 + 1" "cr3 s2 = cr3 s1" "vm_rest s2 = vm_rest s1" by (rule vm_self_test_runs [OF K(1) ks1 sc1 un(1) av1])
  have fresh: "vm_heap_fresh s2" using last_page_fresh [OF wf1 v(5)] v(2,3) by (auto simp: vm_heap_fresh_def heap_backed_def)
  have "unat (vm_faults s2) = unat (vm_faults s) + 1" unfolding v(6) r1(3) using f by (subst unat_u64_add) simp_all
  then have f2: "unat (vm_faults s2) < 2 ^ 63" using f by simp
  obtain s3 where h: "heap_self_test code r VM_HEAP_BASE (VM_HEAP_BASE + VM_HEAP_SIZE) s2 = Some (Inr (0, s3))" "heap_backed s3"
    "heap_wf (kheap s3) blocks_full" "vm_rest s3 = vm_rest s2" by (rule heap_self_test_runs [OF fresh un(2) [folded v(4)] f2])
  define s4 where "s4 = puts (''This is 8GodOS'' @ nl) (puts (''Hello, kernel!'' @ nl) s3)"
  have "kmain_tests code r bss_end VM_HEAP_BASE (VM_HEAP_BASE + VM_HEAP_SIZE) s = Some (Main_loop s4)"
    unfolding kmain_tests_def using t(1) v(1) h(1) by (simp add: s4_def s1_def m6_trigger_def M6_CASE_def del: append.simps)
  moreover obtain c4 where c4: "s4 = s3\<lparr>con := c4\<rparr>" by (simp add: s4_def puts_def)
  moreover have "vm_rest s4 = vm_rest s3" by (rule vm_rest_sys) (simp add: c4)
  moreover have "vm_rest s3 = vm_rest s" using h(4) v(8) vm_rest_sys [OF r1(1)] by simp
  ultimately show thesis using that [of s4] h(2,3) by simp
qed

section \<open>The boot sequence\<close>

lemma rest_fields:
  "vm_rest s' = vm_rest s \<Longrightarrow> irq_handlers s' = irq_handlers s \<and> idt s' = idt s \<and> idtr_limit s' = idtr_limit s \<and>
     idtr_base s' = idtr_base s \<and> kb s' = kb s" for s s' :: kernel
proof -
  have "irq_handlers (vm_rest s) = irq_handlers s" "idt (vm_rest s) = idt s" "idtr_limit (vm_rest s) = idtr_limit s"
    "idtr_base (vm_rest s) = idtr_base s" "kb (vm_rest s) = kb s" for s :: kernel by (simp_all add: vm_rest_def sys_rest_def)
  then show "vm_rest s' = vm_rest s \<Longrightarrow> irq_handlers s' = irq_handlers s \<and> idt s' = idt s \<and> idtr_limit s' = idtr_limit s \<and>
     idtr_base s' = idtr_base s \<and> kb s' = kb s" by metis
qed

text \<open>The device set-up touches the controllers and the handler table only.\<close>

lemma devices_fields:
  assumes "t = s\<lparr>con := c, irq_handlers := h\<rparr>"
  shows "heap_paged lv t = heap_paged lv s" "kheap t = kheap s" "heap_mapped t = heap_mapped s" "heap_leaf t = heap_leaf s" "mem t = mem s"
    "cr3 t = cr3 s" "pmm t = pmm s" "vm_faults t = vm_faults s" "vm_kernel_space_ptr t = vm_kernel_space_ptr s"
  by (simp_all add: assms heap_paged_def vm_wf_def heap_leaf_def heap_mapped_def kheap_def heap_of_def heap_view_def fun_eq_iff split: option.split)

definition boot_info :: "u64 \<Rightarrow> mb2_tag list \<Rightarrow> 'a sys_scheme \<Rightarrow> bool" where
  "boot_info mb_info ts s \<longleftrightarrow> mb_info \<noteq> 0 \<and> info_apart mb_info s \<and> 0 < rd32 (mem s) mb_info \<and> rd32 (mem s) mb_info \<le> 0x100000 \<and>
     tags_at (mem s) (mb_info + ucast (rd32 (mem s) mb_info)) (mb_info + 8) ts \<and> length (usable_ranges ts) \<le> 32"

lemma kmain_start:
  fixes s :: kernel
  assumes "length (idt s) = 256" "pte_frame (cr3 s) = cr3 s"
  obtains s' where "vm_init (idt_init tbl idt_addr (s\<lparr>con := c\<rparr>)) = (0, s')" "mem s' = mem s" "cr3 s' = cr3 s" "pmm s' = pmm s"
    "vm_faults s' = 0" "\<not> vm_in_fault s'" "vm_kernel_space_ptr s' = cr3 s" "irq_handlers s' = irq_handlers s" "kb s' = kb s"
    "\<forall>i < 256. gate_of (idt s' ! i) = (if i < 48 then Some (0x08, tbl i, 14) else None)" "idtr_limit s' = 0xFFF" "idtr_base s' = idt_addr"
proof -
  have len: "length (idt (s\<lparr>con := c\<rparr>)) = 256" using assms(1) by simp
  obtain g where g: "idt_init tbl idt_addr (s\<lparr>con := c\<rparr>) = s\<lparr>con := c\<rparr>\<lparr>idt := g, idtr_limit := 0xFFF, idtr_base := idt_addr\<rparr>" "length g = 256"
    "\<forall>i < 256. gate_of (g ! i) = (if i < 48 then Some (0x08, tbl i, 14) else None)" by (rule idt_init_runs [OF len])
  show thesis
    by (rule that [OF vm_init_def [of "idt_init tbl idt_addr (s\<lparr>con := c\<rparr>)"]])
      (use g assms(2) in \<open>simp_all add: read_cr3_def VM_ADDR_MASK_def pte_frame_def\<close>)
qed

lemma kmain_runs:
  fixes s :: kernel
  assumes img: "boot_image lv bss_end s" and inf: "boot_info mb_info ts s"
    and room: "16404 \<le> card (boot_free bss_end mb_info (usable_ranges ts) s)" and bm: "length (pmm_bitmap (pmm s)) = unat PMM_BITMAP_BYTES"
    and st: "length (idt s) = 256" "kb_addr \<noteq> 0"
  obtains s' where "kmain kb_addr dev tbl idt_addr bss_end r mb_info s = Some (Main_loop s')" "kb_ready kb_addr s'" "kb s' = kb s"
    "\<forall>i < 256. gate_of (idt s' ! i) = (if i < 48 then Some (0x08, tbl i, 14) else None)" "idtr_limit s' = 0xFFF" "idtr_base s' = idt_addr"
    "heap_backed s'" "heap_wf (kheap s') blocks_full"
proof -
  let ?code = "kcode kb_addr dev"
  have cr: "pte_frame (cr3 s) = cr3 s" using img by (simp add: boot_image_def)
  obtain s2 where e2: "vm_init (idt_init tbl idt_addr (s\<lparr>con := vga_clear dev (con s)\<rparr>)) = (0, s2)"
    and f2: "mem s2 = mem s" "cr3 s2 = cr3 s" "pmm s2 = pmm s" "vm_faults s2 = 0" "\<not> vm_in_fault s2" "vm_kernel_space_ptr s2 = cr3 s"
      "irq_handlers s2 = irq_handlers s" "kb s2 = kb s"
      "\<forall>i < 256. gate_of (idt s2 ! i) = (if i < 48 then Some (0x08, tbl i, 14) else None)" "idtr_limit s2 = 0xFFF" "idtr_base s2 = idt_addr"
    by (rule kmain_start [OF st(1) cr])
  have img2: "boot_image lv bss_end s2" using img by (simp add: boot_image_def f2)
  have inf2: "mb_info \<noteq> 0" "info_apart mb_info s2" "0 < rd32 (mem s2) mb_info" "rd32 (mem s2) mb_info \<le> 0x100000"
    "tags_at (mem s2) (mb_info + ucast (rd32 (mem s2) mb_info)) (mb_info + 8) ts" "length (usable_ranges ts) \<le> 32"
    using inf by (simp_all add: boot_info_def info_apart_def f2)
  have bm2: "length (pmm_bitmap (pmm s2)) = unat PMM_BITMAP_BYTES" using bm by (simp add: f2)
  obtain s3 where s3: "pmm_init bss_end mb_info s2 = Some (0, s3)" "heap_paged lv s3" "heap_mapped s3 = {}"
    "pmm_free_set (pmm s3) = boot_free bss_end mb_info (usable_ranges ts) s2" "heap_leaf s3 VM_SCRATCH_BASE = None"
    "\<forall>pa \<in> pmm_avail (pmm s3). unat pa < 2 ^ 30 \<and> mmu (mem s3) (cr3 s3) pa = Some pa \<and> frame_clear (pmm_align_up_4k bss_end) (pmm s3) pa"
    "cr3 s3 = cr3 s2" "sys_rest s3 = sys_rest s2" by (rule boot_memory [OF img2 inf2 bm2 f2(5)])
  have room3: "16404 \<le> card (pmm_avail (pmm s3))" using room unfolding card_avail s3(4) by (simp add: boot_free_def f2)
  have fl3: "vm_faults s3 = 0" using sys_rest_faults [OF s3(8)] f2(4) by simp
  obtain s4 lv4 where s4: "heap_init_vm ?code r s3 = Some (0, VM_HEAP_BASE, VM_HEAP_BASE + VM_HEAP_SIZE, s4)" "heap_paged lv4 s4"
    "heap_wf (kheap s4) [(True, 0xFFFFF0)]" "heap_mapped s4 \<subseteq> {VM_HEAP_BASE}" "heap_leaf s4 VM_SCRATCH_BASE = None"
    "4 * card (heap_pages - heap_mapped s4) + 20 \<le> card (pmm_avail (pmm s4))" "512 \<le> card (pmm_avail (pmm s4))"
    "\<forall>pa \<in> pmm_avail (pmm s4). mmu (mem s4) (cr3 s4) pa = Some pa \<and> frame_clear (pmm_align_up_4k bss_end) (pmm s4) pa"
    "unat (vm_faults s4) \<le> 1" "vm_rest s4 = vm_rest s3" "cr3 s4 = cr3 s3" by (rule boot_heap [OF s3(2,3,5) room3 s3(6) fl3])
  have r4: "vm_rest s4 = vm_rest s2" using s4(10) vm_rest_sys [OF s3(8)] by simp
  define s5 where "s5 = kmain_devices kb_addr dev s4"
  note s5 = s5_def [unfolded kmain_devices_eq]
  note F = devices_fields [OF s5]
  have ks5: "vm_kernel_space_ptr s5 = cr3 s5" "pte_frame (cr3 s5) = cr3 s5"
    using conjunct1 [OF vm_rest_fields [OF r4]] s4(11) s3(7) cr by (simp_all add: F f2)
  have "0x100000 \<le> unat bss_end" "unat (pmm_align_up_4k bss_end) = (unat bss_end + 4095) div 4096 * 4096"
    using img align_up_nat [of bss_end] by (simp_all add: boot_image_def)
  then have "0x100000 \<le> unat (pmm_align_up_4k bss_end)" by linarith
  then have bss: "0x100000 \<le> pmm_align_up_4k bss_end" by (simp add: word_le_nat_alt)
  obtain s6 where s6: "kmain_tests ?code r bss_end VM_HEAP_BASE (VM_HEAP_BASE + VM_HEAP_SIZE) s5 = Some (Main_loop s6)" "heap_backed s6"
    "heap_wf (kheap s6) blocks_full" "vm_rest s6 = vm_rest s5"
    by (rule kmain_tests_runs [where s = s5 and lv = lv4, unfolded F, OF s4(2-8) bss s4(9) ks5 [unfolded F]])
  have "kmain kb_addr dev tbl idt_addr bss_end r mb_info s = Some (Main_loop s6)"
    unfolding kmain_def Let_def e2 using s3(1) s4(1) s6(1) by (simp add: s5_def [symmetric])
  moreover note R = rest_fields [OF s6(4)] rest_fields [OF r4]
  moreover have "irq_handlers s5 = (irq_handlers s4)(1 := kb_addr)" "idt s5 = idt s4" "idtr_limit s5 = idtr_limit s4" "idtr_base s5 = idtr_base s4"
    "kb s5 = kb s4" by (simp_all add: s5)
  moreover from calculation have "kb_ready kb_addr s6" using st(2) by (simp add: kb_ready_def)
  ultimately show thesis using that [of s6] s6(2,3) f2(8-11) by simp
qed

text \<open>Every other setting of the switch ends in the exception report, as the comment on it says, if nothing is mapped at 1GB.\<close>

lemma m6_trigger_halts:
  assumes n: "1 \<le> n" "n \<le> 4" and free: "mmu (mem s) (cr3 s) 0x40000000 = None"
  shows "\<exists>c a. m6_trigger n code r s = Halt (s\<lparr>con := c, cr2 := a\<rparr>)"
proof -
  have h: "\<exists>c. isr_handler code r s = Halt (s\<lparr>con := c\<rparr>)" if "vector r < 32" "vector r \<noteq> 14 \<or> \<not> heap_addr (cr2 s)" for r s
    by (rule exI, rule isr_handler_halts) (use that in \<open>auto simp: fault_in_scope_def\<close>)
  have same: "\<exists>d a. s\<lparr>con := c\<rparr> = s\<lparr>con := d, cr2 := a\<rparr>" for c by (rule exI [of _ c], rule exI [of _ "cr2 s"]) simp
  consider "n = 1" | "n = 2" | "n = 3" | "n = 4" using n by linarith
  then show ?thesis
  proof cases
    case 4
    have "\<not> heap_addr 0x40000000" by (simp add: heap_addr_def VM_HEAP_BASE_def)
    with h [of "r\<lparr>vector := 14, error_code := 0\<rparr>" "s\<lparr>cr2 := 0x40000000\<rparr>"] obtain c where
      "isr_handler code (r\<lparr>vector := 14, error_code := 0\<rparr>) (s\<lparr>cr2 := 0x40000000\<rparr>) = Halt (s\<lparr>cr2 := 0x40000000\<rparr>\<lparr>con := c\<rparr>)" by auto
    moreover have "s\<lparr>cr2 := 0x40000000\<rparr>\<lparr>con := c\<rparr> = s\<lparr>con := c, cr2 := 0x40000000\<rparr>" by (cases s) simp
    ultimately show ?thesis using 4 free by (auto simp: m6_trigger_def)
  qed (use h [of "r\<lparr>vector := 0, error_code := 0\<rparr>" s] h [of "r\<lparr>vector := 6, error_code := 0\<rparr>" s]
      h [of "r\<lparr>vector := 13, error_code := 0x30\<rparr>" s] in \<open>auto simp: m6_trigger_def same\<close>)
qed

text \<open>From there the main loop runs on an empty keyboard buffer, and the self test has left no free byte in the heap.\<close>

lemma kmain_boots:
  fixes s :: kernel
  assumes "boot_image lv bss_end s" and "boot_info mb_info ts s"
    and "16404 \<le> card (boot_free bss_end mb_info (usable_ranges ts) s)" and "length (pmm_bitmap (pmm s)) = unat PMM_BITMAP_BYTES"
    and "length (idt s) = 256" and "kb_addr \<noteq> 0" and "kb s = kb_reset"
  shows "\<exists>s'. kmain kb_addr dev tbl idt_addr bss_end r mb_info s = Some (Main_loop s') \<and> kb_ready kb_addr s' \<and> kb s' = kb_reset \<and>
    (\<forall>i < 256. gate_of (idt s' ! i) = (if i < 48 then Some (0x08, tbl i, 14) else None)) \<and>
    idtr_limit s' = 0xFFF \<and> idtr_base s' = idt_addr \<and>
    (\<forall>x. (main_step kb_addr)\<^sup>*\<^sup>* (main_start s') x \<longrightarrow> buffered x = printed x @ in_flight (mpc x) @ kb_items (kb (kst x))) \<and>
    (\<forall>n. \<exists>s''. kmalloc_k (kcode kb_addr dev) r n s' = Some (Inr (0, s'')))"
proof -
  obtain s' where s': "kmain kb_addr dev tbl idt_addr bss_end r mb_info s = Some (Main_loop s')" "kb_ready kb_addr s'" "kb s' = kb s"
    "\<forall>i < 256. gate_of (idt s' ! i) = (if i < 48 then Some (0x08, tbl i, 14) else None)" "idtr_limit s' = 0xFFF" "idtr_base s' = idt_addr"
    "heap_backed s'" "heap_wf (kheap s') blocks_full" by (rule kmain_runs [OF assms(1-6)])
  have kb: "kb s' = kb_reset" using s'(3) assms(7) by simp
  have "kmalloc_fit n blocks_full = None" for n by (simp add: kmalloc_fit_def first_fit_None)
  then have full: "\<exists>s''. kmalloc_k (kcode kb_addr dev) r n s' = Some (Inr (0, s''))" for n
    using heap_now_alloc(1) [OF heap_now_refl [OF s'(7,8)], of n UNIV "kcode kb_addr dev" r] by auto
  have loop: "buffered x = printed x @ in_flight (mpc x) @ kb_items (kb (kst x))" if "(main_step kb_addr)\<^sup>*\<^sup>* (main_start s') x" for x
    using main_reach_inv [OF s'(2) kb that] by (simp add: main_inv_def)
  show ?thesis by (intro exI [of _ s'] conjI) (use s'(1,2) kb s'(4-6) loop full in blast)+
qed

end
