(* ===== verification/Start.thy ===== *)
theory Start
  imports Boot
begin

text \<open>
  The path from the boot loader to \<^verbatim>\<open>kmain\<close> (\<^verbatim>\<open>src/src/boot.asm\<close>): the checks of \<^verbatim>\<open>_start\<close>, the first page tables, and the clearing of
  \<^verbatim>\<open>.bss\<close> by \<^verbatim>\<open>_start64\<close>, which already runs under paging.  Segments, stacks and the mode bits of the control registers are
  left out; what counts for the C code is the memory, \<^verbatim>\<open>CR3\<close> and the values of the static variables.
\<close>

section \<open>The code\<close>

text \<open>
  The checks: the magic number of the loader in \<^verbatim>\<open>EAX\<close>, the ID flag that only sticks if the processor has \<^verbatim>\<open>CPUID\<close>, the extended
  leaf, and the bit of long mode.  \<^verbatim>\<open>popf\<close> gives the flags after \<^verbatim>\<open>popfd\<close> of a value, \<^verbatim>\<open>cpuid\<close> the registers \<^verbatim>\<open>EAX\<close> and \<^verbatim>\<open>EDX\<close> for a leaf.
\<close>

definition start_checks :: "u32 \<Rightarrow> u32 \<Rightarrow> (u32 \<Rightarrow> u32) \<Rightarrow> (u32 \<Rightarrow> u32 \<times> u32) \<Rightarrow> bool" where
  "start_checks eax flags popf cpuid \<longleftrightarrow>
     eax = 0x36D76289 \<and> popf (flags XOR 0x200000) XOR flags \<noteq> 0 \<and>
     \<not> fst (cpuid 0x80000000) < 0x80000001 \<and> snd (cpuid 0x80000001) AND 0x20000000 \<noteq> 0"

fun stosd :: "u64 \<Rightarrow> nat \<Rightarrow> bytes \<Rightarrow> bytes" where
  "stosd edi 0 m = m"
| "stosd edi (Suc n) m = stosd (edi + 4) n (wr32 m edi 0)"

text \<open>The three tables lie one behind the other.  Paging is still off.\<close>

definition start_tables :: "u64 \<Rightarrow> bytes \<Rightarrow> bytes" where
  "start_tables pml4 m =
     (let pdpt = pml4 + 4096;
          pd = pdpt + 4096;
          m1 = stosd pml4 3072 m;
          m2 = wr32 m1 pml4 (ucast pdpt OR 3);
          m3 = wr32 m2 pdpt (ucast pd OR 3)
      in wr32 m3 pd 0x83)"

text \<open>\<^verbatim>\<open>rep stosb\<close> under paging; without a gate a page fault resets the machine: \<^verbatim>\<open>None\<close>.\<close>

fun stosb :: "u64 \<Rightarrow> u64 \<Rightarrow> nat \<Rightarrow> bytes \<Rightarrow> bytes option" where
  "stosb root dst 0 m = Some m"
| "stosb root dst (Suc n) m = (case mmu m root dst of None \<Rightarrow> None | Some pa \<Rightarrow> stosb root (dst + 1) n (m(pa := 0)))"

text \<open>The static variables as the loader and the clearing of \<^verbatim>\<open>.bss\<close> leave them; only the colour of the terminal has an initial value.\<close>

definition statics :: "'a kernel_scheme \<Rightarrow> 'a kernel_scheme" where
  "statics s = s\<lparr>con := (con s)\<lparr>vga_row := 0, vga_col := 0, vga_color := 0x07\<rparr>,
     pmm := \<lparr>pmm_bitmap = replicate 32768 0, pmm_free_frames = 0, pmm_hint = 0, pmm_mb_info = 0, pmm_info_end = 0, pmm_max_end = 0\<rparr>,
     vm_kernel_space_ptr := 0, vm_faults := 0, vm_in_fault := False, irq_handlers := (\<lambda>i. if i < 16 then 0 else irq_handlers s i),
     idt := replicate 256 \<lparr>offset_low = 0, selector = 0, ist = 0, type_attr = 0, offset_mid = 0, offset_high = 0, zero_field = 0\<rparr>,
     kb := \<lparr>kb_buf = replicate 64 0, kb_head = 0, kb_tail = 0, shift_left = False, shift_right = False, e0_prefix = False\<rparr>\<rparr>"

text \<open>\<^verbatim>\<open>None\<close>: the \<^verbatim>\<open>.error\<close> loop, or a reset.\<close>

definition start ::
  "u32 \<Rightarrow> u32 \<Rightarrow> (u32 \<Rightarrow> u32) \<Rightarrow> (u32 \<Rightarrow> u32 \<times> u32) \<Rightarrow> u64 \<Rightarrow> u64 \<Rightarrow> u64 \<Rightarrow> 'a kernel_scheme \<Rightarrow> 'a kernel_scheme option" where
  "start eax flags popf cpuid pml4 bss_start bss_end s =
     (if \<not> start_checks eax flags popf cpuid then None
      else map_option (\<lambda>m. statics (s\<lparr>mem := m, cr3 := pml4, tlb := \<lambda>_. None\<rparr>))
             (stosb pml4 bss_start (unat (bss_end - bss_start)) (start_tables pml4 (mem s))))"

section \<open>The page tables\<close>

lemma stosd_at: "4 * n < 2 ^ 64 \<Longrightarrow> stosd edi n m x = (if unat (x - edi) < 4 * n then 0 else m x)"
proof (induction n arbitrary: edi m)
  case (Suc n)
  have s: "unat (x - (edi + 4)) = (if 4 \<le> unat (x - edi) then unat (x - edi) - 4 else unat (x - edi) + 2 ^ 64 - 4)"
    using unat_sub_if' [of "x - edi" 4] unfolding diff_diff_add by simp
  have w: "wr32 m edi 0 x = (if unat (x - edi) < 4 then 0 else m x)" by (simp add: wr32_def word_less_nat_alt)
  have b: "unat (x - edi) < 2 ^ 64" by (rule unat_u64_bound)
  have "stosd (edi + 4) n (wr32 m edi 0) x = (if unat (x - (edi + 4)) < 4 * n then 0 else wr32 m edi 0 x)" using Suc by simp
  then show ?case using Suc.prems b unfolding w s by (auto split: if_splits)
qed simp

lemma rd64_low:
  assumes "\<forall>k. 4 \<le> k \<and> k < 8 \<longrightarrow> m (t + k) = 0"
  shows "rd64 (wr32 m t v) t = ucast v"
proof -
  have b: "wr32 m t v (t + k) = wr64 m t (ucast v) (t + k)" if "k < 8" for k
  proof (cases "k < 4")
    case True
    have "(ucast (drop_bit (8 * unat k) v) :: u8) = ucast (drop_bit (8 * unat k) (ucast v :: u64))"
      using True by (intro bit_word_eqI) (auto simp: bit_ucast_iff bit_drop_bit_eq word_less_nat_alt)
    then show ?thesis using True that by (simp add: wr32_def wr64_def)
  next
    case False
    then have "4 \<le> unat k" using that by (simp add: word_less_nat_alt)
    then have "(ucast (drop_bit (8 * unat k) (ucast v :: u64)) :: u8) = 0"
      by (intro bit_word_eqI) (auto simp: bit_ucast_iff bit_drop_bit_eq dest!: bit_imp_le_length)
    moreover have "m (t + k) = 0" using assms False that by (simp add: not_less)
    ultimately show ?thesis using False that by (simp add: wr32_def wr64_def)
  qed
  have "rd64 (wr32 m t v) t = rd64 (wr64 m t (ucast v)) t" by (rule rd64_cong) (rule b)
  then show ?thesis by simp
qed

text \<open>The linker script: the image starts at 1MB, tables and stack come before \<^verbatim>\<open>.bss\<close>, and all of it lies in the 2MB that are mapped.\<close>

definition image_layout :: "u64 \<Rightarrow> u64 \<Rightarrow> u64 \<Rightarrow> bool" where
  "image_layout pml4 bss_start bss_end \<longleftrightarrow> 0x100000 \<le> unat pml4 \<and> pml4 AND 4095 = 0 \<and> unat pml4 + 0x7000 \<le> unat bss_start \<and>
     unat bss_start \<le> unat bss_end \<and> unat bss_end \<le> 0x200000"

lemma layout_tables:
  assumes "image_layout pml4 bss_start bss_end"
  shows "unat (pml4 + 4096) = unat pml4 + 4096" "unat (pml4 + 8192) = unat pml4 + 8192" "(pml4 + 4096) AND 4095 = 0" "(pml4 + 8192) AND 4095 = 0"
    "is_frame pml4" "is_frame (pml4 + 4096)" "is_frame (pml4 + 8192)" "pml4 AND 4095 = 0" "unat pml4 + 0x3000 \<le> 0x200000"
proof -
  have l: "0x100000 \<le> unat pml4" "pml4 AND 4095 = 0" "unat pml4 + 0x7000 \<le> 0x200000" using assms by (auto simp: image_layout_def)
  show u: "unat (pml4 + 4096) = unat pml4 + 4096" "unat (pml4 + 8192) = unat pml4 + 8192" using l(3) by (simp_all add: unat_u64_add)
  have d: "4096 dvd unat pml4" using l(2) by (simp add: aligned4096_iff)
  show al: "(pml4 + 4096) AND 4095 = 0" "(pml4 + 8192) AND 4095 = 0" unfolding aligned4096_iff u using d by (simp_all add: dvd_add)
  show "pml4 AND 4095 = 0" by (rule l(2))
  show "is_frame pml4" "is_frame (pml4 + 4096)" "is_frame (pml4 + 8192)"
    unfolding is_frame_def using l u al by (auto simp: PMM_MAX_PHYS_def word_less_nat_alt unat_eq_zero)
  show "unat pml4 + 0x3000 \<le> 0x200000" using l(3) by simp
qed

definition table_entry :: "u64 \<Rightarrow> u64 \<Rightarrow> u32" where
  "table_entry pml4 t = (if t = pml4 then ucast (pml4 + 4096) OR 3 else if t = pml4 + 4096 then ucast (pml4 + 8192) OR 3 else 0x83)"

text \<open>Each table is zero but for its first entry.\<close>

lemma start_tables_page:
  assumes lay: "image_layout pml4 bss_start bss_end" and t: "t \<in> {pml4, pml4 + 4096, pml4 + 8192}" and x: "x AND NOT 4095 = t"
  shows "start_tables pml4 m x = wr32 (\<lambda>_. 0) t (table_entry pml4 t) x"
proof -
  note L = layout_tables [OF lay]
  have other: "\<not> x - u < 4" if "u AND 4095 = 0" "t \<noteq> u" for u
  proof -
    have "\<not> x - u < 4096" using page_of_iff [OF that(1), of x] x that(2) by blast
    then show ?thesis by (auto simp: word_less_nat_alt)
  qed
  have ne: "pml4 \<noteq> pml4 + 4096" "pml4 \<noteq> pml4 + 8192" "pml4 + 4096 \<noteq> pml4 + 8192" by simp_all
  have al: "t AND 4095 = 0" using t L(3,4,8) by auto
  have xt: "unat (x - t) < 4096" using page_of_iff [OF al, of x] x by (simp add: word_less_nat_alt)
  have "unat (x - pml4) < 12288"
  proof -
    have d: "t - pml4 \<in> {0, 4096, 8192}" using t by auto
    have "x - pml4 = (x - t) + (t - pml4)" by simp
    moreover have "unat ((x - t) + (t - pml4)) = unat (x - t) + unat (t - pml4)" using xt d by (subst unat_u64_add) auto
    ultimately show ?thesis using xt d by auto
  qed
  then have z: "stosd pml4 3072 m x = 0" by (simp add: stosd_at)
  show ?thesis
    using t other [OF L(8)] other [OF L(3)] other [OF L(4)] ne z
    by (auto simp: start_tables_def wr32_def table_entry_def Let_def add.assoc)
qed

lemma start_tables_slot:
  assumes lay: "image_layout pml4 bss_start bss_end" and t: "t \<in> {pml4, pml4 + 4096, pml4 + 8192}" and i: "i < 512"
  shows "rd64 (start_tables pml4 m) (slot t i) = (if i = 0 then ucast (table_entry pml4 t) else 0)"
proof -
  have al: "t AND 4095 = 0" using t layout_tables [OF lay] by auto
  let ?m = "wr32 (\<lambda>_. 0) t (table_entry pml4 t)"
  have "rd64 (start_tables pml4 m) (slot t i) = rd64 ?m (slot t i)"
    by (rule rd64_cong, rule start_tables_page [OF lay t slot_page [OF al i]])
  also have "\<dots> = (if i = 0 then ucast (table_entry pml4 t) else 0)"
  proof (cases "i = 0")
    case True
    then show ?thesis using rd64_low [of "\<lambda>_. 0" t] by (simp add: slot_def)
  next
    case False
    have "rd64 ?m (slot t i) = rd64 (\<lambda>_. 0) (slot t i)"
    proof (rule rd64_cong)
      fix k :: u64 assume k: "k < 8"
      have i1: "1 \<le> unat i" "unat i < 512" using False i by (auto simp: word_less_nat_alt Suc_le_eq unat_gt_0)
      have e: "slot t i + k - t = 8 * i + k" by (simp add: slot_def)
      have "unat (8 * i + k) = 8 * unat i + unat k" using i1 k by (simp add: unat_word_ariths word_less_nat_alt)
      then have "\<not> 8 * i + k < 4" using i1 by (simp add: word_less_nat_alt)
      then show "?m (slot t i + k) = 0" unfolding wr32_def e by simp
    qed
    then show ?thesis using False by (simp add: rd64_def)
  qed
  finally show ?thesis .
qed

definition start_lv :: "u64 \<Rightarrow> u64 \<Rightarrow> nat" where
  "start_lv pml4 = (\<lambda>t. if t = pml4 then 4 else if t = pml4 + 4096 then 3 else if t = pml4 + 8192 then 2 else 0)"

lemma table_entry_bits:
  assumes lay: "image_layout pml4 bss_start bss_end"
  shows "ucast (table_entry pml4 pml4) = (pml4 + 4096) OR (3 :: u64)" "ucast (table_entry pml4 (pml4 + 4096)) = (pml4 + 8192) OR (3 :: u64)"
    "ucast (table_entry pml4 (pml4 + 8192)) = (0x83 :: u64)"
proof -
  note L = layout_tables [OF lay]
  have u: "ucast (ucast x OR 3 :: u32) = x OR (3 :: u64)" if "unat x < 2 ^ 32" for x :: u64
  proof -
    have "take_bit 32 x = x" using that by (simp add: word_unat_eq_iff unsigned_take_bit_eq take_bit_nat_eq_self)
    then have "ucast (ucast x :: u32) = x" by (simp add: unsigned_ucast_eq)
    then show ?thesis by (simp add: unsigned_or_eq)
  qed
  show "ucast (table_entry pml4 pml4) = (pml4 + 4096) OR (3 :: u64)" "ucast (table_entry pml4 (pml4 + 4096)) = (pml4 + 8192) OR (3 :: u64)"
    "ucast (table_entry pml4 (pml4 + 8192)) = (0x83 :: u64)"
    using u L(1,2,9) by (simp_all add: table_entry_def)
qed

lemma start_image:
  assumes lay: "image_layout pml4 bss_start bss_end"
    and m': "\<And>x. x AND NOT 4095 \<in> {pml4, pml4 + 4096, pml4 + 8192} \<Longrightarrow> m' x = start_tables pml4 m x"
  shows "boot_tables m' pml4" "boot_pd m' pml4 = pml4 + 8192" "wf_tables (start_lv pml4) m' {}" "rd64 m' (slot pml4 256) = 0" "pte_frame pml4 = pml4"
proof -
  note L = layout_tables [OF lay]
  let ?a = pml4 and ?b = "pml4 + 4096" and ?c = "pml4 + 8192"
  have rd: "rd64 m' (slot t i) = (if i = 0 then ucast (table_entry pml4 t) else 0)" if "t \<in> {?a, ?b, ?c}" "i < 512" for t i
  proof -
    have al: "t AND 4095 = 0" using that L by auto
    have "rd64 m' (slot t i) = rd64 (start_tables pml4 m) (slot t i)"
      by (rule rd64_cong, rule m') (use slot_page [OF al that(2)] that(1) in simp)
    then show ?thesis using start_tables_slot [OF lay that] by simp
  qed
  have f: "pte_frame 3 = 0" "pte_present 3" "\<not> pte_huge 3" by (simp_all add: pte_frame_def pte_present_def pte_huge_def)
  have fr: "t < PMM_MAX_PHYS \<and> t AND 4095 = 0" if "is_frame t" for t using that by (simp add: is_frame_def)
  have e: "pte_frame (t OR 3) = t" "pte_present (t OR 3)" "\<not> pte_huge (t OR 3)" if "is_frame t" for t
    using frame_entry [of t 3] fr [OF that] f by simp_all
  note v = rd [of ?a] rd [of ?b] rd [of ?c]
  note T = table_entry_bits [OF lay]
  show a: "pte_frame pml4 = pml4" by (rule frame_mask [OF L(5)])
  have pdpt: "boot_pdpt m' pml4 = ?b" using v(1) [of 0] T(1) e(1) [OF L(6)] by (simp add: boot_pdpt_def a)
  show pd: "boot_pd m' pml4 = ?c" using v(2) [of 0] T(2) e(1) [OF L(7)] by (simp add: boot_pd_def pdpt)
  have h: "pte_present 0x83" "pte_huge 0x83" "identity_entry 0x83 0" "\<not> pte_present 0" by (simp_all add: pte_present_def pte_huge_def identity_entry_def)
  show "boot_tables m' pml4" unfolding boot_tables_def pdpt pd a using v T e [OF L(6)] e [OF L(7)] h by simp
  show "rd64 m' (slot pml4 256) = 0" using v(1) [of 256] by simp
  have "child m' ?a i = (if i = 0 then Some ?b else None)" "child m' ?b i = (if i = 0 then Some ?c else None)" "child m' ?c i = None" if "i < 512" for i
    using v [OF _ that] T e [OF L(6)] e [OF L(7)] h by (simp_all add: child_def)
  then show "wf_tables (start_lv pml4) m' {}" unfolding start_lv_def by (intro wf_chain) (use L in simp_all)
qed

lemma page_below: "x AND NOT 4095 \<in> {pml4, pml4 + 4096, pml4 + 8192} \<Longrightarrow> image_layout pml4 bss_start bss_end \<Longrightarrow>
  unat pml4 \<le> unat x \<and> unat x < unat pml4 + 0x3000"
proof -
  assume x: "x AND NOT 4095 \<in> {pml4, pml4 + 4096, pml4 + 8192}" and lay: "image_layout pml4 bss_start bss_end"
  have "unat (x AND NOT 4095) \<in> {unat pml4, unat pml4 + 4096, unat pml4 + 8192}" using x layout_tables(1,2) [OF lay] by auto
  moreover have "unat (x AND NOT 4095) + unat x mod 4096 = unat x" by (simp add: and_not_4095_nat)
  moreover have "unat x mod 4096 < 4096" by simp
  ultimately show ?thesis by auto
qed

lemma start_tables_outside:
  assumes lay: "image_layout pml4 bss_start bss_end" and x: "unat x < unat pml4 \<or> unat pml4 + 0x3000 \<le> unat x"
  shows "start_tables pml4 m x = m x"
proof -
  note L = layout_tables [OF lay]
  have w: "\<not> x - t < 4" if "unat pml4 \<le> unat t" "unat t + 4 \<le> unat pml4 + 0x3000" for t
    using near_unat [of x t 4] that x L(9) by auto
  have "\<not> x - pml4 < 12288" using near_unat [of x pml4 12288] x L(9) by auto
  then have "stosd pml4 3072 m x = m x" by (simp add: stosd_at word_less_nat_alt)
  then show ?thesis using w [of pml4] w [of "pml4 + 4096"] w [of "pml4 + 8192"] L(1,2)
    by (simp add: start_tables_def wr32_def Let_def add.assoc)
qed

text \<open>The clearing of \<^verbatim>\<open>.bss\<close> never faults, and touches nothing else: no table, in particular.\<close>

lemma stosb_runs:
  assumes lay: "image_layout pml4 bss_start bss_end"
  shows "unat bss_start \<le> unat dst \<Longrightarrow> unat dst + n \<le> unat bss_end \<Longrightarrow>
    (\<And>x. x AND NOT 4095 \<in> {pml4, pml4 + 4096, pml4 + 8192} \<Longrightarrow> m' x = start_tables pml4 m x) \<Longrightarrow>
    \<exists>m''. stosb pml4 dst n m' = Some m'' \<and> (\<forall>x. m'' x = (if unat dst \<le> unat x \<and> unat x < unat dst + n then 0 else m' x))"
proof (induction n arbitrary: dst m')
  case (Suc n)
  note I = start_image [OF lay Suc.prems(3)]
  have b: "unat dst < 0x200000" "unat pml4 + 0x3000 \<le> unat dst" using Suc.prems(1,2) lay by (auto simp: image_layout_def)
  have "unat (drop_bit 21 dst) = 0" using b(1) by (simp add: drop_bit_eq_div unat_div_distrib)
  then have "drop_bit 21 dst = 0" by (simp add: word_unat_eq_iff)
  then have "mmu m' pml4 dst = Some dst"
    using I(1) b(1) by (intro mmu_identity) (simp_all add: boot_tables_def PMM_MAX_PHYS_def word_less_nat_alt)
  then have step: "stosb pml4 dst (Suc n) m' = stosb pml4 (dst + 1) n (m'(dst := 0))" by simp
  have u: "unat (dst + 1) = unat dst + 1" using b(1) by (subst unat_u64_add) simp_all
  have "(m'(dst := 0)) x = start_tables pml4 m x" if "x AND NOT 4095 \<in> {pml4, pml4 + 4096, pml4 + 8192}" for x
    using page_below [OF that lay] b(2) Suc.prems(3) [OF that] by auto
  note tab = this
  have "unat bss_start \<le> unat (dst + 1)" "unat (dst + 1) + n \<le> unat bss_end" using Suc.prems(1,2) u by simp_all
  from Suc.IH [OF this tab] obtain m'' where
    "stosb pml4 (dst + 1) n (m'(dst := 0)) = Some m''"
    "\<forall>x. m'' x = (if unat (dst + 1) \<le> unat x \<and> unat x < unat (dst + 1) + n then 0 else (m'(dst := 0)) x)" by blast
  then show ?case unfolding step u by (intro exI [of _ m'']) (auto simp: word_unat_eq_iff)
qed auto

lemma start_runs:
  assumes ch: "start_checks eax flags popf cpuid" and lay: "image_layout pml4 bss_start bss_end"
  obtains s' m where "start eax flags popf cpuid pml4 bss_start bss_end s = Some s'" "s' = statics (s\<lparr>mem := m, cr3 := pml4, tlb := \<lambda>_. None\<rparr>)"
    "boot_image (start_lv pml4) bss_end s'" "\<And>x. unat x < 0x100000 \<or> unat bss_end \<le> unat x \<Longrightarrow> m x = mem s x" "boot_pd m pml4 = pml4 + 8192"
proof -
  have b: "0x100000 \<le> unat pml4" "unat pml4 + 0x7000 \<le> unat bss_start" "unat bss_start \<le> unat bss_end" "unat bss_end \<le> 0x200000"
    using lay by (simp_all add: image_layout_def)
  have n: "unat (bss_end - bss_start) = unat bss_end - unat bss_start" using b(3) by (simp add: unat_sub word_le_nat_alt)
  obtain m where m: "stosb pml4 bss_start (unat (bss_end - bss_start)) (start_tables pml4 (mem s)) = Some m"
    "\<forall>x. m x = (if unat bss_start \<le> unat x \<and> unat x < unat bss_end then 0 else start_tables pml4 (mem s) x)"
    using stosb_runs [OF lay, of bss_start "unat (bss_end - bss_start)" "start_tables pml4 (mem s)" "mem s"] n b(3) by auto
  have tab: "m x = start_tables pml4 (mem s) x" if "x AND NOT 4095 \<in> {pml4, pml4 + 4096, pml4 + 8192}" for x
    using page_below [OF that lay] b(2) m(2) by simp
  note I = start_image [OF lay tab]
  let ?s = "statics (s\<lparr>mem := m, cr3 := pml4, tlb := \<lambda>_. None\<rparr>)"
  have lv: "unat t < unat bss_end" if "0 < start_lv pml4 t" for t
    using that layout_tables(1,2) [OF lay] b by (auto simp: start_lv_def split: if_splits)
  have img: "boot_image (start_lv pml4) bss_end ?s"
    using I lv b by (simp add: boot_image_def statics_def start_lv_def pte_present_def)
  have out: "m x = mem s x" if "unat x < 0x100000 \<or> unat bss_end \<le> unat x" for x
    using that b m(2) start_tables_outside [OF lay, of x "mem s"] by auto
  have run: "start eax flags popf cpuid pml4 bss_start bss_end s = Some ?s" using ch m(1) by (simp add: start_def)
  show thesis by (rule that [OF run refl img out I(2)])
qed

section \<open>The boot information\<close>

text \<open>
  What the loader passes: a well-formed structure below 1GB that overlaps neither the kernel image nor the cells of the
  text screen (25 rows of 80 cells of two bytes at \<open>0xB8000\<close>), which the kernel clears before it reads the structure.  The
  model keeps the text screen apart from the memory, and this is where the two must not meet.
\<close>

definition loader_info :: "u64 \<Rightarrow> u64 \<Rightarrow> mb2_tag list \<Rightarrow> bytes \<Rightarrow> bool" where
  "loader_info bss_end mb_info ts m \<longleftrightarrow>
     (let len = max 8 (unat (rd32 m mb_info)) in
      mb_info \<noteq> 0 \<and> 0 < rd32 m mb_info \<and> rd32 m mb_info \<le> 0x100000 \<and> unat mb_info + len \<le> 2 ^ 30 \<and>
      (unat mb_info + len \<le> 0x100000 \<or> unat bss_end \<le> unat mb_info) \<and>
      (unat mb_info + len \<le> 0xB8000 \<or> 0xB8FA0 \<le> unat mb_info) \<and>
      tags_at m (mb_info + ucast (rd32 m mb_info)) (mb_info + 8) ts \<and> length (usable_ranges ts) \<le> 32)"

lemma loader_info_boot:
  assumes inf: "loader_info bss_end mb_info ts (mem s)" and lay: "image_layout pml4 bss_start bss_end"
    and m: "\<And>x. unat x < 0x100000 \<or> unat bss_end \<le> unat x \<Longrightarrow> m x = mem s x" and pd: "boot_pd m pml4 = pml4 + 8192"
    and t: "mem t = m" "cr3 t = pml4"
  shows "boot_info mb_info ts t" "rd32 m mb_info = rd32 (mem s) mb_info"
proof -
  let ?n = "rd32 (mem s) mb_info"
  let ?len = "max 8 (unat ?n)"
  have i: "mb_info \<noteq> 0" "0 < ?n" "?n \<le> 0x100000" "unat mb_info + ?len \<le> 2 ^ 30" "unat mb_info + ?len \<le> 0x100000 \<or> unat bss_end \<le> unat mb_info"
    "tags_at (mem s) (mb_info + ucast ?n) (mb_info + 8) ts" "length (usable_ranges ts) \<le> 32" using inf unfolding loader_info_def Let_def by blast+
  have ag: "agree (mem s) m (unat mb_info) (unat mb_info + ?len)"
    unfolding agree_def
  proof (intro allI impI)
    fix x :: u64 assume "unat mb_info \<le> unat x \<and> unat x < unat mb_info + ?len"
    then have "unat x < 0x100000 \<or> unat bss_end \<le> unat x" using i(5) by linarith
    from m [OF this] show "mem s x = m x" by simp
  qed
  show n: "rd32 m mb_info = ?n" by (rule agree_rd32 [OF ag, symmetric]) (use i(4) in simp_all)
  have e: "unat (mb_info + ucast ?n) = unat mb_info + unat ?n" using i(4) by (subst unat_u64_add) (simp_all add: unat_ucast_u32)
  have p: "unat mb_info \<le> unat (mb_info + 8)" using i(4) by (subst unat_u64_add) simp_all
  have "agree (mem s) m (unat mb_info) (unat (mb_info + ucast ?n))" by (rule agree_mono [OF ag]) (simp add: e)
  then have ts: "tags_at m (mb_info + ucast ?n) (mb_info + 8) ts"
    by (rule tags_at_agree [OF i(6)]) (use p e i(4) in simp_all)
  have "\<not> x - (pml4 + 8192) < 4096" if x: "unat mb_info \<le> unat x" "unat x < unat mb_info + ?len" for x
  proof
    note L = layout_tables [OF lay]
    assume "x - (pml4 + 8192) < 4096"
    then have "x AND NOT 4095 = pml4 + 8192" using page_of_iff [OF L(4)] by blast
    then have "unat pml4 \<le> unat x \<and> unat x < unat pml4 + 0x3000" by (intro page_below [OF _ lay]) simp
    then show False using x i(5) lay by (auto simp: image_layout_def)
  qed
  then have "info_apart mb_info t" using i(4) by (simp add: info_apart_def t n pd)
  then show "boot_info mb_info ts t" using i(1-3,7) ts by (simp add: boot_info_def t n)
qed

section \<open>From the loader to the main loop\<close>

text \<open>\<^verbatim>\<open>_start64\<close> ends in \<^verbatim>\<open>call kmain\<close>, with the pointer that the loader left in \<^verbatim>\<open>EBX\<close>.\<close>

definition boot where
  "boot eax ebx flags popf cpuid pml4 bss_start bss_end kb_addr dev isr_stub_table idt_addr r s =
     (case start eax flags popf cpuid pml4 bss_start bss_end s of
        None \<Rightarrow> None
      | Some s1 \<Rightarrow> kmain kb_addr dev isr_stub_table idt_addr bss_end r (ucast (ebx :: u32)) s1)"

text \<open>
  (C2) The kernel boots.  If the processor passes the checks, the image is laid out as the linker script says and ends within 2MB,
  and the loader passes a well-formed boot information whose memory map offers 16404 frames (four for each of the 4096 heap
  pages, and twenty), then from any state of memory and devices \<^verbatim>\<open>_start\<close> and \<^verbatim>\<open>kmain\<close> reach the main loop: clearing \<^verbatim>\<open>.bss\<close> does not
  fault, no initialisation fails, no self test fails or panics, and no page fault halts the kernel.  The interrupt table has a
  gate for each of the vectors 0 to 47 and no other, the keyboard handler is registered and its buffer empty, so that in the
  main loop, whatever keys arrive and however the interrupts fall, the characters printed are those buffered, in order;
  and the heap is full, left so by its self test.
\<close>

theorem kernel_boots:
  fixes s :: kernel
  assumes "start_checks eax flags popf cpuid" and "image_layout pml4 bss_start bss_end" and "loader_info bss_end (ucast ebx) ts (mem s)"
    and "16404 \<le> card (boot_free bss_end (ucast ebx) (usable_ranges ts) s)" and "kb_addr \<noteq> 0"
  shows "\<exists>s'. boot eax ebx flags popf cpuid pml4 bss_start bss_end kb_addr dev tbl idt_addr r s = Some (Main_loop s') \<and>
    kb_ready kb_addr s' \<and> kb s' = kb_reset \<and>
    (\<forall>i < 256. gate_of (idt s' ! i) = (if i < 48 then Some (0x08, tbl i, 14) else None)) \<and>
    idtr_limit s' = 0xFFF \<and> idtr_base s' = idt_addr \<and>
    (\<forall>x. (main_step kb_addr)\<^sup>*\<^sup>* (main_start s') x \<longrightarrow> buffered x = printed x @ in_flight (mpc x) @ kb_items (kb (kst x))) \<and>
    (\<forall>n. \<exists>s''. kmalloc_k (kcode kb_addr dev) r n s' = Some (Inr (0, s'')))"
proof -
  obtain s1 m where s1: "start eax flags popf cpuid pml4 bss_start bss_end s = Some s1" "s1 = statics (s\<lparr>mem := m, cr3 := pml4, tlb := \<lambda>_. None\<rparr>)"
    "boot_image (start_lv pml4) bss_end s1" "\<And>x. unat x < 0x100000 \<or> unat bss_end \<le> unat x \<Longrightarrow> m x = mem s x" "boot_pd m pml4 = pml4 + 8192"
    by (rule start_runs [OF assms(1,2)]) blast
  have t: "mem s1 = m" "cr3 s1 = pml4" by (simp_all add: s1(2) statics_def)
  note I = loader_info_boot [OF assms(3,2) s1(4,5) t]
  have room: "16404 \<le> card (boot_free bss_end (ucast ebx) (usable_ranges ts) s1)" using assms(4) I(2) by (simp add: boot_free_def t)
  have st: "length (pmm_bitmap (pmm s1)) = unat PMM_BITMAP_BYTES" "length (idt s1) = 256" "kb s1 = kb_reset"
    by (simp_all add: s1(2) statics_def kb_reset_def pmm_consts)
  from kmain_boots [OF s1(3) I(1) room st(1,2) assms(5) st(3), of dev tbl idt_addr r] show ?thesis by (simp add: boot_def s1(1))
qed

text \<open>A machine for the witness: a memory map of 129MB from 1MB on, and an image from 1MB to \<open>0x110000\<close>.\<close>

definition start_mem :: bytes where
  "start_mem = demo_info(0x902B := 8)"

definition start_range :: mb2_range_t where
  "start_range = \<lparr>range_base = 0x100000, range_length = 0x8100000\<rparr>"

lemma start_reads:
  "rd32 start_mem 0x9000 = 64" "rd32 start_mem 0x9008 = 1" "rd32 start_mem 0x900C = 8" "rd32 start_mem 0x9010 = 6"
  "rd32 start_mem 0x9014 = 40" "rd32 start_mem 0x9018 = 24" "rd32 start_mem 0x9038 = 0"
  "rd64 start_mem 0x9020 = 0x100000" "rd64 start_mem 0x9028 = 0x8100000" "rd32 start_mem 0x9030 = 1"
  by (simp_all add: start_mem_def rd32_def rd64_def) (simp_all add: demo_info_def)

lemma start_info: "loader_info 0x110000 0x9000 [OtherTag 1 8, MmapTag 24 [(start_range, 1)]] start_mem"
  "usable_ranges [OtherTag 1 8, MmapTag 24 [(start_range, 1)]] = [start_range]"
proof -
  show "usable_ranges [OtherTag 1 8, MmapTag 24 [(start_range, 1)]] = [start_range]"
    by (simp add: usable_ranges_def usable_def start_range_def)
  moreover have "tags_at start_mem 0x9040 0x9008 [OtherTag 1 8, MmapTag 24 [(start_range, 1)]]"
    using start_reads by (simp add: mb2_align_up8_def start_range_def)
  ultimately show "loader_info 0x110000 0x9000 [OtherTag 1 8, MmapTag 24 [(start_range, 1)]] start_mem"
    by (simp add: loader_info_def start_reads)
qed

lemma start_room: "16404 \<le> card (boot_free 0x110000 0x9000 [start_range] (demo_kernel\<lparr>mem := start_mem\<rparr>))"
proof -
  let ?I = "{0x110..<0x8200} :: nat set" and ?F = "boot_free 0x110000 0x9000 [start_range] (demo_kernel\<lparr>mem := start_mem\<rparr>)"
  have u: "unat (of_nat k :: u64) = k" if "k \<in> ?I" for k using that by (simp add: unat_of_nat_u64)
  have "of_nat k \<in> ?F" if k: "k \<in> ?I" for k
  proof -
    have "(of_nat k :: u64) < PMM_FRAME_COUNT" using u [OF k] k by (simp add: word_less_nat_alt pmm_frame_count)
    moreover have "pmm_usable [start_range] (of_nat k)" using k u [OF k] by (auto simp: pmm_usable_def start_range_def frame_bytes_def region_bytes_def)
    ultimately show ?thesis using k u [OF k] by (auto simp: boot_free_def frame_bytes_def start_reads)
  qed
  then have sub: "(of_nat :: nat \<Rightarrow> u64) ` ?I \<subseteq> ?F" by blast
  have "inj_on (of_nat :: nat \<Rightarrow> u64) ?I" by (rule inj_on_inverseI [where g = unat]) (rule u)
  then have "card ((of_nat :: nat \<Rightarrow> u64) ` ?I) = 0x80F0" by (simp add: card_image)
  then show ?thesis using card_mono [OF finite_u64 sub] by simp
qed

theorem kernel_boots_witness:
  "\<exists>s'. boot 0x36D76289 0x9000 2 (\<lambda>f. f) (\<lambda>_. (0x80000008, 0x20000000)) 0x101000 0x108000 0x110000 0x5000 (\<lambda>_ _. 0) (\<lambda>i. 0x8000 + 16 * of_nat i) 0xA000
     (demo_regs 14 2) (demo_kernel\<lparr>mem := start_mem\<rparr>) = Some (Main_loop s') \<and> kb_ready 0x5000 s' \<and> gate_of (idt s' ! 33) = Some (0x08, 0x8210, 14)"
proof -
  let ?s = "demo_kernel\<lparr>mem := start_mem\<rparr>" and ?ts = "[OtherTag 1 8, MmapTag 24 [(start_range, 1)]]"
  have c: "start_checks 0x36D76289 2 (\<lambda>f. f) (\<lambda>_. (0x80000008, 0x20000000))" by (simp add: start_checks_def)
  have l: "image_layout 0x101000 0x108000 0x110000" by (simp add: image_layout_def)
  have i: "loader_info 0x110000 (ucast (0x9000 :: u32)) ?ts (mem ?s)" using start_info(1) by simp
  have f: "16404 \<le> card (boot_free 0x110000 (ucast (0x9000 :: u32)) (usable_ranges ?ts) ?s)" using start_room start_info(2) by simp
  have k: "(0x5000 :: u64) \<noteq> 0" by simp
  from kernel_boots [OF c l i f k, of "\<lambda>_ _. 0" "\<lambda>i. 0x8000 + 16 * of_nat i" "0xA000" "demo_regs 14 2"] show ?thesis by auto
qed

end
