(* ===== verification/Entry.thy ===== *)
theory Entry
  imports Kernel
begin

text \<open>
  The entry stubs (\<^verbatim>\<open>src/src/isr.asm\<close>): from the interrupted instruction to \<^verbatim>\<open>isr_handler\<close> and back.  A stack is a pointer and the
  memory; the kernel stack lies in the 2MB that are always identity mapped, so its addresses are physical ones.  What the
  compiled handler does below the stack pointer, and the registers it leaves behind, are not determined by the C code:
  \<^verbatim>\<open>clob\<close> stands for these registers, and \<^verbatim>\<open>ret\<close> for the address that \<^verbatim>\<open>call\<close> pushes.
\<close>

section \<open>The processor\<close>

datatype reg = RAX | RBX | RCX | RDX | RSI | RDI | RBP | R8 | R9 | R10 | R11 | R12 | R13 | R14 | R15

record cpu_t =
  gpr :: "reg \<Rightarrow> u64"
  cpu_rsp :: u64
  cpu_ss :: u64
  cpu_rip :: u64
  cpu_cs :: u64
  cpu_flags :: u64

type_synonym stack = "u64 \<times> bytes"

definition push :: "u64 \<Rightarrow> stack \<Rightarrow> stack" where
  "push v st = (fst st - 8, wr64 (snd st) (fst st - 8) v)"

definition pop_reg :: "bytes \<Rightarrow> reg \<Rightarrow> u64 \<times> (reg \<Rightarrow> u64) \<Rightarrow> u64 \<times> (reg \<Rightarrow> u64)" where
  "pop_reg m r st = (fst st + 8, (snd st)(r := rd64 m (fst st)))"

text \<open>
  Delivery in 64-bit mode: the stack is aligned to 16 bytes, and \<^verbatim>\<open>SS\<close>, \<^verbatim>\<open>RSP\<close>, \<^verbatim>\<open>RFLAGS\<close>, \<^verbatim>\<open>CS\<close> and \<^verbatim>\<open>RIP\<close> are pushed, then an error code for
  ten of the exceptions.
\<close>

definition has_error_code :: "nat \<Rightarrow> bool" where
  "has_error_code vec \<longleftrightarrow> vec \<in> {8, 10, 11, 12, 13, 14, 17, 21, 29, 30}"

definition deliver :: "nat \<Rightarrow> u64 \<Rightarrow> cpu_t \<Rightarrow> bytes \<Rightarrow> stack" where
  "deliver vec err c m =
     (let st = fold push [cpu_ss c, cpu_rsp c, cpu_flags c, cpu_cs c, cpu_rip c] (cpu_rsp c AND NOT 15, m)
      in if has_error_code vec then push err st else st)"

definition iretq :: "(reg \<Rightarrow> u64) \<Rightarrow> stack \<Rightarrow> cpu_t" where
  "iretq g st =
     \<lparr>gpr = g, cpu_rsp = rd64 (snd st) (fst st + 24), cpu_ss = rd64 (snd st) (fst st + 32), cpu_rip = rd64 (snd st) (fst st),
      cpu_cs = rd64 (snd st) (fst st + 8), cpu_flags = rd64 (snd st) (fst st + 16)\<rparr>"

section \<open>The stubs\<close>

datatype isr_macro = ISR_NOERR | ISR_ERR

definition isr_stubs :: "isr_macro list" where
  "isr_stubs =
     [ISR_NOERR, ISR_NOERR, ISR_NOERR, ISR_NOERR, ISR_NOERR, ISR_NOERR, ISR_NOERR, ISR_NOERR,
      ISR_ERR, ISR_NOERR, ISR_ERR, ISR_ERR, ISR_ERR, ISR_ERR, ISR_ERR, ISR_NOERR,
      ISR_NOERR, ISR_ERR, ISR_NOERR, ISR_NOERR, ISR_NOERR, ISR_ERR, ISR_NOERR, ISR_NOERR,
      ISR_NOERR, ISR_NOERR, ISR_NOERR, ISR_NOERR, ISR_NOERR, ISR_ERR, ISR_ERR, ISR_NOERR,
      ISR_NOERR, ISR_NOERR, ISR_NOERR, ISR_NOERR, ISR_NOERR, ISR_NOERR, ISR_NOERR, ISR_NOERR,
      ISR_NOERR, ISR_NOERR, ISR_NOERR, ISR_NOERR, ISR_NOERR, ISR_NOERR, ISR_NOERR, ISR_NOERR]"

definition isr_stub :: "nat \<Rightarrow> stack \<Rightarrow> stack" where
  "isr_stub vec st =
     (case isr_stubs ! vec of
        ISR_NOERR \<Rightarrow> push (of_nat vec) (push 0 st)
      | ISR_ERR \<Rightarrow> push (of_nat vec) st)"

definition pushed_regs :: "reg list" where
  "pushed_regs = [RAX, RBX, RCX, RDX, RSI, RDI, RBP, R8, R9, R10, R11, R12, R13, R14, R15]"

definition popped_regs :: "reg list" where
  "popped_regs = [R15, R14, R13, R12, R11, R10, R9, R8, RBP, RDI, RSI, RDX, RCX, RBX, RAX]"

text \<open>The structure that the C code reads at an address: the fields in the order of the declaration.\<close>

definition regs_at :: "bytes \<Rightarrow> u64 \<Rightarrow> regs_t" where
  "regs_at m p =
     \<lparr>r15 = rd64 m p, r14 = rd64 m (p + 8), r13 = rd64 m (p + 16), r12 = rd64 m (p + 24), r11 = rd64 m (p + 32),
      r10 = rd64 m (p + 40), r9 = rd64 m (p + 48), r8 = rd64 m (p + 56), rbp = rd64 m (p + 64), rdi = rd64 m (p + 72),
      rsi = rd64 m (p + 80), rdx = rd64 m (p + 88), rcx = rd64 m (p + 96), rbx = rd64 m (p + 104), rax = rd64 m (p + 112),
      vector = rd64 m (p + 120), error_code = rd64 m (p + 128), rip = rd64 m (p + 136), seg_cs = rd64 m (p + 144),
      rflags = rd64 m (p + 152)\<rparr>"

text \<open>Where the processor goes on, \<^verbatim>\<open>None\<close> if the handler halts, and the state that is left.\<close>

definition isr_common ::
  "(isr_reg_t \<Rightarrow> regs_t \<Rightarrow> 'a irq_sys_scheme \<Rightarrow> 'a irq_sys_scheme) \<Rightarrow> u64 \<Rightarrow> (reg \<Rightarrow> u64) \<Rightarrow> (reg \<Rightarrow> u64) \<Rightarrow> stack \<Rightarrow>
     'a irq_sys_scheme \<Rightarrow> cpu_t option \<times> 'a irq_sys_scheme" where
  "isr_common code ret clob g st s =
     (let st1 = fold (\<lambda>r. push (g r)) pushed_regs st;
          st2 = push ret st1
      in case isr_handler code (regs_at (snd st2) (fst st1)) (s\<lparr>mem := snd st2\<rparr>) of
           Halt s' \<Rightarrow> (None, s')
         | Return s' \<Rightarrow>
             (let (sp, g') = fold (pop_reg (mem s')) popped_regs (fst st1, clob)
              in (Some (iretq g' (sp + 16, mem s')), s')))"

text \<open>An interrupt or exception with the given vector, through the stub that the gate of the vector names.\<close>

definition interrupt where
  "interrupt code ret clob vec err c s = isr_common code ret clob (gpr c) (isr_stub vec (deliver vec err c (mem s))) s"

section \<open>Stacks\<close>

lemma push_sel [simp]: "fst (push v st) = fst st - 8" "snd (push v st) = wr64 (snd st) (fst st - 8) v"
  by (simp_all add: push_def)

lemma push_all_fst: "fst (fold push vs st) = fst st - 8 * of_nat (length vs)"
  by (induction vs arbitrary: st) (simp_all add: algebra_simps)

lemma push_all_outside:
  assumes "8 * length vs < 2 ^ 64" and "\<not> x - (fst st - 8 * of_nat (length vs)) < 8 * of_nat (length vs)"
  shows "snd (fold push vs st) x = snd st x"
  using assms
proof (induction vs arbitrary: st)
  case (Cons v vs)
  let ?n = "8 * of_nat (length vs) :: u64"
  have n: "unat ?n = 8 * length vs" "unat (?n + 8) = 8 * length vs + 8"
  proof -
    have e: "?n = of_nat (8 * length vs)" "?n + 8 = of_nat (8 * length vs + 8)" by simp_all
    show "unat ?n = 8 * length vs" unfolding e(1) by (rule unat_of_nat_u64) (use Cons.prems(1) in simp)
    show "unat (?n + 8) = 8 * length vs + 8" unfolding e(2) by (rule unat_of_nat_u64) (use Cons.prems(1) in simp)
  qed
  have far: "\<not> x - (fst st - 8 - ?n) < ?n + 8" using Cons.prems(2) by (simp add: algebra_simps)
  have a: "\<not> x - (fst st - 8 - ?n) < ?n" using far n by (simp add: word_less_nat_alt)
  have b: "\<not> x - (fst st - 8) < 8"
  proof
    assume h: "x - (fst st - 8) < 8"
    have "x - (fst st - 8 - ?n) = (x - (fst st - 8)) + ?n" by simp
    also have "unat \<dots> = unat (x - (fst st - 8)) + unat ?n" by (rule unat_u64_add) (use h n Cons.prems(1) in \<open>simp add: word_less_nat_alt\<close>)
    finally show False using far h n by (simp add: word_less_nat_alt)
  qed
  have "snd (fold push vs (push v st)) x = snd (push v st) x" by (rule Cons.IH) (use Cons.prems(1) a in simp_all)
  then show ?case using b by (simp add: wr64_outside)
qed simp

text \<open>The word pushed last is at the stack pointer, the word pushed first at the other end.\<close>

lemma push_all_nth:
  assumes "8 * length vs < 2 ^ 64" and "i < length vs"
  shows "rd64 (snd (fold push vs st)) (fst st - 8 * of_nat (Suc i)) = vs ! i"
  using assms
proof (induction vs arbitrary: st i)
  case (Cons v vs)
  show ?case
  proof (cases i)
    case 0
    let ?n = "8 * of_nat (length vs) :: u64"
    have e: "?n = of_nat (8 * length vs)" by simp
    have n: "unat ?n = 8 * length vs" unfolding e by (rule unat_of_nat_u64) (use Cons.prems(1) in simp)
    have "snd (fold push vs (push v st)) (fst st - 8 + k) = snd (push v st) (fst st - 8 + k)" if "k < 8" for k
    proof (rule push_all_outside)
      have "unat (k + ?n) = unat k + 8 * length vs"
        unfolding n [symmetric] by (rule unat_u64_add) (use that n Cons.prems(1) in \<open>simp add: word_less_nat_alt\<close>)
      then show "\<not> fst st - 8 + k - (fst (push v st) - ?n) < ?n" using n by (simp add: word_less_nat_alt algebra_simps)
    qed (use Cons.prems(1) in simp)
    then have "rd64 (snd (fold push vs (push v st))) (fst st - 8) = rd64 (snd (push v st)) (fst st - 8)" by (rule rd64_cong)
    then show ?thesis using 0 by simp
  next
    case (Suc j)
    have e: "fst st - 8 * of_nat (Suc (Suc j)) = fst (push v st) - 8 * of_nat (Suc j)" by (simp add: algebra_simps)
    show ?thesis unfolding Suc e fold_simps nth_Cons_Suc by (rule Cons.IH) (use Cons.prems Suc in simp_all)
  qed
qed simp

section \<open>The frame\<close>

text \<open>The 22 words that processor, stub and common code push, and the structure that they make up.\<close>

definition frame_words :: "nat \<Rightarrow> u64 \<Rightarrow> cpu_t \<Rightarrow> u64 list" where
  "frame_words vec err c =
     [cpu_ss c, cpu_rsp c, cpu_flags c, cpu_cs c, cpu_rip c, if has_error_code vec then err else 0, of_nat vec] @ map (gpr c) pushed_regs"

definition cpu_frame :: "nat \<Rightarrow> u64 \<Rightarrow> cpu_t \<Rightarrow> regs_t" where
  "cpu_frame vec err c =
     \<lparr>r15 = gpr c R15, r14 = gpr c R14, r13 = gpr c R13, r12 = gpr c R12, r11 = gpr c R11, r10 = gpr c R10, r9 = gpr c R9,
      r8 = gpr c R8, rbp = gpr c RBP, rdi = gpr c RDI, rsi = gpr c RSI, rdx = gpr c RDX, rcx = gpr c RCX, rbx = gpr c RBX,
      rax = gpr c RAX, vector = of_nat vec, error_code = (if has_error_code vec then err else 0), rip = cpu_rip c,
      seg_cs = cpu_cs c, rflags = cpu_flags c\<rparr>"

definition frame_ptr :: "cpu_t \<Rightarrow> u64" where
  "frame_ptr c = (cpu_rsp c AND NOT 15) - 176"

lemma stub_macro: "vec < 48 \<Longrightarrow> isr_stubs ! vec = (if has_error_code vec then ISR_ERR else ISR_NOERR)"
  unfolding isr_stubs_def has_error_code_def by (auto simp: less_Suc_eq numeral_eq_Suc)

lemma entry_stack:
  assumes "vec < 48"
  shows "fold (\<lambda>r. push (gpr c r)) pushed_regs (isr_stub vec (deliver vec err c m)) = fold push (frame_words vec err c) (cpu_rsp c AND NOT 15, m)"
proof -
  have "isr_stub vec (deliver vec err c m) =
      fold push [cpu_ss c, cpu_rsp c, cpu_flags c, cpu_cs c, cpu_rip c, if has_error_code vec then err else 0, of_nat vec] (cpu_rsp c AND NOT 15, m)"
    using stub_macro [OF assms] by (simp add: isr_stub_def deliver_def)
  then show ?thesis by (simp add: frame_words_def fold_map comp_def)
qed

lemma frame_length [simp]: "length (frame_words vec err c) = 22"
  by (simp add: frame_words_def pushed_regs_def)

text \<open>Whatever leaves the frame alone leaves its words readable: pushing the return address does, and a handler is to.\<close>

lemma frame_reads:
  assumes keep: "\<And>x. x - frame_ptr c < 176 \<Longrightarrow> m' x = snd (fold push (frame_words vec err c) (cpu_rsp c AND NOT 15, m)) x" and k: "k < 22"
  shows "rd64 m' (frame_ptr c + 8 * of_nat k) = frame_words vec err c ! (21 - k)"
proof -
  let ?st = "fold push (frame_words vec err c) (cpu_rsp c AND NOT 15, m)"
  have "rd64 m' (frame_ptr c + 8 * of_nat k) = rd64 (snd ?st) (frame_ptr c + 8 * of_nat k)"
  proof (rule rd64_cong, rule keep)
    fix i :: u64 assume i: "i < 8"
    have k8: "unat (8 * of_nat k :: u64) = 8 * k" using k unat_of_nat_u64 [of "8 * k"] by simp
    have "unat (8 * of_nat k + i) = 8 * k + unat i" unfolding k8 [symmetric] by (rule unat_u64_add) (use k8 k i in \<open>simp add: word_less_nat_alt\<close>)
    then show "frame_ptr c + 8 * of_nat k + i - frame_ptr c < 176" using k i by (simp add: word_less_nat_alt)
  qed
  also have "rd64 (snd ?st) (frame_ptr c + 8 * of_nat k) = frame_words vec err c ! (21 - k)"
  proof -
    have e: "frame_ptr c + 8 * of_nat k = fst (cpu_rsp c AND NOT 15, m) - 8 * of_nat (Suc (21 - k))"
      using k by (simp add: frame_ptr_def of_nat_diff algebra_simps)
    show ?thesis unfolding e by (rule push_all_nth) (use k in simp_all)
  qed
  finally show ?thesis .
qed

text \<open>The words by their addresses, as the structure and the pops read them.\<close>

lemma frame_at:
  assumes "\<And>x. x - frame_ptr c < 176 \<Longrightarrow> m' x = snd (fold push (frame_words vec err c) (cpu_rsp c AND NOT 15, m)) x"
  shows "regs_at m' (frame_ptr c) = cpu_frame vec err c"
    "fold (pop_reg m') popped_regs (frame_ptr c, clob) = (frame_ptr c + 120, gpr c)"
    "iretq (gpr c) (frame_ptr c + 136, m') = c"
proof -
  note rd = frame_reads [OF assms]
  note w = rd [of 0, simplified] rd [of 1, simplified] rd [of 2, simplified] rd [of 3, simplified] rd [of 4, simplified] rd [of 5, simplified]
    rd [of 6, simplified] rd [of 7, simplified] rd [of 8, simplified] rd [of 9, simplified] rd [of 10, simplified] rd [of 11, simplified]
    rd [of 12, simplified] rd [of 13, simplified] rd [of 14, simplified] rd [of 15, simplified] rd [of 16, simplified] rd [of 17, simplified]
    rd [of 18, simplified] rd [of 19, simplified] rd [of 20, simplified] rd [of 21, simplified]
  show "regs_at m' (frame_ptr c) = cpu_frame vec err c"
    by (simp add: regs_at_def w cpu_frame_def frame_words_def pushed_regs_def)
  show "iretq (gpr c) (frame_ptr c + 136, m') = c"
    by (simp add: iretq_def add.assoc w frame_words_def pushed_regs_def)
  have "snd (fold (pop_reg m') popped_regs (frame_ptr c, clob)) r = gpr c r" for r
    by (cases r) (simp_all add: popped_regs_def pop_reg_def add.assoc w frame_words_def pushed_regs_def)
  moreover have "fst (fold (pop_reg m') popped_regs (frame_ptr c, clob)) = frame_ptr c + 120"
    by (simp add: popped_regs_def pop_reg_def)
  ultimately show "fold (pop_reg m') popped_regs (frame_ptr c, clob) = (frame_ptr c + 120, gpr c)" by (simp add: prod_eq_iff fun_eq_iff)
qed

lemma frame_ptr_fst: "fst (fold push (frame_words vec err c) (cpu_rsp c AND NOT 15, m)) = frame_ptr c"
  by (simp add: push_all_fst frame_ptr_def)

lemma frame_ptr_aligned: "frame_ptr c AND 15 = 0"
proof -
  have iff: "x AND 15 = 0 \<longleftrightarrow> 16 dvd unat x" for x :: u64
  proof -
    have "unat (x AND 15) = unat x mod 16" using and_mask_nat [of x 4] by (simp add: mask_numeral)
    then show ?thesis by (metis dvd_eq_mod_eq_0 unat_0 unat_eq_zero)
  qed
  have "((cpu_rsp c AND NOT 15) AND 15) = 0" by (simp only: and.assoc) simp
  then have d: "16 dvd unat (cpu_rsp c AND NOT 15)" by (simp only: iff)
  have "16 dvd unat (a - 176)" if "16 dvd unat a" for a :: u64
    using that unat_sub_if' [of a 176] by (auto simp: dvd_diff_nat)
  then show ?thesis unfolding frame_ptr_def iff using d by blast
qed

lemma above_ptr:
  assumes "x - p < (176 :: u64)"
  shows "unat (x - (p - 8)) = unat (x - p) + 8"
proof -
  have e: "x - (p - 8) = x - p + 8" by (simp add: algebra_simps)
  show ?thesis unfolding e by (subst unat_u64_add) (use assms in \<open>simp_all add: word_less_nat_alt\<close>)
qed

section \<open>Properties\<close>

lemma interrupt_runs:
  assumes "vec < 48"
  shows "\<exists>m. frame_ptr c AND 15 = 0 \<and> (\<forall>x. \<not> x - (frame_ptr c - 8) < 184 \<longrightarrow> m x = mem s x) \<and>
    (case isr_handler code (cpu_frame vec err c) (s\<lparr>mem := m\<rparr>) of
       Halt s' \<Rightarrow> interrupt code ret clob vec err c s = (None, s')
     | Return s' \<Rightarrow> (\<forall>x. x - frame_ptr c < 176 \<longrightarrow> mem s' x = m x) \<longrightarrow> interrupt code ret clob vec err c s = (Some c, s'))"
proof -
  let ?st = "fold push (frame_words vec err c) (cpu_rsp c AND NOT 15, mem s)"
  let ?m = "wr64 (snd ?st) (frame_ptr c - 8) ret"
  have keep: "?m x = snd ?st x" if "x - frame_ptr c < 176" for x
    using above_ptr [OF that] by (intro wr64_outside) (simp add: word_less_nat_alt)
  have out: "?m x = mem s x" if x: "\<not> x - (frame_ptr c - 8) < 184" for x
  proof -
    have a: "\<not> x - (frame_ptr c - 8) < 8" using x by (auto simp: word_less_nat_alt)
    have "\<not> x - frame_ptr c < 176"
    proof
      assume h: "x - frame_ptr c < 176"
      show False using above_ptr [OF h] h x by (simp add: word_less_nat_alt)
    qed
    then have "snd ?st x = mem s x" using push_all_outside [of "frame_words vec err c" x "(cpu_rsp c AND NOT 15, mem s)"] by (simp add: frame_ptr_def)
    then show ?thesis using a by (simp add: wr64_outside)
  qed
  have fr: "regs_at ?m (frame_ptr c) = cpu_frame vec err c" by (rule frame_at(1)) (rule keep)
  have run: "interrupt code ret clob vec err c s =
    (case isr_handler code (cpu_frame vec err c) (s\<lparr>mem := ?m\<rparr>) of
       Halt s' \<Rightarrow> (None, s')
     | Return s' \<Rightarrow> (let (sp, g') = fold (pop_reg (mem s')) popped_regs (frame_ptr c, clob) in (Some (iretq g' (sp + 16, mem s')), s')))"
    unfolding interrupt_def isr_common_def Let_def entry_stack [OF assms] push_sel frame_ptr_fst fr by (rule refl)
  have "interrupt code ret clob vec err c s = (Some c, s')"
    if r: "isr_handler code (cpu_frame vec err c) (s\<lparr>mem := ?m\<rparr>) = Return s'" and k: "\<forall>x. x - frame_ptr c < 176 \<longrightarrow> mem s' x = ?m x" for s'
  proof -
    have "mem s' x = snd ?st x" if "x - frame_ptr c < 176" for x using that k keep by simp
    note f = frame_at(2,3) [OF this]
    show ?thesis unfolding run r by (simp add: f(1)) (simp add: f(2) add.commute)
  qed
  then have "case isr_handler code (cpu_frame vec err c) (s\<lparr>mem := ?m\<rparr>) of
       Halt s' \<Rightarrow> interrupt code ret clob vec err c s = (None, s')
     | Return s' \<Rightarrow> (\<forall>x. x - frame_ptr c < 176 \<longrightarrow> mem s' x = ?m x) \<longrightarrow> interrupt code ret clob vec err c s = (Some c, s')"
    using run by (auto split: outcome.split)
  then show ?thesis using out frame_ptr_aligned by blast
qed

text \<open>The keyboard's interrupt from start to end: the decoder takes the scan code, and the interrupted code goes on unchanged.\<close>

lemma keyboard_interrupt:
  assumes rdy: "kb_ready kb_addr s"
  obtains m con' where "interrupt (kcode kb_addr (\<lambda>_ _. sc)) ret clob 33 err c s = (Some c, s\<lparr>mem := m, con := con', kb := kb_scan sc (kb s)\<rparr>)"
    "same_screen con' (con s)" "\<And>x. \<not> x - (frame_ptr c - 8) < 184 \<Longrightarrow> m x = mem s x"
proof -
  obtain m where m: "\<forall>x. \<not> x - (frame_ptr c - 8) < 184 \<longrightarrow> m x = mem s x"
    "case isr_handler (kcode kb_addr (\<lambda>_ _. sc)) (cpu_frame 33 err c) (s\<lparr>mem := m\<rparr>) of
       Halt s' \<Rightarrow> interrupt (kcode kb_addr (\<lambda>_ _. sc)) ret clob 33 err c s = (None, s')
     | Return s' \<Rightarrow> (\<forall>x. x - frame_ptr c < 176 \<longrightarrow> mem s' x = m x) \<longrightarrow>
         interrupt (kcode kb_addr (\<lambda>_ _. sc)) ret clob 33 err c s = (Some c, s')"
    using interrupt_runs [of 33 c s "kcode kb_addr (\<lambda>_ _. sc)" ret clob err] by auto
  have "kb_ready kb_addr (s\<lparr>mem := m\<rparr>)" "vector (cpu_frame 33 err c) = 33" using rdy by (simp_all add: kb_ready_def cpu_frame_def)
  from keyboard_irq [OF this, of sc] obtain con' where
    "isr_handler (kcode kb_addr (\<lambda>_ _. sc)) (cpu_frame 33 err c) (s\<lparr>mem := m\<rparr>) = Return (s\<lparr>mem := m, con := con', kb := kb_scan sc (kb s)\<rparr>)"
    "same_screen con' (con s)" by auto
  then show thesis using m by (intro that [of con' m]) simp_all
qed

text \<open>
  (C28) An interrupt is transparent.  For each of the 48 vectors, whatever the registers and wherever the stack pointer, the stub
  calls \<^verbatim>\<open>isr_handler\<close> on a structure that holds the interrupted registers, the vector, and the error code if the processor pushes
  one and 0 otherwise, with a stack aligned to 16 bytes and nothing written outside the 184 bytes below the
  interrupted (aligned) stack pointer.  If the handler returns and has left the frame alone, the interrupted code
  goes on with every register as it was; if it halts, nothing goes on.
\<close>

theorem interrupt_transparent:
  assumes "vec < 48"
  shows "\<exists>m. frame_ptr c AND 15 = 0 \<and> (\<forall>x. \<not> x - (frame_ptr c - 8) < 184 \<longrightarrow> m x = mem s x) \<and>
    (case isr_handler code (cpu_frame vec err c) (s\<lparr>mem := m\<rparr>) of
       Halt s' \<Rightarrow> interrupt code ret clob vec err c s = (None, s')
     | Return s' \<Rightarrow> (\<forall>x. x - frame_ptr c < 176 \<longrightarrow> mem s' x = m x) \<longrightarrow> interrupt code ret clob vec err c s = (Some c, s'))"
  by (rule interrupt_runs [OF assms])

text \<open>
  An interrupt of a device without a handler, taken with a stack that is not aligned: the interrupted code goes on.
\<close>

definition demo_cpu :: cpu_t where
  "demo_cpu = \<lparr>gpr = (\<lambda>r. if r = RBX then 42 else 7), cpu_rsp = 0x10F004, cpu_ss = 0x10, cpu_rip = 0x101000, cpu_cs = 0x08, cpu_flags = 0x202\<rparr>"

theorem interrupt_transparent_witness: "fst (interrupt (\<lambda>_ _ s. s) 0x101234 (\<lambda>_. 99) 40 0 demo_cpu demo_idt) = Some demo_cpu"
proof -
  obtain m where m: "case isr_handler (\<lambda>_ _ s. s) (cpu_frame 40 0 demo_cpu) (demo_idt\<lparr>mem := m\<rparr>) of
       Halt s' \<Rightarrow> interrupt (\<lambda>_ _ s. s) 0x101234 (\<lambda>_. 99) 40 0 demo_cpu demo_idt = (None, s')
     | Return s' \<Rightarrow> (\<forall>x. x - frame_ptr demo_cpu < 176 \<longrightarrow> mem s' x = m x) \<longrightarrow>
         interrupt (\<lambda>_ _ s. s) 0x101234 (\<lambda>_. 99) 40 0 demo_cpu demo_idt = (Some demo_cpu, s')"
    using interrupt_transparent [of 40 demo_cpu demo_idt "\<lambda>_ _ s. s" "0x101234" "\<lambda>_. 99" 0] by auto
  let ?s = "demo_idt\<lparr>mem := m\<rparr>"
  obtain c where c: "kprintf (''unhandled IRQ %lu'' @ nl) [VInt 8] ?s = ?s\<lparr>con := c\<rparr>" using kprintf_con by blast
  have "irq_handlers ?s 8 = 0" by (simp add: demo_idt_def)
  then have "isr_handler (\<lambda>_ _ s. s) (cpu_frame 40 0 demo_cpu) ?s = Return (send_eoi 8 (?s\<lparr>con := c\<rparr>))"
    using c by (simp add: isr_handler_def irq_dispatch_def cpu_frame_def IDT_IRQ_BASE_def irq_count Let_def)
  moreover have "mem (send_eoi 8 (?s\<lparr>con := c\<rparr>)) = m" by (simp add: send_eoi_def)
  ultimately show ?thesis using m by simp
qed

end
