(* ===== verification/Spec2Isabelle.thy ===== *)
theory Spec2Isabelle
  imports Start Entry
begin

text \<open>
  Verification of the 8GodOS kernel, a small x86-64 kernel written in C (\<^verbatim>\<open>src/src\<close>).

  \<^bold>\<open>The program.\<close>  GRUB loads the kernel, \<^verbatim>\<open>boot.asm\<close> enters long mode with the first 2MB identity mapped and calls
  \<^verbatim>\<open>kmain\<close>.  The kernel installs its interrupt gates (\<^verbatim>\<open>idt.c\<close>), reads the memory map that the boot loader left
  (\<^verbatim>\<open>mb2.c\<close>), builds a bitmap of page frames and extends the identity map (\<^verbatim>\<open>pmm.c\<close>), maintains page tables and repairs
  page faults in the heap (\<^verbatim>\<open>vm.c\<close>), runs a first-fit allocator on top (\<^verbatim>\<open>heap.c\<close>), programs the interrupt controllers
  (\<^verbatim>\<open>pic.c\<close>, \<^verbatim>\<open>irq.c\<close>), and echoes the keyboard (\<^verbatim>\<open>keyboard.c\<close>) on the text screen (\<^verbatim>\<open>vga.c\<close>) for ever.

  \<^bold>\<open>Theories, bottom up.\<close>
  \<^item> \<^verbatim>\<open>Prelude\<close>: words as memory (\<^verbatim>\<open>bytes\<close>, little-endian \<^verbatim>\<open>rd32\<close>, \<^verbatim>\<open>wr64\<close> and their interplay), masks, loops over index
    ranges.  \<^verbatim>\<open>IO_Ports\<close> (\<^verbatim>\<open>io.h\<close>): port accesses as a history; a device is a function of the history.
  \<^item> \<^verbatim>\<open>Vga\<close> (\<^verbatim>\<open>vga.c\<close>, \<^verbatim>\<open>vga.h\<close>): the whole terminal with \<^verbatim>\<open>vga_printf\<close>.  Shown: the cursor stays on the screen and no cell outside
    it is written, the code implements an abstract screen, numbers are printed with the digits that denote them.
    \<^verbatim>\<open>Vga_Format\<close>: a grammar of format strings with the text each one stands for (\<^verbatim>\<open>prints\<close>) and the arguments it asks for
    (\<^verbatim>\<open>typed\<close>), stated apart from the code's scanner.  Shown: \<^verbatim>\<open>vga_printf\<close> prints that text, and returns exactly on arguments of
    those types.
  \<^item> \<^verbatim>\<open>Mb2\<close> (\<^verbatim>\<open>mb2.c\<close>, \<^verbatim>\<open>mb2.h\<close>): the boot information parser.  Shown: it returns exactly the usable ranges, reads only
    inside the structure, and ends.
  \<^item> \<^verbatim>\<open>Pmm\<close> (\<^verbatim>\<open>pmm.c\<close>, \<^verbatim>\<open>pmm.h\<close>): the frame bitmap.  Its contract is the locale \<^verbatim>\<open>frame_allocator\<close>, interpreted on the code as
    \<^verbatim>\<open>pmm\<close>.  Shown: which frames are free after initialisation, and that allocation and release move single frames.
  \<^item> \<^verbatim>\<open>Machine\<close>: memory, CR2, CR3, TLB and the page walk \<^verbatim>\<open>mmu\<close> of the processor, the specification for all page-table code.
    \<^verbatim>\<open>Pmm_Boot\<close>: the part of \<^verbatim>\<open>pmm.c\<close> that edits the boot tables, and \<^verbatim>\<open>pmm_init\<close>.  Shown: every frame that can be handed out
    is identity mapped, and that every error path of \<^verbatim>\<open>pmm_init\<close> prints its message and leaves the allocator alone.
  \<^item> \<^verbatim>\<open>Vm\<close>, \<^verbatim>\<open>Vm_Space\<close> (\<^verbatim>\<open>vm.c\<close>, \<^verbatim>\<open>vm.h\<close>): mapping, unmapping, address spaces, the page-fault handler; the contract of a mapper
    is the locale \<^verbatim>\<open>page_mapper\<close>, interpreted as \<^verbatim>\<open>vm\<close>.  Shown: the effect of each operation on the translation of every address,
    isolation of spaces, coherence of the TLB.
  \<^item> \<^verbatim>\<open>Heap\<close>, \<^verbatim>\<open>Heap_Client\<close> (\<^verbatim>\<open>heap.c\<close>, \<^verbatim>\<open>heap.h\<close>): \<^verbatim>\<open>kmalloc\<close> and \<^verbatim>\<open>kfree\<close> as operations on the list of blocks that tiles the
    arena, and the contract \<^verbatim>\<open>byte_heap\<close> with arbitrary clients, interpreted as \<^verbatim>\<open>kh\<close>.  Shown: first fit, merging, round trip,
    the panics (\<^verbatim>\<open>history\<close> also records every pointer that was released: each of them is a double free from then on), and that no well-behaved client ever sees a panic, an endless loop or overlapping payloads.
  \<^item> \<^verbatim>\<open>Pic\<close> (\<^verbatim>\<open>pic.c\<close>), \<^verbatim>\<open>Irq\<close> (\<^verbatim>\<open>irq.c\<close>), \<^verbatim>\<open>Idt\<close> (\<^verbatim>\<open>idt.c\<close>): interrupt controllers, dispatch, gates and the common handler.  Shown: the
    remapping, the effect of masking, handler before end-of-interrupt, the gates the processor finds, which interrupts return and what the
    others print, letter by letter.
  \<^item> \<^verbatim>\<open>Demand\<close>: the heap on the machine.  Loads and stores go through the page tables, and an access that does not translate enters
    \<^verbatim>\<open>isr_handler\<close> and is retried; \<^verbatim>\<open>heap_init_vm\<close> is \<^verbatim>\<open>heap_init\<close> over such stores.  Shown: faults are transparent, so the memory of
    \<^verbatim>\<open>heap_st\<close> is what the machine provides, and \<^verbatim>\<open>heap_init\<close> leaves one free block.  Accesses walk the tables; \<^verbatim>\<open>vtouch_cached_same\<close> shows that
    cached translations give the same from a coherent TLB and leave it coherent, and \<^verbatim>\<open>Vm_Space\<close> that the operations on the tables do, too.
  \<^item> \<^verbatim>\<open>Heap_Vm\<close>: \<^verbatim>\<open>kmalloc\<close>, \<^verbatim>\<open>kfree\<close> and \<^verbatim>\<open>heap_free_bytes\<close> over such loads and stores.  Shown: they simulate the functions of \<^verbatim>\<open>Heap\<close>
    (\<^verbatim>\<open>heap_sim\<close>, which also accounts for every fault and frame), and keep the contract \<^verbatim>\<open>byte_heap\<close> (interpreted again as \<^verbatim>\<open>khv\<close>), so
    clients are safe with demand paging, too.  The reserve of frames asked for is four for every page not touched yet, the most a
    fault can take.  \<^verbatim>\<open>Heap_Test\<close>: \<^verbatim>\<open>heap_self_test\<close>.  Shown: it passes, and leaves no free byte in the heap.
    \<^verbatim>\<open>Pmm_Test\<close>: \<^verbatim>\<open>pmm_self_test\<close>.  Shown: it passes once 512 frames above the kernel are identity mapped, and restores the allocator.
    \<^verbatim>\<open>Vm_Test\<close>: \<^verbatim>\<open>vm_self_test\<close>.  Shown: it passes from any well-formed tables with 20 frames to spare (\<^verbatim>\<open>vm_kept\<close> describes work on
    frames that were available), takes one fault, and leaves the heap alone.
  \<^item> \<^verbatim>\<open>Keyboard\<close> (\<^verbatim>\<open>keyboard.c\<close>): decoder and ring buffer; the contract \<^verbatim>\<open>bounded_queue\<close>, interpreted as \<^verbatim>\<open>kbq\<close>.  Shown: the buffer is a
    queue, also when interrupts fall between the accesses of \<^verbatim>\<open>kb_get\<close> (step relation \<^verbatim>\<open>spsc_step\<close>), and decoding agrees with a
    description of what a stream of key events types.
  \<^item> \<^verbatim>\<open>Kernel\<close> (\<^verbatim>\<open>kernel.c\<close>): device set-up and the main loop as a step relation \<^verbatim>\<open>main_step\<close> with the interrupts of the keyboard.
    Shown: what was typed is printed in order; and that the loop can go to sleep with a character in the buffer.
  \<^item> \<^verbatim>\<open>Entry\<close> (\<^verbatim>\<open>isr.asm\<close>): the way from the interrupted instruction through the stub to \<^verbatim>\<open>isr_handler\<close> and back.  Shown: the handler gets
    the registers as they were, and the interrupted code goes on with all of them, which is why the loops above can be interrupted.
  \<^item> \<^verbatim>\<open>Boot\<close> (\<^verbatim>\<open>kernel.c\<close>): \<^verbatim>\<open>kmain\<close> as a whole, with its failure branches, and the exception test \<^verbatim>\<open>m6_trigger\<close> for each setting of its
    switch.  Shown (\<^verbatim>\<open>kmain_boots\<close>): with suitable tables and boot information (\<^verbatim>\<open>boot_image\<close>, \<^verbatim>\<open>boot_info\<close>) and 16404 frames of memory,
    about 64MB, \<^verbatim>\<open>kmain\<close> reaches the main loop.  The number is four frames for each of the 4096 heap pages, the most that page faults
    can take, and twenty for the tables and frames that \<^verbatim>\<open>vm_self_test\<close> holds at once or does not give back.
  \<^item> \<^verbatim>\<open>Start\<close> (\<^verbatim>\<open>boot.asm\<close>): the checks of \<^verbatim>\<open>_start\<close>, the first page tables, and the clearing of \<^verbatim>\<open>.bss\<close> through them.  Shown: they establish
    \<^verbatim>\<open>boot_image\<close>, so that from any state of memory, with an image laid out as \<^verbatim>\<open>linker.ld\<close> says that ends within 2MB (\<^verbatim>\<open>image_layout\<close>) and a
    well-formed boot information (\<^verbatim>\<open>loader_info\<close>), the machine gets from \<^verbatim>\<open>_start\<close> to the main loop.

  \<^bold>\<open>State.\<close>  The records extend each other as the files build on each other: \<^verbatim>\<open>bus\<close> (port history), \<^verbatim>\<open>vga_st\<close>; \<^verbatim>\<open>sys\<close> (terminal, memory,
  control registers, TLB, frame allocator), \<^verbatim>\<open>vm_sys\<close>, \<^verbatim>\<open>irq_sys\<close>, \<^verbatim>\<open>idt_sys\<close>, \<^verbatim>\<open>kernel\<close>.  The heap has its own record \<^verbatim>\<open>heap_st\<close>, whose
  memory is the arena as seen through the page tables.  The static variables of the C files are fields of these records and not bytes
  of the memory; they lie in the kernel image, of which \<^verbatim>\<open>pmm_init\<close> gives no frame away.  Machine integers are words of their width; pointers are 64-bit words.
  Two tables whose bounds matter are memory without an end: the text screen is the first 2000 cells behind \<^verbatim>\<open>vga_buffer\<close>, the handlers the
  first 16 words of \<^verbatim>\<open>irq_handlers\<close>, and a write past them shows.  The text screen is kept apart from \<^verbatim>\<open>mem\<close>: page tables, frames and heap lie
  elsewhere, as no frame below 1MB is ever handed out, and \<^verbatim>\<open>loader_info\<close> asks it of the boot information.

  \<^bold>\<open>Errors and loops.\<close>  A C function that can fail returns its code as an \<^verbatim>\<open>int\<close>; undefined behaviour in \<^verbatim>\<open>vga_printf\<close> (a missing argument, a
  field width beyond \<^verbatim>\<open>INT_MAX\<close>) and an endless
  loop in \<^verbatim>\<open>mb2_init\<close>, \<^verbatim>\<open>pmm_init\<close> or the heap is \<^verbatim>\<open>None\<close>; a heap panic is \<^verbatim>\<open>Inl\<close> with the line printed; a halt of the
  exception path is \<^verbatim>\<open>Halt\<close>.  No definition uses fuel: loops are folds over index ranges, recursions with a termination proof, or
  \<^verbatim>\<open>partial_function (option)\<close>, for which the theorems state that a result exists.

  \<^bold>\<open>Parameters.\<close>  Devices behind ports, the addresses that assembler and linker choose (stubs, table, handler), and the code behind a
  handler address.  What a theorem needs of them is a hypothesis, such as \<^verbatim>\<open>imr_readable\<close>: the mask register reads back.

  \<^bold>\<open>Not modelled.\<close>  Of \<^verbatim>\<open>boot.asm\<close>: the header for the loader, segments, stacks and the mode bits of the control registers, which do
  not show in the memory that the C code sees.  The stack that compiled C code uses.  \<^verbatim>\<open>linker.ld\<close>: the bounds of the image are
  parameters, as are the addresses of the stubs.  The one-instruction register accessors of \<^verbatim>\<open>vm.c\<close> are field accesses of the
  state.  Build files, tools and documents.
\<close>

end
